(* ===== verification/Prelude.thy ===== *)
theory Prelude
  imports Main "HOL-Library.List_Lexorder" "HOL-Library.Char_ord"
begin

text \<open>
  Prelude of the CarfLib development: the fault type that every fallible operation of the
  model returns, the two combinators on results, the machine bounds of \<open>int\<close> and \<open>long\<close>,
  half-open pointer ranges as list slices, and the generic lemmas that the component
  theories share.

  A C++ operation that may throw, abort or run into undefined behaviour returns
  \<open>'a result\<close>: \<open>Inl\<close> names what goes wrong, \<open>Inr\<close> holds the value. Undefined
  behaviour is thereby a visible outcome and never silently given a meaning.
\<close>

named_theorems res_simps "rules that compute with results"
named_theorems slice_simps "rules on slices of the storage of a buffer"

subsection \<open>Faults and results\<close>

datatype fault =
    Bad_Range          \<comment> \<open>a pointer range that is reversed or leaves its allocation (undefined)\<close>
  | Int_Overflow       \<comment> \<open>signed arithmetic that leaves its type (undefined)\<close>
  | Length_Error       \<comment> \<open>\<open>std::length_error\<close> is thrown\<close>
  | Invalid_Argument   \<comment> \<open>\<open>std::invalid_argument\<close> is thrown\<close>
  | Out_Of_Range       \<comment> \<open>\<open>std::out_of_range\<close> is thrown\<close>
  | Null_Pointer       \<comment> \<open>a null pointer is dereferenced (undefined)\<close>
  | Overrun            \<comment> \<open>a fixed-size array is written beyond its end (undefined)\<close>
  | Uninitialised      \<comment> \<open>an array is read that nothing has written (undefined)\<close>
  | Assert_Failed      \<comment> \<open>an \<open>assert\<close> fails\<close>
  | Diverges           \<comment> \<open>the call does not return\<close>
  | Not_Owner          \<comment> \<open>a mutex is unlocked by a thread that does not hold it (undefined)\<close>
  | Exit int           \<comment> \<open>the process calls \<open>exit\<close>\<close>

type_synonym 'a result = "fault + 'a"

fun res_bind :: "'a result \<Rightarrow> ('a \<Rightarrow> 'b result) \<Rightarrow> 'b result" where
  "res_bind (Inl e) f = Inl e"
| "res_bind (Inr x) f = f x"

fun res_map :: "('a \<Rightarrow> 'b) \<Rightarrow> 'a result \<Rightarrow> 'b result" where
  "res_map f (Inl e) = Inl e"
| "res_map f (Inr x) = Inr (f x)"

lemma res_bind_eq_Inr [res_simps]:
  "res_bind m f = Inr y \<longleftrightarrow> (\<exists>x. m = Inr x \<and> f x = Inr y)"
  by (cases m) auto

lemma res_bind_eq_Inl [res_simps]:
  "res_bind m f = Inl e \<longleftrightarrow> m = Inl e \<or> (\<exists>x. m = Inr x \<and> f x = Inl e)"
  by (cases m) auto

lemma res_map_eq_Inr [res_simps]:
  "res_map f m = Inr y \<longleftrightarrow> (\<exists>x. m = Inr x \<and> f x = y)"
  by (cases m) auto

lemma res_map_eq_Inl [res_simps]: "res_map f m = Inl e \<longleftrightarrow> m = Inl e"
  by (cases m) auto

lemma res_bind_assoc:
  "res_bind (res_bind m f) g = res_bind m (\<lambda>x. res_bind (f x) g)"
  by (cases m) auto

lemma res_bind_cong [fundef_cong]:
  "m = m' \<Longrightarrow> (\<And>x. m' = Inr x \<Longrightarrow> f x = f' x) \<Longrightarrow> res_bind m f = res_bind m' f'"
  by (cases m') auto

subsection \<open>Machine bounds\<close>

abbreviation int_max :: int where "int_max \<equiv> 2147483647"
abbreviation int_min :: int where "int_min \<equiv> - 2147483648"
abbreviation long_max :: int where "long_max \<equiv> 9223372036854775807"

definition wrap64 :: "int \<Rightarrow> int" where
  "wrap64 x = (x + 2 ^ 63) mod 2 ^ 64 - 2 ^ 63"

lemma wrap64_id: "- (2 ^ 63) \<le> x \<Longrightarrow> x < 2 ^ 63 \<Longrightarrow> wrap64 x = x"
  by (simp add: wrap64_def)

lemma wrap64_range: "- (2 ^ 63) \<le> wrap64 x \<and> wrap64 x < 2 ^ 63"
  unfolding wrap64_def using pos_mod_bound [of "2 ^ 64" "x + 2 ^ 63"]
  by simp

lemma wrap64_above:
  assumes "2 ^ 63 \<le> x" and "x < 2 ^ 63 + 2 ^ 64"
  shows "wrap64 x = x - 2 ^ 64"
proof -
  have "(x + 2 ^ 63) mod 2 ^ 64 = (x + 2 ^ 63 - 2 ^ 64) mod 2 ^ 64"
    by (rule minus_mod_self2 [symmetric])
  also have "\<dots> = x + 2 ^ 63 - 2 ^ 64"
    using assms by (intro mod_pos_pos_trivial) auto
  finally show ?thesis by (simp add: wrap64_def)
qed

subsection \<open>Slices\<close>

text \<open>The half-open range \<open>[i, j)\<close> of a storage, as the source's pointer pairs name it.\<close>

definition slice :: "nat \<Rightarrow> nat \<Rightarrow> 'a list \<Rightarrow> 'a list" where
  "slice i j xs = take (j - i) (drop i xs)"

lemma length_slice [slice_simps]: "length (slice i j xs) = min (j - i) (length xs - i)"
  by (simp add: slice_def)

lemma slice_empty [slice_simps]: "j \<le> i \<Longrightarrow> slice i j xs = []"
  by (simp add: slice_def)

lemma take_slice [slice_simps]: "i + n \<le> j \<Longrightarrow> take n (slice i j xs) = slice i (i + n) xs"
  by (simp add: slice_def min_def)

lemma drop_slice [slice_simps]: "drop n (slice i j xs) = slice (i + n) j xs"
  by (simp add: slice_def drop_take add.commute)

lemma slice_append_left [slice_simps]: "j \<le> length xs \<Longrightarrow> slice i j (xs @ ys) = slice i j xs"
  by (simp add: slice_def)

lemma nth_slice [slice_simps]: "i + k < j \<Longrightarrow> j \<le> length xs \<Longrightarrow> slice i j xs ! k = xs ! (i + k)"
  by (simp add: slice_def)

lemma slice_split: "i \<le> j \<Longrightarrow> j \<le> k \<Longrightarrow> slice i j xs @ slice j k xs = slice i k xs"
proof -
  assume "i \<le> j" and "j \<le> k"
  then have "k - i = (j - i) + (k - j)" by simp
  then show ?thesis
    using \<open>i \<le> j\<close> by (simp only: slice_def take_add) simp
qed

text \<open>Overwriting a range of the storage, as \<open>std::copy\<close> into it does.\<close>

definition overwrite :: "nat \<Rightarrow> 'a list \<Rightarrow> 'a list \<Rightarrow> 'a list" where
  "overwrite i ys xs = take i xs @ ys @ drop (i + length ys) xs"

lemma length_overwrite [slice_simps]:
  "i + length ys \<le> length xs \<Longrightarrow> length (overwrite i ys xs) = length xs"
  by (simp add: overwrite_def)

lemma slice_overwrite_before:
  assumes "j \<le> i" and "i \<le> length xs"
  shows "slice k j (overwrite i ys xs) = slice k j xs"
  using assms
  by (cases "k \<le> j") (auto simp: slice_def overwrite_def min_def drop_take)

lemma slice_overwrite_written:
  assumes "k \<le> i" and "i + length ys \<le> length xs"
  shows "slice k (i + length ys) (overwrite i ys xs) = slice k i xs @ ys"
proof -
  have "slice i (i + length ys) (overwrite i ys xs) = ys"
    using assms by (simp add: slice_def overwrite_def)
  then show ?thesis
    using assms slice_split [of k i "i + length ys" "overwrite i ys xs"]
      slice_overwrite_before [of i i xs k ys]
    by simp
qed

subsection \<open>Step relations\<close>

text \<open>What every step keeps, every run keeps.\<close>

locale step_invariant =
  fixes step :: "'s \<Rightarrow> 's \<Rightarrow> bool" and inv :: "'s \<Rightarrow> bool"
  assumes keeps: "step s s' \<Longrightarrow> inv s \<Longrightarrow> inv s'"
begin

lemma run: "step\<^sup>*\<^sup>* s s' \<Longrightarrow> inv s \<Longrightarrow> inv s'"
  by (induction rule: rtranclp_induct) (auto intro: keeps)

lemma run_n: "(step ^^ n) s s' \<Longrightarrow> inv s \<Longrightarrow> inv s'"
  by (rule run) (rule relpowp_imp_rtranclp)

end

text \<open>
  A forward simulation: what the concrete system does in one step, the abstract one can do in
  some number of steps, with related results. Then runs correspond.
\<close>

locale simulation =
  fixes cstep :: "'c \<Rightarrow> 'c \<Rightarrow> bool" and astep :: "'a \<Rightarrow> 'a \<Rightarrow> bool" and rel :: "'c \<Rightarrow> 'a \<Rightarrow> bool"
  assumes simulates: "cstep c c' \<Longrightarrow> rel c a \<Longrightarrow> \<exists>a'. astep\<^sup>*\<^sup>* a a' \<and> rel c' a'"
begin

lemma run: "cstep\<^sup>*\<^sup>* c c' \<Longrightarrow> rel c a \<Longrightarrow> \<exists>a'. astep\<^sup>*\<^sup>* a a' \<and> rel c' a'"
proof (induction rule: rtranclp_induct)
  case (step c1 c2)
  then obtain a1 where "astep\<^sup>*\<^sup>* a a1" "rel c1 a1" by blast
  with simulates [OF step.hyps(2)] show ?case by (meson rtranclp_trans)
qed blast

end

subsection \<open>Lists as multisets of threads\<close>

lemma length_remove1_int: "x \<in> set xs \<Longrightarrow> int (length (remove1 x xs)) = int (length xs) - 1"
  by (induction xs) auto

end
