(* ===== verification/StdMap.thy ===== *)
theory StdMap
  imports Prelude
begin

text \<open>
  \<open>std::map\<close> as the source uses it (\<open>headers_\<close>, \<open>users\<close>, \<open>conn_\<close>, \<open>channels\<close>,
  \<open>timers_\<close>): an association list sorted strictly by key. \<open>operator[]\<close> assigns,
  \<open>insert\<close> leaves an existing entry alone, \<open>erase\<close> removes by key, \<open>begin\<close> is the
  entry with the least key, and iteration visits the entries in key order.

  The locale \<open>std_map\<close> is the contract a user of the container relies on;
  \<open>ordered_std_map\<close> adds what a user of \<open>begin()\<close> relies on. Both are interpreted
  on the sorted association lists at the end.
\<close>

type_synonym ('k, 'v) smap = "('k \<times> 'v) list"

subsection \<open>Operations\<close>

abbreviation smap_find :: "('k, 'v) smap \<Rightarrow> 'k \<Rightarrow> 'v option" where
  "smap_find \<equiv> map_of"

fun smap_assign :: "'k::linorder \<Rightarrow> 'v \<Rightarrow> ('k, 'v) smap \<Rightarrow> ('k, 'v) smap" where
  "smap_assign k v [] = [(k, v)]"
| "smap_assign k v ((k', v') # m) =
     (if k < k' then (k, v) # (k', v') # m
      else if k = k' then (k, v) # m
      else (k', v') # smap_assign k v m)"

definition smap_insert :: "'k::linorder \<Rightarrow> 'v \<Rightarrow> ('k, 'v) smap \<Rightarrow> ('k, 'v) smap" where
  "smap_insert k v m = (case smap_find m k of None \<Rightarrow> smap_assign k v m | Some _ \<Rightarrow> m)"

definition smap_erase :: "'k \<Rightarrow> ('k, 'v) smap \<Rightarrow> ('k, 'v) smap" where
  "smap_erase k m = filter (\<lambda>e. fst e \<noteq> k) m"

fun smap_begin :: "('k, 'v) smap \<Rightarrow> ('k \<times> 'v) option" where
  "smap_begin [] = None"
| "smap_begin (e # m) = Some e"

definition smap_ok :: "('k::linorder, 'v) smap \<Rightarrow> bool" where
  "smap_ok m \<longleftrightarrow> sorted_wrt (<) (map fst m)"

subsection \<open>The contract\<close>

locale std_map =
  fixes find :: "'m \<Rightarrow> 'k \<Rightarrow> 'v option"
    and assign :: "'k \<Rightarrow> 'v \<Rightarrow> 'm \<Rightarrow> 'm"
    and insert_new :: "'k \<Rightarrow> 'v \<Rightarrow> 'm \<Rightarrow> 'm"
    and erase :: "'k \<Rightarrow> 'm \<Rightarrow> 'm"
    and ok :: "'m \<Rightarrow> bool"
  assumes find_assign: "ok m \<Longrightarrow> find (assign k v m) = (find m)(k \<mapsto> v)"
    and find_insert_new:
      "ok m \<Longrightarrow> find (insert_new k v m) = (if find m k = None then (find m)(k \<mapsto> v) else find m)"
    and find_erase: "ok m \<Longrightarrow> find (erase k m) = (find m)(k := None)"
    and ok_assign: "ok m \<Longrightarrow> ok (assign k v m)"
    and ok_insert_new: "ok m \<Longrightarrow> ok (insert_new k v m)"
    and ok_erase: "ok m \<Longrightarrow> ok (erase k m)"
begin

lemma find_assign_same: "ok m \<Longrightarrow> find (assign k v m) k = Some v"
  by (simp add: find_assign)

lemma find_insert_kept: "ok m \<Longrightarrow> find m k = Some w \<Longrightarrow> find (insert_new k v m) = find m"
  by (simp add: find_insert_new)

lemma find_insert_absent:
  "ok m \<Longrightarrow> find m k = None \<Longrightarrow> find (insert_new k v m) = find (assign k v m)"
  by (simp add: find_insert_new find_assign)

lemma find_erase_insert:
  "ok m \<Longrightarrow> find m k = None \<Longrightarrow> find (erase k (insert_new k v m)) = find m"
  by (rule ext) (simp add: find_erase find_insert_new ok_insert_new)

lemma dom_assign: "ok m \<Longrightarrow> dom (find (assign k v m)) = insert k (dom (find m))"
  by (simp add: find_assign)

lemma dom_erase: "ok m \<Longrightarrow> dom (find (erase k m)) = dom (find m) - {k}"
  by (simp add: find_erase)

lemma fold_assign:
  "ok m \<Longrightarrow> ok (fold (\<lambda>(k, v). assign k v) es m) \<and>
    find (fold (\<lambda>(k, v). assign k v) es m) = find m ++ map_of (rev es)"
  by (induction es arbitrary: m) (auto simp: find_assign ok_assign map_add_upd_left)

end

locale ordered_std_map = std_map find assign insert_new erase ok
  for find :: "'m \<Rightarrow> 'k::linorder \<Rightarrow> 'v option" and assign insert_new erase ok +
  fixes first :: "'m \<Rightarrow> ('k \<times> 'v) option"
  assumes first_None: "ok m \<Longrightarrow> first m = None \<longleftrightarrow> find m = Map.empty"
    and first_Some: "ok m \<Longrightarrow> first m = Some (k, v) \<Longrightarrow> find m k = Some v"
    and first_least: "ok m \<Longrightarrow> first m = Some (k, v) \<Longrightarrow> find m k' = Some v' \<Longrightarrow> k \<le> k'"
begin

lemma first_above:
  "ok m \<Longrightarrow> first m = Some (k, v) \<Longrightarrow> t < k \<Longrightarrow> find m k' = Some v' \<Longrightarrow> t < k'"
  using first_least by fastforce

lemma erase_first_greater:
  assumes "ok m" and "first m = Some (k, v)" and "find (erase k m) k' = Some v'"
  shows "k < k'"
proof -
  from assms(1,3) have "k' \<noteq> k" and "find m k' = Some v'"
    by (auto simp: find_erase split: if_splits)
  with first_least [OF assms(1,2)] show ?thesis by fastforce
qed

end

subsection \<open>Sorted association lists satisfy it\<close>

lemma map_of_smap_assign: "map_of (smap_assign k v m) = (map_of m)(k \<mapsto> v)"
  by (induction k v m rule: smap_assign.induct) (auto simp: fun_eq_iff)

lemma set_keys_smap_assign: "fst ` set (smap_assign k v m) = insert k (fst ` set m)"
  by (induction k v m rule: smap_assign.induct) auto

lemma smap_ok_assign: "smap_ok m \<Longrightarrow> smap_ok (smap_assign k v m)"
  unfolding smap_ok_def
  by (induction k v m rule: smap_assign.induct)
    (auto simp: set_keys_smap_assign)

lemma map_of_smap_erase: "map_of (smap_erase k m) = (map_of m)(k := None)"
  by (induction m) (auto simp: smap_erase_def fun_eq_iff)

lemma smap_ok_erase: "smap_ok m \<Longrightarrow> smap_ok (smap_erase k m)"
  unfolding smap_ok_def smap_erase_def
  by (induction m) auto

lemma smap_begin_least:
  assumes "smap_ok m" and "smap_begin m = Some (k, v)" and "map_of m k' = Some v'"
  shows "k \<le> k'"
proof (cases m)
  case Nil
  with assms show ?thesis by simp
next
  case (Cons e m')
  with assms show ?thesis
    by (auto simp: smap_ok_def split: if_splits dest!: map_of_SomeD intro: less_imp_le)
qed

interpretation smap: ordered_std_map map_of smap_assign smap_insert smap_erase smap_ok smap_begin
proof unfold_locales
  fix m :: "('a \<times> 'b) list" and k v
  show "map_of (smap_insert k v m) =
      (if map_of m k = None then (map_of m)(k \<mapsto> v) else map_of m)"
    by (auto simp: smap_insert_def map_of_smap_assign split: option.split)
  show "smap_ok m \<Longrightarrow> smap_ok (smap_insert k v m)"
    by (auto simp: smap_insert_def smap_ok_assign split: option.split)
next
  fix m :: "('a \<times> 'b) list"
  show "(smap_begin m = None) = (map_of m = Map.empty)"
    by (cases m) (auto simp: fun_eq_iff)
next
  fix m :: "('a \<times> 'b) list" and k v
  show "smap_begin m = Some (k, v) \<Longrightarrow> map_of m k = Some v"
    by (cases m) auto
qed (simp_all add: map_of_smap_assign map_of_smap_erase smap_ok_assign smap_ok_erase
  smap_begin_least)

lemma smap_ok_Nil [simp]: "smap_ok []"
  by (simp add: smap_ok_def)

end
