(* ===== verification/CText.thy ===== *)
theory CText
  imports Prelude
begin

text \<open>
  The parts of the C and C++ library that the source uses on text: \<open>isspace\<close> in the C
  locale, \<open>std::find\<close> over a character range, NUL-terminated strings, the integer
  conversions of \<open>snprintf\<close> that occur in the source with its truncation at the buffer
  size, and \<open>std::stoi\<close>. The round trip \<open>stoi_dec_int\<close> links the two number
  formats: the one the server prints in Content-Length and the one it reads back.
\<close>

subsection \<open>Characters and searches\<close>

definition isspace :: "char \<Rightarrow> bool" where
  "isspace c \<longleftrightarrow> c = CHR '' '' \<or> (9 \<le> (of_char c :: nat) \<and> (of_char c :: nat) \<le> 13)"

definition isdigit :: "char \<Rightarrow> bool" where
  "isdigit c \<longleftrightarrow> 48 \<le> (of_char c :: nat) \<and> (of_char c :: nat) \<le> 57"

abbreviation CR :: char where "CR \<equiv> CHR 0x0D"
abbreviation LF :: char where "LF \<equiv> CHR 0x0A"
abbreviation NUL :: char where "NUL \<equiv> CHR 0x00"
abbreviation crlf :: string where "crlf \<equiv> [CR, LF]"

text \<open>\<open>std::find\<close> over a range: the index of the first hit, the length if there is none.\<close>

definition find_char :: "char \<Rightarrow> string \<Rightarrow> nat" where
  "find_char c s = length (takeWhile (\<lambda>x. x \<noteq> c) s)"

lemma find_char_le [simp]: "find_char c s \<le> length s"
  by (simp add: find_char_def length_takeWhile_le)

lemma find_char_append_absent [simp]:
  "c \<notin> set s \<Longrightarrow> find_char c (s @ t) = length s + find_char c t"
  by (induction s) (auto simp: find_char_def)

lemma find_char_Cons_same [simp]: "find_char c (c # t) = 0"
  by (simp add: find_char_def)

lemma find_char_absent: "c \<notin> set s \<Longrightarrow> find_char c s = length s"
  using find_char_append_absent [of c s "[]"] by (simp add: find_char_def)

text \<open>Reading a NUL-terminated string out of an array.\<close>

definition c_str :: "string \<Rightarrow> string" where
  "c_str s = takeWhile (\<lambda>x. x \<noteq> NUL) s"

lemma c_str_id: "NUL \<notin> set s \<Longrightarrow> c_str s = s"
  by (auto simp: c_str_def)

subsection \<open>Decimal output\<close>

definition digit :: "nat \<Rightarrow> char" where
  "digit d = char_of (48 + d)"

fun dec_nat :: "nat \<Rightarrow> string" where
  "dec_nat n = (if n < 10 then [digit n] else dec_nat (n div 10) @ [digit (n mod 10)])"

declare dec_nat.simps [simp del]

definition dec_int :: "int \<Rightarrow> string" where
  "dec_int i = (if i < 0 then CHR ''-'' # dec_nat (nat (- i)) else dec_nat (nat i))"

definition pad :: "char \<Rightarrow> nat \<Rightarrow> string \<Rightarrow> string" where
  "pad c w s = replicate (w - length s) c @ s"

text \<open>The conversions \<open>%0<w>d\<close> and \<open>%<w>d\<close>.\<close>

definition fmt_zero :: "nat \<Rightarrow> int \<Rightarrow> string" where
  "fmt_zero w i =
     (if i < 0 then CHR ''-'' # pad (CHR ''0'') (w - 1) (dec_nat (nat (- i)))
      else pad (CHR ''0'') w (dec_nat (nat i)))"

definition fmt_space :: "nat \<Rightarrow> int \<Rightarrow> string" where
  "fmt_space w i = pad (CHR '' '') w (dec_int i)"

text \<open>\<open>snprintf(buf, n, ...)\<close>: the formatted text cut at \<open>n - 1\<close> characters.\<close>

definition snprintf :: "nat \<Rightarrow> string \<Rightarrow> string" where
  "snprintf n s = take (n - 1) s"

lemma snprintf_fits: "length s < n \<Longrightarrow> snprintf n s = s"
  by (simp add: snprintf_def)

lemma of_char_digit: "d < 10 \<Longrightarrow> (of_char (digit d) :: nat) = 48 + d"
  by (simp add: digit_def)

lemma isdigit_digit: "d < 10 \<Longrightarrow> isdigit (digit d)"
  by (simp add: isdigit_def of_char_digit)

lemma set_dec_nat: "c \<in> set (dec_nat n) \<Longrightarrow> isdigit c"
proof (induction n rule: dec_nat.induct)
  case (1 n)
  show ?case
  proof (cases "n < 10")
    case True
    with 1 show ?thesis by (simp add: dec_nat.simps [of n] isdigit_digit)
  next
    case False
    with 1 show ?thesis by (auto simp: dec_nat.simps [of n] isdigit_digit)
  qed
qed

lemma dec_nat_not_Nil [simp]: "dec_nat n \<noteq> []"
  by (simp add: dec_nat.simps [of n])

lemma length_dec_nat: "0 < k \<Longrightarrow> n < 10 ^ k \<Longrightarrow> length (dec_nat n) \<le> k"
proof (induction n arbitrary: k rule: dec_nat.induct)
  case (1 n)
  show ?case
  proof (cases "n < 10")
    case True
    with 1 show ?thesis by (simp add: dec_nat.simps [of n])
  next
    case False
    with 1(3) have "k \<noteq> 1" by auto
    with 1(2) obtain j where j: "k = Suc j" "0 < j" by (cases k) auto
    with 1(3) have "n div 10 < 10 ^ j" by (simp add: div_less_iff_less_mult mult.commute)
    with 1(1) False j show ?thesis by (simp add: dec_nat.simps [of n])
  qed
qed

subsection \<open>\<open>std::stoi\<close>\<close>

definition digits_val :: "string \<Rightarrow> nat" where
  "digits_val s = foldl (\<lambda>a c. 10 * a + (of_char c - 48)) 0 s"

definition stoi :: "string \<Rightarrow> int result" where
  "stoi s =
     (let s1 = dropWhile isspace s;
          neg = (s1 \<noteq> [] \<and> hd s1 = CHR ''-'');
          s2 = (if s1 \<noteq> [] \<and> (hd s1 = CHR ''-'' \<or> hd s1 = CHR ''+'') then tl s1 else s1);
          ds = takeWhile isdigit s2;
          v = (if neg then - int (digits_val ds) else int (digits_val ds))
      in if ds = [] then Inl Invalid_Argument
         else if int_min \<le> v \<and> v \<le> int_max then Inr v
         else Inl Out_Of_Range)"

lemma digits_val_dec_nat: "digits_val (dec_nat n) = n"
proof (induction n rule: dec_nat.induct)
  case (1 n)
  show ?case
  proof (cases "n < 10")
    case True
    then show ?thesis by (simp add: dec_nat.simps [of n] digits_val_def of_char_digit)
  next
    case False
    with 1 show ?thesis
      by (simp add: dec_nat.simps [of n] digits_val_def of_char_digit)
  qed
qed

lemma isdigit_not_space: "isdigit c \<Longrightarrow> \<not> isspace c \<and> c \<noteq> CHR ''-'' \<and> c \<noteq> CHR ''+''"
  by (auto simp: isdigit_def isspace_def)

lemma takeWhile_dec_nat [simp]: "takeWhile isdigit (dec_nat n) = dec_nat n"
  by (auto simp: set_dec_nat)

lemma hd_dec_nat: "isdigit (hd (dec_nat n))"
  by (rule set_dec_nat [of _ n]) simp

lemma dropWhile_dec_nat [simp]: "dropWhile isspace (dec_nat n) = dec_nat n"
  using isdigit_not_space [OF hd_dec_nat, of n]
  by (cases "dec_nat n") auto

lemma stoi_dec_nat: "int n \<le> int_max \<Longrightarrow> stoi (dec_nat n) = Inr (int n)"
  using isdigit_not_space [OF hd_dec_nat, of n]
  by (simp add: stoi_def Let_def digits_val_dec_nat)

lemma stoi_dec_int: "int_min \<le> i \<Longrightarrow> i \<le> int_max \<Longrightarrow> stoi (dec_int i) = Inr i"
  by (cases "i < 0")
    (simp_all add: dec_int_def stoi_dec_nat, simp add: stoi_def Let_def isspace_def digits_val_dec_nat)

lemma stoi_empty: "stoi [] = Inl Invalid_Argument"
  by (simp add: stoi_def Let_def)

end
