(* ===== verification/HttpRequest.thy ===== *)
theory HttpRequest
  imports StdMap CText
begin

text \<open>
  \<open>http/HttpRequest.h\<close>: the request object the parser fills in. A pair of pointers into
  the buffer is modelled by the text between them.
\<close>

datatype http_method =
  GET | POST | HEAD | PUT | DELETE | TRACE | OPTIONS | CONNECT | PATH

datatype http_version = kUnknown | kHttp10 | kHttp11

record http_request =
  req_headers :: "(string, string) smap"
  req_path :: string
  req_query :: string
  req_body :: string
  req_method :: http_method
  req_version :: http_version

definition new_request :: http_request where
  "new_request = \<lparr>req_headers = [], req_path = [], req_query = [], req_body = [],
     req_method = GET, req_version = kHttp11\<rparr>"

definition setMethod :: "string \<Rightarrow> http_request \<Rightarrow> bool \<times> http_request" where
  "setMethod m r =
     (if m = ''GET'' then (True, r\<lparr>req_method := GET\<rparr>)
      else if m = ''POST'' then (True, r\<lparr>req_method := POST\<rparr>)
      else if m = ''HEAD'' then (True, r\<lparr>req_method := HEAD\<rparr>)
      else if m = ''PUT'' then (True, r\<lparr>req_method := PUT\<rparr>)
      else if m = ''DELETE'' then (True, r\<lparr>req_method := DELETE\<rparr>)
      else if m = ''TRACE'' then (True, r\<lparr>req_method := TRACE\<rparr>)
      else if m = ''OPTIONS'' then (True, r\<lparr>req_method := OPTIONS\<rparr>)
      else if m = ''CONNET'' then (True, r\<lparr>req_method := CONNECT\<rparr>)
      else (True, r\<lparr>req_method := PATH\<rparr>))"

fun methodString :: "http_method \<Rightarrow> string" where
  "methodString GET = ''GET''"
| "methodString POST = ''POST''"
| "methodString HEAD = ''HEAD''"
| "methodString PUT = ''PUT''"
| "methodString DELETE = ''DELETE''"
| "methodString TRACE = ''TRACE''"
| "methodString OPTIONS = ''OPTIONS''"
| "methodString CONNECT = ''CONNECT''"
| "methodString PATH = ''PATH''"

definition setVersion :: "http_version \<Rightarrow> http_request \<Rightarrow> http_request" where
  "setVersion v r = r\<lparr>req_version := v\<rparr>"

definition setPath :: "string \<Rightarrow> http_request \<Rightarrow> http_request" where
  "setPath p r = r\<lparr>req_path := p\<rparr>"

definition setQuery :: "string \<Rightarrow> http_request \<Rightarrow> http_request" where
  "setQuery q r = r\<lparr>req_query := q\<rparr>"

text \<open>
  \<open>addHeader(start, colon, end)\<close>: the line \<open>[start, end)\<close> and the index of the colon in it.
  White space is skipped after the colon and dropped from the end of the value.
\<close>

definition trim_right :: "string \<Rightarrow> string" where
  "trim_right s = rev (dropWhile isspace (rev s))"

definition addHeader :: "string \<Rightarrow> nat \<Rightarrow> http_request \<Rightarrow> http_request" where
  "addHeader line colon r =
     (let field = take colon line;
          val = trim_right (dropWhile isspace (drop (colon + 1) line))
      in r\<lparr>req_headers := smap_assign field val (req_headers r)\<rparr>)"

definition appendBody :: "string \<Rightarrow> http_request \<Rightarrow> http_request" where
  "appendBody s r = r\<lparr>req_body := req_body r @ s\<rparr>"

definition bodyLength :: "http_request \<Rightarrow> int" where
  "bodyLength r = int (length (req_body r))"

definition getHeader :: "string \<Rightarrow> http_request \<Rightarrow> string" where
  "getHeader field r = (case smap_find (req_headers r) field of None \<Rightarrow> [] | Some v \<Rightarrow> v)"

definition swap_request :: "http_request \<Rightarrow> http_request \<Rightarrow> http_request \<times> http_request" where
  "swap_request this that = (that, this)"

subsection \<open>Invariant and lemmas\<close>

definition request_ok :: "http_request \<Rightarrow> bool" where
  "request_ok r \<longleftrightarrow> smap_ok (req_headers r)"

lemma request_ok_new [simp]: "request_ok new_request"
  by (simp add: request_ok_def new_request_def)

lemma request_ok_setters [simp]:
  "request_ok (setVersion v r) = request_ok r"
  "request_ok (setPath p r) = request_ok r"
  "request_ok (setQuery q r) = request_ok r"
  "request_ok (appendBody s r) = request_ok r"
  by (simp_all add: request_ok_def setVersion_def setPath_def setQuery_def appendBody_def)

definition method_of :: "string \<Rightarrow> http_method" where
  "method_of m =
     (if m = ''GET'' then GET else if m = ''POST'' then POST else if m = ''HEAD'' then HEAD
      else if m = ''PUT'' then PUT else if m = ''DELETE'' then DELETE
      else if m = ''TRACE'' then TRACE else if m = ''OPTIONS'' then OPTIONS
      else if m = ''CONNET'' then CONNECT else PATH)"

lemma setMethod_eq: "setMethod m r = (True, r\<lparr>req_method := method_of m\<rparr>)"
  by (simp add: setMethod_def method_of_def)

lemma request_ok_setMethod [simp]: "request_ok (snd (setMethod m r)) = request_ok r"
  by (simp add: request_ok_def setMethod_def)

lemma request_ok_addHeader: "request_ok r \<Longrightarrow> request_ok (addHeader line colon r)"
  by (simp add: request_ok_def addHeader_def smap.ok_assign)

text \<open>
  Headers as the parser adds them: a line \<open>name: value\<close> whose name has no colon and whose
  value has no surrounding space is read back exactly.
\<close>

definition no_space_ends :: "string \<Rightarrow> bool" where
  "no_space_ends v \<longleftrightarrow> v = [] \<or> (\<not> isspace (hd v) \<and> \<not> isspace (last v))"

lemma trim_right_id: "no_space_ends v \<Longrightarrow> trim_right v = v"
  by (cases v rule: rev_cases) (auto simp: trim_right_def no_space_ends_def)

lemma dropWhile_space_id: "no_space_ends v \<Longrightarrow> dropWhile isspace v = v"
  by (cases v) (auto simp: no_space_ends_def)

lemma addHeader_line:
  assumes "no_space_ends v" and "\<forall>c \<in> set ws. isspace c"
  shows "addHeader (k @ CHR '':'' # ws @ v) (length k) r =
    r\<lparr>req_headers := smap_assign k v (req_headers r)\<rparr>"
  using assms by (simp add: addHeader_def dropWhile_append2 dropWhile_space_id trim_right_id)

lemma getHeader_assign:
  "request_ok r \<Longrightarrow> getHeader f (r\<lparr>req_headers := smap_assign k v (req_headers r)\<rparr>) =
     (if f = k then v else getHeader f r)"
  by (simp add: getHeader_def request_ok_def smap.find_assign)

end
