(* ===== verification/Buffer.thy ===== *)
theory Buffer
  imports CText
begin

text \<open>
  \<open>net/Buffer.h\<close> and \<open>net/Buffer.cc\<close>: the byte buffer between a socket and the parser.
  The storage is a \<open>std::vector<char>\<close>, the two indices are \<open>int\<close>s; the unread bytes are
  the half-open range from \<open>readIndex_\<close> to \<open>writeIndex_\<close>.

  The abstract value of a buffer is its list of unread bytes, \<open>contents\<close>. The locale
  \<open>byte_queue\<close> states the contract that the parser and the response writer rely on
  (append at the end, retrieve from the front); \<open>buf_room\<close> is the condition under which the
  code meets it. Outside of it \<open>resize\<close> does not keep the unread bytes: the theorems on
  \<open>resize\<close> say what it does instead.
\<close>

subsection \<open>State and accessors\<close>

record buffer =
  buf_data :: string      \<comment> \<open>\<open>buffer_\<close>\<close>
  readIndex :: int
  writeIndex :: int

definition buf_new :: "nat \<Rightarrow> buffer" where
  "buf_new n = \<lparr>buf_data = replicate n NUL, readIndex = 0, writeIndex = 0\<rparr>"

definition buf_empty :: "buffer \<Rightarrow> bool" where
  "buf_empty b \<longleftrightarrow> readIndex b = writeIndex b"

definition readableBytes :: "buffer \<Rightarrow> int" where
  "readableBytes b = writeIndex b - readIndex b"

definition buf_size :: "buffer \<Rightarrow> int" where
  "buf_size b = int (length (buf_data b))"

definition writableBytes :: "buffer \<Rightarrow> int" where
  "writableBytes b = buf_size b - writeIndex b"

definition buf_reset :: "buffer \<Rightarrow> buffer" where
  "buf_reset b = b\<lparr>readIndex := 0, writeIndex := 0\<rparr>"

definition addWriteIndex :: "int \<Rightarrow> buffer \<Rightarrow> buffer" where
  "addWriteIndex len b = b\<lparr>writeIndex := writeIndex b + len\<rparr>"

definition addReadIndex :: "int \<Rightarrow> buffer \<Rightarrow> buffer" where
  "addReadIndex len b = b\<lparr>readIndex := readIndex b + len\<rparr>"

text \<open>
  The bytes in \<open>[from, to)\<close> of the storage, as a call of the library reads them: a reversed
  range and a range that leaves the vector are undefined behaviour.
\<close>

definition read_range :: "buffer \<Rightarrow> int \<Rightarrow> int \<Rightarrow> string result" where
  "read_range b from to =
     (if 0 \<le> from \<and> from \<le> to \<and> to \<le> buf_size b
      then Inr (slice (nat from) (nat to) (buf_data b))
      else Inl Bad_Range)"

text \<open>\<open>std::copy(s, s+len, p)\<close> into the storage at index \<open>at\<close>.\<close>

definition write_range :: "buffer \<Rightarrow> int \<Rightarrow> string \<Rightarrow> buffer result" where
  "write_range b at s =
     (if 0 \<le> at \<and> at + int (length s) \<le> buf_size b
      then Inr (b\<lparr>buf_data := overwrite (nat at) s (buf_data b)\<rparr>)
      else Inl Bad_Range)"

subsection \<open>Operations\<close>

text \<open>
  \<open>resize\<close> copies from \<open>beginRead()\<close> up to \<open>begin()+readableBytes()\<close> to the start of a
  zero-filled vector of twice the size, and leaves both indices as they are.
\<close>

definition resize :: "buffer \<Rightarrow> buffer result" where
  "resize b =
     (if buf_size b * 2 > int_max then Inl Int_Overflow
      else res_bind (read_range b (readIndex b) (readableBytes b)) (\<lambda>kept.
        Inr (b\<lparr>buf_data := kept @ replicate (2 * length (buf_data b) - length kept) NUL\<rparr>)))"

text \<open>The loop of \<open>append\<close>. With a storage of size 0 it never ends.\<close>

partial_function (option) append_loop :: "buffer \<Rightarrow> int \<Rightarrow> buffer result option" where
  "append_loop b len =
     (if len > writableBytes b
      then (case resize b of Inl e \<Rightarrow> Some (Inl e) | Inr b' \<Rightarrow> append_loop b' len)
      else Some (Inr b))"

definition buf_append :: "string \<Rightarrow> buffer \<Rightarrow> buffer result" where
  "buf_append s b =
     (case append_loop b (int (length s)) of
        None \<Rightarrow> Inl Diverges
      | Some r \<Rightarrow> res_bind r (\<lambda>b1. res_bind (write_range b1 (writeIndex b1) s) (\<lambda>b2.
          Inr (addWriteIndex (int (length s)) b2))))"

definition retrieveLen :: "int \<Rightarrow> buffer \<Rightarrow> (string \<times> buffer) result" where
  "retrieveLen len b =
     (let l = (if len < readableBytes b then len else readableBytes b)
      in if l < 0 then Inl Length_Error
         else res_bind (read_range b (readIndex b) (readIndex b + l)) (\<lambda>s.
           let b1 = addReadIndex l b
           in Inr (s, if readIndex b1 = writeIndex b1 then buf_reset b1 else b1)))"

definition retrieveAll :: "buffer \<Rightarrow> (string \<times> buffer) result" where
  "retrieveAll b = retrieveLen (readableBytes b) b"

text \<open>\<open>std::search\<close> for the two bytes of \<open>CRLF\<close>: the index of the first hit in a range.\<close>

fun search_crlf :: "string \<Rightarrow> nat option" where
  "search_crlf (x # y # s) =
     (if x = CR \<and> y = LF then Some 0 else map_option Suc (search_crlf (y # s)))"
| "search_crlf s = None"

definition findCRLF :: "buffer \<Rightarrow> int option result" where
  "findCRLF b =
     res_bind (read_range b (readIndex b) (writeIndex b)) (\<lambda>s.
       Inr (map_option (\<lambda>i. readIndex b + int i) (search_crlf s)))"

subsection \<open>Abstract value and well-formedness\<close>

definition contents :: "buffer \<Rightarrow> string" where
  "contents b = slice (nat (readIndex b)) (nat (writeIndex b)) (buf_data b)"

definition buf_ok :: "buffer \<Rightarrow> bool" where
  "buf_ok b \<longleftrightarrow> 0 \<le> readIndex b \<and> readIndex b \<le> writeIndex b \<and> writeIndex b \<le> buf_size b"

definition buf_room :: "buffer \<Rightarrow> nat \<Rightarrow> bool" where
  "buf_room b n \<longleftrightarrow>
     writeIndex b + int n \<le> buf_size b \<or>
     (readIndex b = 0 \<and> 0 < buf_size b \<and> writeIndex b + int n \<le> 2 ^ 30)"

lemma buf_ok_new [simp]: "buf_ok (buf_new n)"
  by (simp add: buf_ok_def buf_new_def buf_size_def)

lemma contents_new [simp]: "contents (buf_new n) = []"
  by (simp add: contents_def buf_new_def slice_simps)

lemma length_contents: "buf_ok b \<Longrightarrow> int (length (contents b)) = readableBytes b"
  by (auto simp: contents_def buf_ok_def readableBytes_def buf_size_def slice_simps)

lemma contents_Nil_iff: "buf_ok b \<Longrightarrow> contents b = [] \<longleftrightarrow> buf_empty b"
  using length_contents [of b] by (auto simp: buf_empty_def readableBytes_def)

lemma read_range_contents:
  "buf_ok b \<Longrightarrow> read_range b (readIndex b) (writeIndex b) = Inr (contents b)"
  by (auto simp: read_range_def contents_def buf_ok_def)

text \<open>A buffer that holds just the given bytes, for concrete instances.\<close>

definition buf_of :: "string \<Rightarrow> buffer" where
  "buf_of s = \<lparr>buf_data = s, readIndex = 0, writeIndex = int (length s)\<rparr>"

lemma buf_of_ok [simp]: "buf_ok (buf_of s)"
  by (simp add: buf_of_def buf_ok_def buf_size_def)

lemma contents_of [simp]: "contents (buf_of s) = s"
  by (simp add: buf_of_def contents_def slice_def)

subsection \<open>Searching for a line end\<close>

lemma search_crlf_Some:
  "search_crlf s = Some i \<Longrightarrow> i + 2 \<le> length s \<and> s = take i s @ crlf @ drop (i + 2) s"
proof (induction s arbitrary: i rule: search_crlf.induct)
  case (1 x y s)
  then show ?case by (cases i) (auto split: if_splits)
qed auto

lemma search_crlf_append: "search_crlf s = Some i \<Longrightarrow> search_crlf (s @ t) = Some i"
  by (induction s arbitrary: i rule: search_crlf.induct) (auto split: if_splits)

lemma search_crlf_line: "search_crlf l = None \<Longrightarrow> search_crlf (l @ CR # LF # t) = Some (length l)"
proof (induction l rule: search_crlf.induct)
  case (1 x y s)
  then show ?case by (auto split: if_splits)
qed simp_all

lemma search_crlf_None: "CR \<notin> set l \<Longrightarrow> search_crlf l = None"
  by (induction l rule: search_crlf.induct) auto

subsection \<open>\<open>resize\<close>\<close>

lemma buf_okE:
  assumes "buf_ok b"
  obtains d r w where "b = \<lparr>buf_data = d, readIndex = int r, writeIndex = int w\<rparr>"
    and "r \<le> w" and "w \<le> length d"
proof -
  have "b = \<lparr>buf_data = buf_data b, readIndex = int (nat (readIndex b)),
      writeIndex = int (nat (writeIndex b))\<rparr>"
    using assms by (simp add: buf_ok_def)
  moreover have "nat (readIndex b) \<le> nat (writeIndex b)" "nat (writeIndex b) \<le> length (buf_data b)"
    using assms by (auto simp: buf_ok_def buf_size_def)
  ultimately show thesis by (rule that)
qed

lemma slice_shifted:
  assumes "r \<le> w" and "w \<le> length d" and "2 * r \<le> w" and "w \<le> w - 2 * r + m"
  shows "slice r w (slice r (w - r) d @ replicate m c) =
    take (w - r - 2 * r) (drop r (slice r w d)) @ replicate (min (2 * r) (w - r)) c"
proof -
  let ?A = "slice r (w - r) d"
  have len: "length ?A = w - 2 * r"
    using assms by (simp add: slice_simps)
  have "slice r w (?A @ replicate m c) =
      take (w - r) (drop r ?A @ replicate (m - (r - (w - 2 * r))) c)"
    by (simp add: slice_def [of r w] len)
  also have "\<dots> = slice (2 * r) (w - r) d @ replicate (min (2 * r) (w - r)) c"
  proof (cases "3 * r \<le> w")
    case True
    then show ?thesis
      using assms by (simp add: slice_simps mult_2 min_def) arith
  next
    case False
    then show ?thesis
      using assms by (simp add: slice_simps mult_2 min_def) arith
  qed
  also have "slice (2 * r) (w - r) d = take (w - r - 2 * r) (drop r (slice r w d))"
    using assms by (simp add: slice_def drop_take mult_2)
  finally show ?thesis .
qed

lemma resize_ok:
  assumes "buf_ok b" and "buf_size b * 2 \<le> int_max" and "readIndex b \<le> readableBytes b"
  shows "\<exists>b'. resize b = Inr b' \<and> buf_ok b' \<and> readIndex b' = readIndex b \<and>
    writeIndex b' = writeIndex b \<and> buf_size b' = 2 * buf_size b \<and>
    contents b' = take (length (contents b) - 2 * nat (readIndex b))
        (drop (nat (readIndex b)) (contents b)) @
      replicate (min (2 * nat (readIndex b)) (length (contents b))) NUL"
proof -
  obtain d r w where b: "b = \<lparr>buf_data = d, readIndex = int r, writeIndex = int w\<rparr>"
      and rw: "r \<le> w" "w \<le> length d"
    using assms(1) by (rule buf_okE)
  have rr: "2 * r \<le> w"
    using assms(3) by (simp add: b readableBytes_def)
  let ?kept = "slice r (w - r) d" and ?m = "2 * length d - (w - 2 * r)"
  have len: "length ?kept = w - 2 * r"
    using rw rr by (simp add: slice_simps)
  have "read_range b (readIndex b) (readableBytes b) = Inr ?kept"
    using rw rr by (simp add: b read_range_def readableBytes_def buf_size_def nat_diff_distrib)
  then have res: "resize b = Inr (b\<lparr>buf_data := ?kept @ replicate ?m NUL\<rparr>)"
    using assms(2) by (simp add: resize_def len b)
  moreover have "slice r w (?kept @ replicate ?m NUL) =
      take (w - r - 2 * r) (drop r (slice r w d)) @ replicate (min (2 * r) (w - r)) NUL"
    using rw rr by (intro slice_shifted) auto
  ultimately show ?thesis
    using rw rr by (simp add: b buf_ok_def buf_size_def contents_def slice_simps(1) len)
qed

lemma resize_reversed:
  assumes "buf_ok b" and "buf_size b * 2 \<le> int_max" and "readableBytes b < readIndex b"
  shows "resize b = Inl Bad_Range"
  using assms by (auto simp: resize_def read_range_def)

lemma resize_overflow: "int_max < buf_size b * 2 \<Longrightarrow> resize b = Inl Int_Overflow"
  by (simp add: resize_def)

lemma resize_front:
  assumes "buf_ok b" and "buf_size b * 2 \<le> int_max" and "readIndex b = 0"
  shows "\<exists>b'. resize b = Inr b' \<and> buf_ok b' \<and> readIndex b' = 0 \<and>
    writeIndex b' = writeIndex b \<and> buf_size b' = 2 * buf_size b \<and> contents b' = contents b"
  using resize_ok [OF assms(1,2)] assms by (auto simp: readableBytes_def buf_ok_def)

lemma resize_size: "resize b = Inr b' \<Longrightarrow> buf_size b' = 2 * buf_size b"
  by (auto simp: resize_def res_simps buf_size_def read_range_def slice_simps split: if_splits)

lemma resize_indices:
  "resize b = Inr b' \<Longrightarrow> readIndex b' = readIndex b \<and> writeIndex b' = writeIndex b"
  by (auto simp: resize_def res_simps split: if_splits)

subsection \<open>\<open>append\<close>\<close>

lemma append_loop_done: "len \<le> writableBytes b \<Longrightarrow> append_loop b len = Some (Inr b)"
  by (simp add: append_loop.simps)

lemma append_loop_front:
  assumes "buf_ok b" and "readIndex b = 0" and "0 < buf_size b" and "writeIndex b + len \<le> 2 ^ 30"
  shows "\<exists>b'. append_loop b len = Some (Inr b') \<and> buf_ok b' \<and> readIndex b' = 0 \<and>
    writeIndex b' = writeIndex b \<and> buf_size b \<le> buf_size b' \<and> len \<le> writableBytes b' \<and>
    contents b' = contents b"
  using assms
proof (induction "nat (2 ^ 30 - buf_size b)" arbitrary: b rule: less_induct)
  case less
  show ?case
  proof (cases "len \<le> writableBytes b")
    case True
    with less.prems show ?thesis by (simp add: append_loop_done)
  next
    case False
    with less.prems(4) have small: "buf_size b < 2 ^ 30"
      by (simp add: writableBytes_def)
    then obtain b1 where b1: "resize b = Inr b1" "buf_ok b1" "readIndex b1 = 0"
        "writeIndex b1 = writeIndex b" "buf_size b1 = 2 * buf_size b" "contents b1 = contents b"
      using resize_front [of b] less.prems by auto
    have "append_loop b len = append_loop b1 len"
      using False by (simp add: append_loop.simps [of b] b1(1))
    then show ?thesis
      using less.hyps [of b1] less.prems small b1 by auto
  qed
qed

lemma append_loop_returns:
  assumes "0 < buf_size b"
  shows "\<exists>r. append_loop b len = Some r"
  using assms
proof (induction "nat (int_max - buf_size b)" arbitrary: b rule: less_induct)
  case less
  show ?case
  proof (cases "len \<le> writableBytes b")
    case True
    then show ?thesis by (simp add: append_loop_done)
  next
    case False
    show ?thesis
    proof (cases "resize b")
      case (Inl e)
      with False show ?thesis by (simp add: append_loop.simps [of b])
    next
      case (Inr b1)
      then have "buf_size b * 2 \<le> int_max" and "buf_size b1 = 2 * buf_size b"
        using resize_overflow [of b] resize_size [of b] by (auto simp: not_less [symmetric])
      with less have "\<exists>r. append_loop b1 len = Some r" by auto
      with Inr False show ?thesis by (simp add: append_loop.simps [of b])
    qed
  qed
qed

lemma resize_zero: "resize (buf_new 0) = Inr (buf_new 0)"
  by (simp add: resize_def read_range_def buf_new_def buf_size_def readableBytes_def slice_simps)

lemma writableBytes_zero: "writableBytes (buf_new 0) = 0"
  by (simp add: writableBytes_def buf_size_def buf_new_def)

lemma append_loop_zero:
  assumes "0 < len"
  shows "append_loop (buf_new 0) len = None"
proof (rule ccontr)
  assume "append_loop (buf_new 0) len \<noteq> None"
  then obtain r where "append_loop (buf_new 0) len = Some r" by auto
  then have "buf_new 0 = buf_new 0 \<longrightarrow> len \<noteq> len"
  proof (rule append_loop.raw_induct [where P = "\<lambda>b l r. b = buf_new 0 \<longrightarrow> l \<noteq> len", rotated])
    fix f b l r
    assume IH: "\<And>b l r. f b l = Some r \<Longrightarrow> b = buf_new 0 \<longrightarrow> l \<noteq> len"
      and "(if writableBytes b < l
        then case resize b of Inl e \<Rightarrow> Some (Inl e) | Inr b' \<Rightarrow> f b' l else Some (Inr b)) = Some r"
    with assms IH [of "buf_new 0" len r] show "b = buf_new 0 \<longrightarrow> l \<noteq> len"
      by (auto simp: resize_zero writableBytes_zero)
  qed
  then show False by simp
qed

lemma buf_size_new: "buf_size (buf_new n) = int n"
  by (simp add: buf_size_def buf_new_def)

text \<open>
  C31: when the loop of \<open>append\<close> ends. On a well-formed buffer it returns, with the grown buffer or
  a fault, unless the storage has size 0 and there is something to append: doubling 0 makes no
  room, so then it runs forever.
\<close>

theorem append_terminates:
  assumes "buf_ok b"
  shows "append_loop b len \<noteq> None \<longleftrightarrow> 0 < buf_size b \<or> len \<le> 0"
proof (cases "0 < buf_size b")
  case True
  then show ?thesis using append_loop_returns by blast
next
  case False
  with assms have "b = buf_new 0" by (cases b) (simp add: buf_ok_def buf_size_def buf_new_def)
  then show ?thesis
    using append_loop_zero [of len] append_loop_done [of len b]
    by (cases "0 < len") (simp_all add: writableBytes_zero buf_size_new)
qed

theorem append_terminates_witness:
  "append_loop (buf_new 0) 3 = None \<and> append_loop (buf_new 1) 3 \<noteq> None"
proof -
  have "append_loop (buf_new n) 3 \<noteq> None \<longleftrightarrow> 0 < buf_size (buf_new n) \<or> (3 :: int) \<le> 0" for n
    by (rule append_terminates) (simp add: buf_ok_def buf_new_def buf_size_def)
  from this [of 0] this [of 1] show ?thesis by (simp add: buf_size_new)
qed

lemma buf_append_fits:
  assumes "buf_ok b" and "writeIndex b + int (length s) \<le> buf_size b"
  shows "\<exists>b'. buf_append s b = Inr b' \<and> buf_ok b' \<and> contents b' = contents b @ s \<and>
    readIndex b' = readIndex b \<and> writeIndex b' = writeIndex b + int (length s) \<and>
    buf_size b' = buf_size b"
proof -
  obtain d r w where b: "b = \<lparr>buf_data = d, readIndex = int r, writeIndex = int w\<rparr>"
      and rw: "r \<le> w" "w \<le> length d"
    using assms(1) by (rule buf_okE)
  have fits: "w + length s \<le> length d"
    using assms(2) by (simp add: b buf_size_def)
  have "append_loop b (int (length s)) = Some (Inr b)"
    using assms(2) by (simp add: append_loop_done writableBytes_def)
  then have "buf_append s b =
      Inr \<lparr>buf_data = overwrite w s d, readIndex = int r, writeIndex = int (w + length s)\<rparr>"
    using fits by (simp add: buf_append_def write_range_def buf_size_def addWriteIndex_def b)
  then show ?thesis
    using rw fits slice_overwrite_written [of r w s d]
    by (simp add: b buf_ok_def buf_size_def contents_def slice_simps(1) length_overwrite nat_int_add)
qed

lemma buf_append_grow:
  assumes "append_loop b (int (length s)) = Some (Inr b1)" and "int (length s) \<le> writableBytes b1"
  shows "buf_append s b = buf_append s b1"
  using assms by (simp add: buf_append_def append_loop_done)

lemma buf_append_room:
  assumes "buf_ok b" and "buf_room b (length s)"
  shows "\<exists>b'. buf_append s b = Inr b' \<and> buf_ok b' \<and> contents b' = contents b @ s \<and>
    readIndex b' = readIndex b \<and> writeIndex b' = writeIndex b + int (length s) \<and>
    buf_size b \<le> buf_size b'"
proof (cases "writeIndex b + int (length s) \<le> buf_size b")
  case True
  then show ?thesis using buf_append_fits [OF assms(1) True] by auto
next
  case False
  with assms obtain b1 where b1: "append_loop b (int (length s)) = Some (Inr b1)" "buf_ok b1"
      "readIndex b1 = 0" "readIndex b = 0" "writeIndex b1 = writeIndex b" "buf_size b \<le> buf_size b1"
      "int (length s) \<le> writableBytes b1" "contents b1 = contents b"
    using append_loop_front [of b "int (length s)"] by (auto simp: buf_room_def)
  then show ?thesis
    using buf_append_grow [OF b1(1,7)] buf_append_fits [OF b1(2), of s]
    by (auto simp: writableBytes_def)
qed

lemma buf_append_reversed:
  assumes "buf_ok b" and "writableBytes b < int (length s)" and "buf_size b * 2 \<le> int_max"
    and "readableBytes b < readIndex b"
  shows "buf_append s b = Inl Bad_Range"
  using assms resize_reversed [of b]
  by (simp add: buf_append_def append_loop.simps [of b])

subsection \<open>\<open>retrieveLen\<close> and \<open>findCRLF\<close>\<close>

text \<open>
  An operation that retrieves leaves an emptied buffer with both indices at the start, so that
  the whole storage can be written again.
\<close>

definition buf_rest :: "buffer \<Rightarrow> bool" where
  "buf_rest b \<longleftrightarrow> (buf_empty b \<longrightarrow> writeIndex b = 0)"

lemma retrieveLen_rest: "retrieveLen n b = Inr (s, b') \<Longrightarrow> buf_rest b'"
  by (auto simp: retrieveLen_def Let_def res_simps buf_rest_def buf_empty_def buf_reset_def split: if_splits)

lemma retrieveLen_ok:
  assumes "buf_ok b" and "0 \<le> n"
  shows "\<exists>b'. retrieveLen n b = Inr (take (nat n) (contents b), b') \<and> buf_ok b' \<and>
    contents b' = drop (nat n) (contents b) \<and> buf_size b' = buf_size b"
proof -
  obtain d r w where b: "b = \<lparr>buf_data = d, readIndex = int r, writeIndex = int w\<rparr>"
      and rw: "r \<le> w" "w \<le> length d"
    using assms(1) by (rule buf_okE)
  obtain k where k: "n = int k" using assms(2) nonneg_int_cases by blast
  let ?l = "min k (w - r)"
  have l: "(if n < readableBytes b then n else readableBytes b) = int ?l"
    using rw by (auto simp: b k readableBytes_def min_def)
  have rd: "read_range b (readIndex b) (readIndex b + int ?l) = Inr (slice r (r + ?l) d)"
    using rw by (simp add: b read_range_def buf_size_def nat_int_add)
  have tk: "slice r (r + ?l) d = take k (contents b)"
    using rw by (auto simp: b contents_def slice_def min_def)
  have dr: "slice (r + ?l) w d = drop k (contents b)"
    using rw by (cases "k \<le> w - r") (auto simp: b contents_def drop_slice slice_empty)
  have eq: "retrieveLen n b = Inr (take k (contents b),
      let b1 = addReadIndex (int ?l) b
      in if readIndex b1 = writeIndex b1 then buf_reset b1 else b1)"
    unfolding retrieveLen_def Let_def l rd tk by simp
  show ?thesis
  proof (cases "r + ?l = w")
    case True
    then have "int r + int ?l = int w"
      by (metis of_nat_add)
    then have "retrieveLen n b = Inr (take k (contents b), buf_reset (addReadIndex (int ?l) b))"
      unfolding eq Let_def by (simp add: b addReadIndex_def)
    moreover have "drop k (contents b) = []"
      using dr True by (simp add: slice_empty)
    moreover have "buf_reset (addReadIndex (int ?l) b) =
        \<lparr>buf_data = d, readIndex = int 0, writeIndex = int 0\<rparr>"
      by (simp add: b addReadIndex_def buf_reset_def)
    ultimately show ?thesis
      by (simp add: k) (simp add: b buf_ok_def buf_size_def contents_def slice_empty)
  next
    case False
    then have "int r + int ?l \<noteq> int w"
      by (metis of_nat_add of_nat_eq_iff)
    then have "retrieveLen n b = Inr (take k (contents b), addReadIndex (int ?l) b)"
      unfolding eq Let_def by (simp add: b addReadIndex_def)
    moreover have "addReadIndex (int ?l) b =
        \<lparr>buf_data = d, readIndex = int (r + ?l), writeIndex = int w\<rparr>"
      by (simp add: b addReadIndex_def)
    ultimately show ?thesis
      using rw dr by (simp add: k) (simp add: b buf_ok_def buf_size_def contents_def nat_int_add)
  qed
qed

lemma retrieveLen_negative: "n < 0 \<Longrightarrow> retrieveLen n b = Inl Length_Error"
  by (simp add: retrieveLen_def Let_def)

lemma findCRLF_ok:
  "buf_ok b \<Longrightarrow> findCRLF b = Inr (map_option (\<lambda>i. readIndex b + int i) (search_crlf (contents b)))"
  by (simp add: findCRLF_def read_range_contents)

subsection \<open>The contract of a byte queue\<close>

locale byte_queue =
  fixes ok :: "'b \<Rightarrow> bool"
    and content :: "'b \<Rightarrow> string"
    and room :: "'b \<Rightarrow> nat \<Rightarrow> bool"
    and add :: "string \<Rightarrow> 'b \<Rightarrow> 'b result"
    and retrieve :: "int \<Rightarrow> 'b \<Rightarrow> (string \<times> 'b) result"
  assumes add_ok: "ok b \<Longrightarrow> room b (length s) \<Longrightarrow>
      \<exists>b'. add s b = Inr b' \<and> ok b' \<and> content b' = content b @ s"
    and room_add: "ok b \<Longrightarrow> room b (length s + n) \<Longrightarrow> add s b = Inr b' \<Longrightarrow> room b' n"
    and room_less: "room b (m + n) \<Longrightarrow> room b m"
    and retrieve_ok: "ok b \<Longrightarrow> 0 \<le> len \<Longrightarrow>
      \<exists>b'. retrieve len b = Inr (take (nat len) (content b), b') \<and> ok b' \<and>
        content b' = drop (nat len) (content b)"
begin

text \<open>A sequence of appends, as a serialiser makes it.\<close>

lemma adds_ok:
  "ok b \<Longrightarrow> room b (length (concat ss) + k) \<Longrightarrow>
    \<exists>b'. foldl (\<lambda>r s. res_bind r (add s)) (Inr b) ss = Inr b' \<and> ok b' \<and> room b' k \<and>
      content b' = content b @ concat ss"
proof (induction ss arbitrary: b)
  case Nil
  then show ?case by simp
next
  case (Cons s ss)
  have room: "room b (length s + (length (concat ss) + k))"
    using Cons.prems(2) by (simp add: add.assoc)
  obtain b1 where b1: "add s b = Inr b1" "ok b1" "content b1 = content b @ s"
    using add_ok [OF Cons.prems(1) room_less [OF room]] by blast
  have "room b1 (length (concat ss) + k)"
    by (rule room_add [OF Cons.prems(1) room b1(1)])
  from Cons.IH [OF b1(2) this] show ?case
    by (auto simp: b1)
qed

lemma retrieve_added:
  assumes "ok b" and "content b = []" and "room b (length s)"
  shows "\<exists>b1 b2. add s b = Inr b1 \<and> retrieve (int (length s)) b1 = Inr (s, b2) \<and>
    ok b2 \<and> content b2 = []"
proof -
  obtain b1 where b1: "add s b = Inr b1" "ok b1" "content b1 = s"
    using add_ok [OF assms(1,3)] assms(2) by auto
  then show ?thesis
    using retrieve_ok [OF b1(2), of "int (length s)"] by auto
qed

end

lemma buf_room_less: "buf_room b (m + n) \<Longrightarrow> buf_room b m"
  by (auto simp: buf_room_def)

lemma buf_room_append:
  assumes "buf_ok b" and "buf_room b (length s + n)" and "buf_append s b = Inr b'"
  shows "buf_room b' n"
  using assms(2) buf_append_room [OF assms(1) buf_room_less [OF assms(2)]] assms(3)
  by (auto simp: buf_room_def)

interpretation bufq: byte_queue buf_ok contents buf_room buf_append retrieveLen
proof unfold_locales
  fix b :: buffer and s :: string
  assume "buf_ok b" and "buf_room b (length s)"
  then show "\<exists>b'. buf_append s b = Inr b' \<and> buf_ok b' \<and> contents b' = contents b @ s"
    using buf_append_room by blast
next
  fix b :: buffer and n :: int
  assume "buf_ok b" and "0 \<le> n"
  then show "\<exists>b'. retrieveLen n b = Inr (take (nat n) (contents b), b') \<and> buf_ok b' \<and>
      contents b' = drop (nat n) (contents b)"
    using retrieveLen_ok by blast
qed (fact buf_room_append buf_room_less)+

subsection \<open>Properties\<close>

text \<open>
  The buffer is a queue of bytes. Into a well-formed buffer with room, appending any texts
  one after the other succeeds, and retrieving any number of bytes afterwards returns exactly
  the front of the old unread bytes followed by the new texts, and leaves the rest.
\<close>

lemma buffer_stream:
  assumes "buf_ok b" and "buf_room b (length (concat ss))" and "0 \<le> n"
  shows "\<exists>b1 b2. foldl (\<lambda>r s. res_bind r (buf_append s)) (Inr b) ss = Inr b1 \<and>
    retrieveLen n b1 = Inr (take (nat n) (contents b @ concat ss), b2) \<and>
    contents b2 = drop (nat n) (contents b @ concat ss) \<and> buf_ok b2"
proof -
  obtain b1 where b1: "foldl (\<lambda>r s. res_bind r (buf_append s)) (Inr b) ss = Inr b1" "buf_ok b1"
      "contents b1 = contents b @ concat ss"
    using bufq.adds_ok [OF assms(1), of ss 0] assms(2) by auto
  with bufq.retrieve_ok [OF b1(2) assms(3)] show ?thesis by auto
qed

lemma buffer_stream_witness:
  "\<exists>b1 b2. foldl (\<lambda>r s. res_bind r (buf_append s)) (Inr (buf_of ''ab'')) [''cd'', ''e''] = Inr b1 \<and>
    retrieveLen 3 b1 = Inr (take (nat 3) (contents (buf_of ''ab'') @ concat [''cd'', ''e'']), b2) \<and>
    contents b2 = drop (nat 3) (contents (buf_of ''ab'') @ concat [''cd'', ''e'']) \<and> buf_ok b2"
proof -
  have "buf_room (buf_of ''ab'') (length (concat [''cd'', ''e'']))"
    by (simp add: buf_room_def buf_of_def buf_size_def)
  then show ?thesis by (intro buffer_stream) simp_all
qed

text \<open>
  What growing does to the unread bytes. \<open>resize\<close> copies the storage from the read index
  up to the number of readable bytes, not up to the write index. With the read index \<open>r\<close> not
  beyond the number of readable bytes the unread bytes lose their first \<open>r\<close> and last \<open>r\<close>
  ones, the others move to the front, and zero bytes fill up; with a larger read index the
  copied range is reversed. Only for \<open>r = 0\<close> the buffer keeps its content.
\<close>

lemma resize_content:
  assumes "buf_ok b" and "buf_size b * 2 \<le> int_max"
  shows "if readIndex b \<le> readableBytes b
    then \<exists>b'. resize b = Inr b' \<and> buf_ok b' \<and> buf_size b' = 2 * buf_size b \<and>
      contents b' = take (length (contents b) - 2 * nat (readIndex b))
          (drop (nat (readIndex b)) (contents b)) @
        replicate (min (2 * nat (readIndex b)) (length (contents b))) NUL \<and>
      (readIndex b = 0 \<longrightarrow> contents b' = contents b)
    else resize b = Inl Bad_Range"
proof (cases "readIndex b \<le> readableBytes b")
  case True
  from resize_ok [OF assms True] obtain b' where b': "resize b = Inr b'" "buf_ok b'"
      "buf_size b' = 2 * buf_size b"
      "contents b' = take (length (contents b) - 2 * nat (readIndex b))
          (drop (nat (readIndex b)) (contents b)) @
        replicate (min (2 * nat (readIndex b)) (length (contents b))) NUL"
    by blast
  moreover from b'(4) have "readIndex b = 0 \<longrightarrow> contents b' = contents b" by simp
  ultimately show ?thesis using True by auto
next
  case False
  with resize_reversed [OF assms] show ?thesis by simp
qed

lemma resize_content_witness:
  "\<exists>b'. resize \<lparr>buf_data = ''abcdef'', readIndex = 1, writeIndex = 6\<rparr> = Inr b' \<and>
    contents b' = ''cde'' @ [NUL, NUL]"
proof -
  let ?b = "\<lparr>buf_data = ''abcdef'', readIndex = 1, writeIndex = 6\<rparr>"
  have b: "buf_ok ?b" "buf_size ?b * 2 \<le> int_max" "readIndex ?b \<le> readableBytes ?b"
      "contents ?b = ''bcdef''"
    by (simp_all add: buf_ok_def buf_size_def readableBytes_def contents_def slice_def)
  from resize_content [OF b(1,2)] b(3) obtain b' where "resize ?b = Inr b'"
      "contents b' = take (length (contents ?b) - 2 * nat (readIndex ?b))
          (drop (nat (readIndex ?b)) (contents ?b)) @
        replicate (min (2 * nat (readIndex ?b)) (length (contents ?b))) NUL"
    by auto
  then show ?thesis by (simp add: b(4) numeral_2_eq_2)
qed

end
