(* ===== verification/HttpContext.thy ===== *)
theory HttpContext
  imports HttpRequest Buffer
begin

text \<open>
  \<open>http/HttpContext.h\<close> and \<open>http/HttpContext.cc\<close>: the incremental request parser. One pass
  of the loop of \<open>parseRequest\<close> is \<open>parse_iter\<close>, the loop is \<open>parse_loop\<close>; its
  termination rests on each pass consuming bytes or advancing the parse state.

  The second half is the abstract parser \<open>spec_parse\<close> over the list of unread bytes, the
  refinement between the two, and what the abstract parser does: independence of how the
  bytes of a request are cut into reads, and the round trip with a rendered request.
\<close>

datatype parse_state = kExpectRequestLine | kExpectHeaders | kExpectBody | kGotAll

record http_context =
  ctx_request :: http_request
  parseState :: parse_state

definition new_context :: http_context where
  "new_context = \<lparr>ctx_request = new_request, parseState = kExpectRequestLine\<rparr>"

definition gotAll :: "http_context \<Rightarrow> bool" where
  "gotAll c \<longleftrightarrow> parseState c = kGotAll"

definition ctx_reset :: "http_context \<Rightarrow> http_context" where
  "ctx_reset c = c\<lparr>parseState := kExpectRequestLine,
     ctx_request := fst (swap_request (ctx_request c) new_request)\<rparr>"

subsection \<open>The parser over the buffer\<close>

definition processRequestLine :: "string \<Rightarrow> http_context \<Rightarrow> bool \<times> http_context" where
  "processRequestLine line c =
     (let sp = find_char (CHR '' '') line
      in if sp = length line then (False, c)
         else let (known, r1) = setMethod (take sp line) (ctx_request c)
         in if \<not> known then (False, c\<lparr>ctx_request := r1\<rparr>)
         else let rest = drop (sp + 1) line;
                  sp2 = find_char (CHR '' '') rest
         in if sp2 = length rest then (False, c\<lparr>ctx_request := r1\<rparr>)
         else let target = take sp2 rest;
                  q = find_char (CHR ''?'') target;
                  r2 = (if q \<noteq> length target
                        then setQuery (drop q target) (setPath (take q target) r1)
                        else setPath target r1);
                  version = drop (sp2 + 1) rest
         in if length version = 8 \<and> take 7 version = ''HTTP/1.''
            then if last version = CHR ''1'' then (True, c\<lparr>ctx_request := setVersion kHttp11 r2\<rparr>)
            else if last version = CHR ''0'' then (True, c\<lparr>ctx_request := setVersion kHttp10 r2\<rparr>)
            else (False, c\<lparr>ctx_request := r2\<rparr>)
            else (False, c\<lparr>ctx_request := r2\<rparr>))"

text \<open>
  The three branches of the loop body. The result is the new value of \<open>ok\<close>, of \<open>hasMore\<close>,
  of the context and of the buffer.
\<close>

definition parse_line_branch ::
    "http_context \<Rightarrow> buffer \<Rightarrow> bool \<Rightarrow> (bool \<times> bool \<times> http_context \<times> buffer) result" where
  "parse_line_branch c b ok =
     res_bind (findCRLF b) (\<lambda>found. case found of
         None \<Rightarrow> Inr (ok, False, c, b)
       | Some p \<Rightarrow> res_bind (read_range b (readIndex b) p) (\<lambda>line.
           let (ok', c') = processRequestLine line c
           in if ok'
              then res_bind (retrieveLen (p + 2 - readIndex b) b) (\<lambda>(_, b').
                Inr (ok', True, c'\<lparr>parseState := kExpectHeaders\<rparr>, b'))
              else Inr (ok', False, c', b)))"

definition parse_header_branch ::
    "http_context \<Rightarrow> buffer \<Rightarrow> bool \<Rightarrow> (bool \<times> bool \<times> http_context \<times> buffer) result" where
  "parse_header_branch c b ok =
     res_bind (findCRLF b) (\<lambda>found. case found of
         None \<Rightarrow> Inr (ok, False, c, b)
       | Some p \<Rightarrow> res_bind (read_range b (readIndex b) p) (\<lambda>line.
           let colon = find_char (CHR '':'') line;
               c' = (if colon \<noteq> length line
                     then c\<lparr>ctx_request := addHeader line colon (ctx_request c)\<rparr>
                     else if req_method (ctx_request c) = POST then c\<lparr>parseState := kExpectBody\<rparr>
                     else c\<lparr>parseState := kGotAll\<rparr>)
           in res_bind (retrieveLen (p + 2 - readIndex b) b) (\<lambda>(_, b').
                Inr (ok, True, c', b'))))"

text \<open>A CRLF found in the body: everything up to and including it is retrieved and dropped.\<close>

definition drop_line :: "int option \<Rightarrow> buffer \<Rightarrow> buffer result" where
  "drop_line found b =
     (case found of
        None \<Rightarrow> Inr b
      | Some p \<Rightarrow> res_map snd (retrieveLen (p + 2 - readIndex b) b))"

definition parse_body_branch ::
    "http_context \<Rightarrow> buffer \<Rightarrow> bool \<Rightarrow> (bool \<times> bool \<times> http_context \<times> buffer) result" where
  "parse_body_branch c b ok =
     res_bind (stoi (getHeader ''Content-Length'' (ctx_request c))) (\<lambda>content_length.
       if content_length = 0 then Inr (ok, True, c\<lparr>parseState := kGotAll\<rparr>, b)
       else if \<not> buf_empty b
       then res_bind (findCRLF b) (\<lambda>found.
         res_bind (drop_line found b) (\<lambda>b1.
         res_bind (read_range b1 (readIndex b1) (readIndex b1 + readableBytes b1)) (\<lambda>body.
         res_bind (retrieveAll b1) (\<lambda>(_, b2).
           let r = appendBody body (ctx_request c);
               c' = c\<lparr>ctx_request := r\<rparr>
           in Inr (ok, True,
             if bodyLength r = content_length then c'\<lparr>parseState := kGotAll\<rparr> else c', b2)))))
       else Inr (ok, False, c, b))"

definition parse_iter ::
    "http_context \<Rightarrow> buffer \<Rightarrow> bool \<Rightarrow> (bool \<times> bool \<times> http_context \<times> buffer) result" where
  "parse_iter c b ok =
     (case parseState c of
        kExpectRequestLine \<Rightarrow> parse_line_branch c b ok
      | kExpectHeaders \<Rightarrow> parse_header_branch c b ok
      | kExpectBody \<Rightarrow> parse_body_branch c b ok
      | kGotAll \<Rightarrow> Inr (ok, False, c, b))"

subsection \<open>The abstract parser: one pass over the unread bytes\<close>

definition spec_body :: "string \<Rightarrow> string" where
  "spec_body s = (case search_crlf s of None \<Rightarrow> s | Some i \<Rightarrow> drop (i + 2) s)"

definition spec_iter ::
    "http_context \<Rightarrow> string \<Rightarrow> bool \<Rightarrow> (bool \<times> bool \<times> http_context \<times> string) result" where
  "spec_iter c s ok =
     (case parseState c of
        kExpectRequestLine \<Rightarrow>
          (case search_crlf s of
             None \<Rightarrow> Inr (ok, False, c, s)
           | Some i \<Rightarrow>
               (let (ok', c') = processRequestLine (take i s) c
                in if ok' then Inr (True, True, c'\<lparr>parseState := kExpectHeaders\<rparr>, drop (i + 2) s)
                   else Inr (False, False, c', s)))
      | kExpectHeaders \<Rightarrow>
          (case search_crlf s of
             None \<Rightarrow> Inr (ok, False, c, s)
           | Some i \<Rightarrow>
               (let line = take i s; colon = find_char (CHR '':'') line
                in Inr (ok, True,
                     if colon \<noteq> length line
                     then c\<lparr>ctx_request := addHeader line colon (ctx_request c)\<rparr>
                     else if req_method (ctx_request c) = POST then c\<lparr>parseState := kExpectBody\<rparr>
                     else c\<lparr>parseState := kGotAll\<rparr>,
                     drop (i + 2) s)))
      | kExpectBody \<Rightarrow>
          res_bind (stoi (getHeader ''Content-Length'' (ctx_request c))) (\<lambda>n.
            if n = 0 then Inr (ok, True, c\<lparr>parseState := kGotAll\<rparr>, s)
            else if s = [] then Inr (ok, False, c, s)
            else let r = appendBody (spec_body s) (ctx_request c); c' = c\<lparr>ctx_request := r\<rparr>
                 in Inr (ok, True, if bodyLength r = n then c'\<lparr>parseState := kGotAll\<rparr> else c', []))
      | kGotAll \<Rightarrow> Inr (ok, False, c, s))"

text \<open>What it means that a pass over a buffer implements a pass over its unread bytes.\<close>

definition refines ::
    "(bool \<times> bool \<times> http_context \<times> buffer) result \<Rightarrow>
     (bool \<times> bool \<times> http_context \<times> string) result \<Rightarrow> bool" where
  "refines m s \<longleftrightarrow>
     (case s of
        Inl e \<Rightarrow> m = Inl e
      | Inr (ok, again, c, rest) \<Rightarrow>
          \<exists>b. m = Inr (ok, again, c, b) \<and> buf_ok b \<and> contents b = rest)"

lemma read_line:
  assumes "buf_ok b" and "search_crlf (contents b) = Some i"
  shows "read_range b (readIndex b) (readIndex b + int i) = Inr (take i (contents b))"
proof -
  obtain d r w where b: "b = \<lparr>buf_data = d, readIndex = int r, writeIndex = int w\<rparr>"
      and rw: "r \<le> w" "w \<le> length d"
    using assms(1) by (rule buf_okE)
  have "i + 2 \<le> length (contents b)"
    using search_crlf_Some [OF assms(2)] by simp
  then have "r + i \<le> w"
    using rw by (simp add: b contents_def slice_simps(1))
  then show ?thesis
    using rw by (simp add: b read_range_def buf_size_def contents_def take_slice nat_int_add)
qed

lemma retrieve_line:
  assumes "buf_ok b"
  shows "\<exists>l b'. retrieveLen (readIndex b + int i + 2 - readIndex b) b = Inr (l, b') \<and>
    buf_ok b' \<and> contents b' = drop (i + 2) (contents b)"
  using bufq.retrieve_ok [OF assms, of "int i + 2"]
  by (auto simp: nat_add_distrib)

lemma parse_line_refines:
  assumes "buf_ok b" and "parseState c = kExpectRequestLine"
  shows "refines (parse_line_branch c b ok) (spec_iter c (contents b) ok)"
proof (cases "search_crlf (contents b)")
  case None
  with assms show ?thesis
    by (simp add: parse_line_branch_def findCRLF_ok refines_def spec_iter_def)
next
  case (Some i)
  obtain l b' where b': "retrieveLen (readIndex b + int i + 2 - readIndex b) b = Inr (l, b')"
      "buf_ok b'" "contents b' = drop (i + 2) (contents b)"
    using retrieve_line [OF assms(1)] by blast
  obtain ok' c' where p: "processRequestLine (take i (contents b)) c = (ok', c')"
    by fastforce
  show ?thesis
    using assms b' Some
    by (auto simp: parse_line_branch_def findCRLF_ok refines_def spec_iter_def read_line p Let_def)
qed

lemma parse_header_refines:
  assumes "buf_ok b" and "parseState c = kExpectHeaders"
  shows "refines (parse_header_branch c b ok) (spec_iter c (contents b) ok)"
proof (cases "search_crlf (contents b)")
  case None
  with assms show ?thesis
    by (simp add: parse_header_branch_def findCRLF_ok refines_def spec_iter_def)
next
  case (Some i)
  obtain l b' where b': "retrieveLen (readIndex b + int i + 2 - readIndex b) b = Inr (l, b')"
      "buf_ok b'" "contents b' = drop (i + 2) (contents b)"
    using retrieve_line [OF assms(1)] by blast
  show ?thesis
    using assms b' Some
    by (simp add: parse_header_branch_def findCRLF_ok refines_def spec_iter_def read_line Let_def)
qed

lemma retrieveAll_ok:
  assumes "buf_ok b"
  shows "\<exists>b'. retrieveAll b = Inr (contents b, b') \<and> buf_ok b' \<and> contents b' = []"
proof -
  have "0 \<le> readableBytes b" and len: "nat (readableBytes b) = length (contents b)"
    using length_contents [OF assms] by simp_all
  then show ?thesis
    using bufq.retrieve_ok [OF assms, of "readableBytes b"]
    by (auto simp: retrieveAll_def)
qed

lemma read_all:
  "buf_ok b \<Longrightarrow> read_range b (readIndex b) (readIndex b + readableBytes b) = Inr (contents b)"
  using read_range_contents [of b] by (simp add: readableBytes_def)

lemma drop_line_ok:
  assumes "buf_ok b"
  shows "\<exists>b1. drop_line (map_option (\<lambda>i. readIndex b + int i) (search_crlf (contents b))) b = Inr b1 \<and>
    buf_ok b1 \<and> contents b1 = spec_body (contents b)"
proof (cases "search_crlf (contents b)")
  case None
  with assms show ?thesis by (simp add: drop_line_def spec_body_def)
next
  case (Some i)
  with retrieve_line [OF assms, of i] show ?thesis
    by (auto simp: drop_line_def spec_body_def)
qed

lemma parse_body_refines:
  assumes "buf_ok b" and "parseState c = kExpectBody"
  shows "refines (parse_body_branch c b ok) (spec_iter c (contents b) ok)"
proof (cases "stoi (getHeader ''Content-Length'' (ctx_request c))")
  case (Inl e)
  with assms show ?thesis by (simp add: parse_body_branch_def refines_def spec_iter_def)
next
  case (Inr n)
  obtain b1 where b1:
      "drop_line (map_option (\<lambda>i. readIndex b + int i) (search_crlf (contents b))) b = Inr b1"
      "buf_ok b1" "contents b1 = spec_body (contents b)"
    using drop_line_ok [OF assms(1)] by blast
  obtain b2 where b2: "retrieveAll b1 = Inr (contents b1, b2)" "buf_ok b2" "contents b2 = []"
    using retrieveAll_ok [OF b1(2)] by auto
  show ?thesis
    using assms Inr b2
    by (simp add: parse_body_branch_def findCRLF_ok b1 read_all refines_def spec_iter_def
        contents_Nil_iff Let_def)
qed

lemma parse_iter_refines:
  assumes "buf_ok b"
  shows "refines (parse_iter c b ok) (spec_iter c (contents b) ok)"
proof (cases "parseState c")
  case kGotAll
  with assms show ?thesis by (simp add: parse_iter_def spec_iter_def refines_def)
qed (use assms in \<open>simp_all add: parse_iter_def parse_line_refines parse_header_refines
  parse_body_refines\<close>)

subsection \<open>The loop of \<open>parseRequest\<close>\<close>

fun state_rank :: "parse_state \<Rightarrow> nat" where
  "state_rank kExpectRequestLine = 3"
| "state_rank kExpectHeaders = 2"
| "state_rank kExpectBody = 1"
| "state_rank kGotAll = 0"

lemma parseState_processRequestLine [simp]:
  "parseState (snd (processRequestLine line c)) = parseState c"
  by (simp add: processRequestLine_def Let_def case_prod_beta)

lemma spec_iter_decreases:
  assumes "spec_iter c s ok = Inr (ok', True, c', s')"
  shows "4 * length s' + state_rank (parseState c') < 4 * length s + state_rank (parseState c)"
proof (cases "parseState c")
  case kExpectBody
  with assms show ?thesis
    by (auto simp: spec_iter_def res_simps Let_def split: if_splits)
next
  case kGotAll
  with assms show ?thesis by (simp add: spec_iter_def)
next
  case kExpectRequestLine
  with assms show ?thesis
    by (auto simp: spec_iter_def Let_def case_prod_beta split: option.splits if_splits
      dest!: search_crlf_Some)
next
  case kExpectHeaders
  with assms show ?thesis
    by (auto simp: spec_iter_def Let_def split: option.splits if_splits dest!: search_crlf_Some)
qed

lemma findCRLF_Inr: "findCRLF b = Inr x \<Longrightarrow> buf_ok b"
  by (auto simp: findCRLF_def read_range_def buf_ok_def res_simps split: if_splits)

lemma parse_iter_decreases:
  assumes "parse_iter c b ok = Inr (ok', True, c', b')"
  shows "4 * nat (readableBytes b') + state_rank (parseState c') <
    4 * nat (readableBytes b) + state_rank (parseState c)"
proof (cases "buf_ok b")
  case True
  then have "refines (parse_iter c b ok) (spec_iter c (contents b) ok)"
    by (rule parse_iter_refines)
  with assms obtain s' where "spec_iter c (contents b) ok = Inr (ok', True, c', s')"
      and "buf_ok b'" and "contents b' = s'"
    by (auto simp: refines_def split: sum.splits)
  with spec_iter_decreases [OF this(1)] True show ?thesis
    by (simp flip: length_contents)
next
  case False
  with assms show ?thesis
    by (auto simp: parse_iter_def parse_line_branch_def parse_header_branch_def
      parse_body_branch_def res_simps split: parse_state.splits if_splits dest: findCRLF_Inr)
qed

function parse_loop :: "http_context \<Rightarrow> buffer \<Rightarrow> bool \<Rightarrow> (bool \<times> http_context \<times> buffer) result" where
  "parse_loop c b ok =
     (case parse_iter c b ok of
        Inl e \<Rightarrow> Inl e
      | Inr (ok', hasMore, c', b') \<Rightarrow>
          if hasMore then parse_loop c' b' ok' else Inr (ok', c', b'))"
  by pat_completeness auto
termination
  by (relation "measure (\<lambda>(c, b, ok). 4 * nat (readableBytes b) + state_rank (parseState c))")
    (auto intro: parse_iter_decreases)

declare parse_loop.simps [simp del]

definition parseRequest :: "http_context \<Rightarrow> buffer \<Rightarrow> (bool \<times> http_context \<times> buffer) result" where
  "parseRequest c b = parse_loop c b True"

function spec_parse :: "http_context \<Rightarrow> string \<Rightarrow> bool \<Rightarrow> (bool \<times> http_context \<times> string) result" where
  "spec_parse c s ok =
     (case spec_iter c s ok of
        Inl e \<Rightarrow> Inl e
      | Inr (ok', hasMore, c', s') \<Rightarrow>
          if hasMore then spec_parse c' s' ok' else Inr (ok', c', s'))"
  by pat_completeness auto
termination
  by (relation "measure (\<lambda>(c, s, ok). 4 * length s + state_rank (parseState c))")
    (auto intro: spec_iter_decreases)

declare spec_parse.simps [simp del]

lemma parse_loop_refines:
  assumes "buf_ok b"
  shows "(case spec_parse c (contents b) ok of
      Inl e \<Rightarrow> parse_loop c b ok = Inl e
    | Inr (ok', c', rest) \<Rightarrow>
        \<exists>b'. parse_loop c b ok = Inr (ok', c', b') \<and> buf_ok b' \<and> contents b' = rest)"
  using assms
proof (induction c b ok rule: parse_loop.induct)
  case (1 c b ok)
  have ref: "refines (parse_iter c b ok) (spec_iter c (contents b) ok)"
    by (rule parse_iter_refines [OF 1(2)])
  show ?case
  proof (cases "spec_iter c (contents b) ok")
    case (Inl e)
    with ref show ?thesis
      by (simp add: refines_def parse_loop.simps [of c b] spec_parse.simps [of c])
  next
    case (Inr t)
    obtain ok' again c' s' where t: "t = (ok', again, c', s')" by (cases t)
    with ref Inr obtain b' where b': "parse_iter c b ok = Inr (ok', again, c', b')"
        "buf_ok b'" "contents b' = s'"
      by (auto simp: refines_def)
    show ?thesis
    proof (cases again)
      case True
      with b'(1) have loop: "parse_loop c b ok = parse_loop c' b' ok'"
        by (simp add: parse_loop.simps [of c b])
      have spec: "spec_parse c (contents b) ok = spec_parse c' (contents b') ok'"
        using Inr t b'(3) True by (simp add: spec_parse.simps [of c])
      show ?thesis
        unfolding loop spec by (rule 1(1) [OF b'(1) refl refl refl True b'(2)])
    next
      case False
      with b' Inr t show ?thesis
        by (simp add: parse_loop.simps [of c b] spec_parse.simps [of c])
    qed
  qed
qed

subsection \<open>How the abstract parser consumes its input\<close>

lemma spec_parse_more:
  "spec_iter c s ok = Inr (ok', True, c', s') \<Longrightarrow> spec_parse c s ok = spec_parse c' s' ok'"
  by (simp add: spec_parse.simps [of c s ok])

lemma spec_parse_stop:
  "spec_iter c s ok = Inr (ok', False, c', s') \<Longrightarrow> spec_parse c s ok = Inr (ok', c', s')"
  by (simp add: spec_parse.simps [of c s ok])

lemma spec_parse_fault: "spec_iter c s ok = Inl e \<Longrightarrow> spec_parse c s ok = Inl e"
  by (simp add: spec_parse.simps [of c s ok])

lemma spec_parse_gotAll: "parseState c = kGotAll \<Longrightarrow> spec_parse c s ok = Inr (ok, c, s)"
  by (simp add: spec_parse_stop spec_iter_def)

text \<open>Parsing a rejected request line again changes nothing and rejects it again.\<close>

lemma processRequestLine_form:
  "\<exists>valid f. (\<forall>c. processRequestLine line c = (valid, c\<lparr>ctx_request := f (ctx_request c)\<rparr>)) \<and>
    (\<forall>r. f (f r) = f r)"
proof -
  let ?sp = "find_char (CHR '' '') line"
  let ?rest = "drop (?sp + 1) line"
  let ?sp2 = "find_char (CHR '' '') ?rest"
  let ?target = "take ?sp2 ?rest"
  let ?q = "find_char (CHR ''?'') ?target"
  let ?version = "drop (?sp2 + 1) ?rest"
  let ?m = "\<lambda>r. r\<lparr>req_method := method_of (take ?sp line)\<rparr>"
  let ?t = "\<lambda>r. if ?q \<noteq> length ?target
    then (?m r)\<lparr>req_path := take ?q ?target, req_query := drop ?q ?target\<rparr>
    else (?m r)\<lparr>req_path := ?target\<rparr>"
  note defs = processRequestLine_def Let_def setMethod_eq setVersion_def setPath_def setQuery_def
  consider (no_space) "?sp = length line"
    | (one_space) "?sp \<noteq> length line" "?sp2 = length ?rest"
    | (v11) "?sp \<noteq> length line" "?sp2 \<noteq> length ?rest"
        "length ?version = 8 \<and> take 7 ?version = ''HTTP/1.''" "last ?version = CHR ''1''"
    | (v10) "?sp \<noteq> length line" "?sp2 \<noteq> length ?rest"
        "length ?version = 8 \<and> take 7 ?version = ''HTTP/1.''" "last ?version = CHR ''0''"
        "last ?version \<noteq> CHR ''1''"
    | (bad) "?sp \<noteq> length line" "?sp2 \<noteq> length ?rest"
        "\<not> ((length ?version = 8 \<and> take 7 ?version = ''HTTP/1.'') \<and>
          (last ?version = CHR ''1'' \<or> last ?version = CHR ''0''))"
    by blast
  then show ?thesis
  proof cases
    case no_space
    then show ?thesis
      by (intro exI [of _ False] exI [of _ id]) (simp add: defs)
  next
    case one_space
    then show ?thesis
      by (intro exI [of _ False] exI [of _ ?m]) (simp add: defs)
  next
    case v11
    then show ?thesis
      by (intro exI [of _ True] exI [of _ "\<lambda>r. (?t r)\<lparr>req_version := kHttp11\<rparr>"])
        (simp add: defs del: length_drop)
  next
    case v10
    then show ?thesis
      by (intro exI [of _ True] exI [of _ "\<lambda>r. (?t r)\<lparr>req_version := kHttp10\<rparr>"])
        (simp add: defs del: length_drop)
  next
    case bad
    then show ?thesis
      by (intro exI [of _ False] exI [of _ ?t]) (simp add: defs del: length_drop)
  qed
qed

lemma processRequestLine_idem:
  "processRequestLine line (snd (processRequestLine line c)) = processRequestLine line c"
proof -
  obtain valid f where "\<And>c. processRequestLine line c = (valid, c\<lparr>ctx_request := f (ctx_request c)\<rparr>)"
      and "\<And>r. f (f r) = f r"
    using processRequestLine_form [of line] by blast
  then show ?thesis by simp
qed

subsection \<open>Reads may cut a request anywhere\<close>

lemma spec_iter_extend:
  assumes "spec_iter c s ok = Inr (ok', True, c', s')" and "parseState c \<noteq> kExpectBody"
  shows "spec_iter c (s @ t) ok = Inr (ok', True, c', s' @ t)"
proof (cases "search_crlf s")
  case None
  with assms show ?thesis by (auto simp: spec_iter_def split: parse_state.splits)
next
  case (Some i)
  then have "i + 2 \<le> length s" and ext: "search_crlf (s @ t) = Some i"
    using search_crlf_Some [OF Some] search_crlf_append [OF Some] by simp_all
  then have "take i (s @ t) = take i s" and "drop (i + 2) (s @ t) = drop (i + 2) s @ t"
    by simp_all
  with assms show ?thesis
    by (auto simp: spec_iter_def Some ext case_prod_beta Let_def simp del: take_append drop_append
      split: parse_state.splits if_splits)
qed

lemma spec_iter_ok: "spec_iter c s True = Inr (ok', True, c', s') \<Longrightarrow> ok'"
  by (auto simp: spec_iter_def Let_def case_prod_beta res_simps
    split: parse_state.splits option.splits if_splits)

lemma spec_iter_method:
  "spec_iter c s ok = Inr (ok', again, c', s') \<Longrightarrow> parseState c \<noteq> kExpectRequestLine \<Longrightarrow>
    parseState c' \<noteq> kExpectRequestLine \<and>
    req_method (ctx_request c') = req_method (ctx_request c)"
  by (auto simp: spec_iter_def Let_def addHeader_def appendBody_def res_simps
    split: parse_state.splits option.splits if_splits)

lemma spec_parse_method:
  "spec_parse c s ok = Inr (ok', c', s') \<Longrightarrow> parseState c \<noteq> kExpectRequestLine \<Longrightarrow>
    req_method (ctx_request c') = req_method (ctx_request c)"
proof (induction c s ok rule: spec_parse.induct)
  case (1 c s ok)
  obtain ok1 again c1 s1 where iter: "spec_iter c s ok = Inr (ok1, again, c1, s1)"
    using 1(2) by (cases "spec_iter c s ok") (auto simp: spec_parse.simps [of c s ok])
  have step: "parseState c1 \<noteq> kExpectRequestLine"
      "req_method (ctx_request c1) = req_method (ctx_request c)"
    using spec_iter_method [OF iter 1(3)] by simp_all
  show ?case
  proof (cases again)
    case True
    with 1(2) iter have "spec_parse c1 s1 ok1 = Inr (ok', c', s')"
      by (simp add: spec_parse_more)
    with 1(1) [OF iter refl refl refl True _ step(1)] step(2) show ?thesis by simp
  next
    case False
    with 1(2) iter step show ?thesis by (simp add: spec_parse_stop)
  qed
qed

lemma spec_iter_into_body:
  "spec_iter c s ok = Inr (ok', True, c', s') \<Longrightarrow> parseState c \<noteq> kExpectBody \<Longrightarrow>
    parseState c' = kExpectBody \<Longrightarrow> req_method (ctx_request c') = POST"
  by (auto simp: spec_iter_def Let_def case_prod_beta split: parse_state.splits option.splits if_splits)

lemma spec_iter_stop_again:
  assumes "spec_iter c s True = Inr (ok', False, c', s')" and "parseState c \<noteq> kExpectBody"
  shows "spec_parse c (s @ t) True = spec_parse c' (s' @ t) True"
proof (cases "parseState c = kExpectRequestLine \<and> search_crlf s \<noteq> None")
  case True
  then obtain i where i: "search_crlf s = Some i" and st: "parseState c = kExpectRequestLine"
    by blast
  have t: "take i (s @ t) = take i s" and ext: "search_crlf (s @ t) = Some i"
    using search_crlf_Some [OF i] search_crlf_append [OF i] by simp_all
  from assms st i have bad: "processRequestLine (take i s) c = (False, c')" and "s' = s"
    by (auto simp: spec_iter_def case_prod_beta Let_def prod_eq_iff split: if_splits)
  from bad have again: "processRequestLine (take i s) c' = (False, c')"
    using processRequestLine_idem [of "take i s" c] by simp
  from bad have st': "parseState c' = kExpectRequestLine"
    using parseState_processRequestLine [of "take i s" c] st by simp
  have "spec_parse x (s @ t) True = Inr (False, c', s @ t)"
    if "parseState x = kExpectRequestLine" and "processRequestLine (take i s) x = (False, c')" for x
    using that by (intro spec_parse_stop) (simp add: spec_iter_def ext t del: take_append)
  with st st' bad again \<open>s' = s\<close> show ?thesis by simp
next
  case False
  with assms have "c' = c" and "s' = s"
    by (auto simp: spec_iter_def Let_def split: parse_state.splits option.splits if_splits)
  then show ?thesis by simp
qed

lemma spec_parse_chunks:
  assumes "spec_parse c s ok = Inr (ok1, c1, s1)" and "ok" and "parseState c \<noteq> kExpectBody"
    and "req_method (ctx_request c1) \<noteq> POST"
  shows "spec_parse c (s @ t) True = spec_parse c1 (s1 @ t) True"
  using assms
proof (induction c s ok rule: spec_parse.induct)
  case (1 c s ok)
  obtain ok' again c' s' where iter: "spec_iter c s ok = Inr (ok', again, c', s')"
    using 1(2) by (cases "spec_iter c s ok") (auto simp: spec_parse.simps [of c s ok])
  show ?case
  proof (cases again)
    case True
    with iter have more: "spec_iter c s ok = Inr (ok', True, c', s')" by simp
    have rest: "spec_parse c' s' ok' = Inr (ok1, c1, s1)"
      using 1(2) spec_parse_more [OF more] by simp
    have "ok'" using more \<open>ok\<close> by (auto intro: spec_iter_ok)
    have "parseState c' \<noteq> kExpectBody"
    proof
      assume body: "parseState c' = kExpectBody"
      with spec_parse_method [OF rest] have "req_method (ctx_request c1) = POST"
        using spec_iter_into_body [OF more 1(4) body] by simp
      with 1(5) show False ..
    qed
    then have "spec_parse c' (s' @ t) True = spec_parse c1 (s1 @ t) True"
      by (rule 1(1) [OF iter refl refl refl True rest \<open>ok'\<close> _ 1(5)])
    moreover have "spec_iter c (s @ t) True = Inr (True, True, c', s' @ t)"
      using spec_iter_extend [OF more 1(4), of t] \<open>ok\<close> \<open>ok'\<close> by simp
    ultimately show ?thesis by (simp add: spec_parse_more)
  next
    case False
    with iter \<open>ok\<close> have stop: "spec_iter c s True = Inr (ok', False, c', s')" by simp
    with 1(2) \<open>ok\<close> have "c1 = c'" and "s1 = s'"
      by (simp_all add: spec_parse_stop)
    with spec_iter_stop_again [OF stop 1(4)] show ?thesis by simp
  qed
qed

subsection \<open>Rendered requests are read back\<close>

text \<open>A request as a client writes it, and the request object it stands for.\<close>

definition render_header :: "string \<times> string \<Rightarrow> string" where
  "render_header h = fst h @ '': '' @ snd h @ crlf"

definition render_request ::
    "string \<Rightarrow> string \<Rightarrow> string \<Rightarrow> bool \<Rightarrow> (string \<times> string) list \<Rightarrow> string" where
  "render_request m path query v11 hs =
     m @ '' '' @ path @ query @ (if v11 then '' HTTP/1.1'' else '' HTTP/1.0'') @ crlf @
     concat (map render_header hs) @ crlf"

definition sent_request ::
    "string \<Rightarrow> string \<Rightarrow> string \<Rightarrow> bool \<Rightarrow> (string \<times> string) list \<Rightarrow> string \<Rightarrow> http_request" where
  "sent_request m path query v11 hs body =
     \<lparr>req_headers = fold (\<lambda>(k, v). smap_assign k v) hs [], req_path = path, req_query = query,
      req_body = body, req_method = method_of m, req_version = (if v11 then kHttp11 else kHttp10)\<rparr>"

definition line_ok :: "string \<Rightarrow> string \<Rightarrow> string \<Rightarrow> bool" where
  "line_ok m path query \<longleftrightarrow>
     {CHR '' '', CR} \<inter> set m = {} \<and> {CHR '' '', CR, CHR ''?''} \<inter> set path = {} \<and>
     {CHR '' '', CR} \<inter> set query = {} \<and> (query = [] \<or> hd query = CHR ''?'')"

definition header_ok :: "string \<times> string \<Rightarrow> bool" where
  "header_ok h \<longleftrightarrow> {CHR '':'', CR} \<inter> set (fst h) = {} \<and> CR \<notin> set (snd h) \<and> no_space_ends (snd h)"

definition with_headers :: "(string \<times> string) list \<Rightarrow> http_context \<Rightarrow> http_context" where
  "with_headers hs c = c\<lparr>ctx_request := (ctx_request c)\<lparr>req_headers :=
     fold (\<lambda>(k, v). smap_assign k v) hs (req_headers (ctx_request c))\<rparr>\<rparr>"

lemma take_line: "take (length l) (l @ x # t) = l"
  by simp

lemma drop_line_end: "drop (length l + 2) (l @ x # y # t) = t"
  by (simp add: drop_append)

lemma drop_token: "drop (length l + 1) (l @ x # t) = t"
  by (simp add: drop_append)

lemma find_token: "c \<notin> set l \<Longrightarrow> find_char c (l @ c # t) = length l"
  by simp

lemma token_proper: "length l \<noteq> length (l @ x # t)"
  by simp

lemma processRequestLine_split:
  assumes "CHR '' '' \<notin> set m" and "CHR '' '' \<notin> set target"
  shows "processRequestLine (m @ CHR '' '' # target @ CHR '' '' # version) c =
    (let r1 = (ctx_request c)\<lparr>req_method := method_of m\<rparr>;
         q = find_char (CHR ''?'') target;
         r2 = (if q \<noteq> length target then r1\<lparr>req_path := take q target, req_query := drop q target\<rparr>
               else r1\<lparr>req_path := target\<rparr>)
     in if length version = 8 \<and> take 7 version = ''HTTP/1.''
        then if last version = CHR ''1'' then (True, c\<lparr>ctx_request := r2\<lparr>req_version := kHttp11\<rparr>\<rparr>)
        else if last version = CHR ''0'' then (True, c\<lparr>ctx_request := r2\<lparr>req_version := kHttp10\<rparr>\<rparr>)
        else (False, c\<lparr>ctx_request := r2\<rparr>)
        else (False, c\<lparr>ctx_request := r2\<rparr>))"
  unfolding processRequestLine_def Let_def find_token [OF assms(1)] find_token [OF assms(2)]
    take_line drop_token if_not_P [OF token_proper] setMethod_eq prod.case not_True_eq_False if_False
    setVersion_def setPath_def setQuery_def
  by (rule refl)

lemma processRequestLine_rendered:
  assumes "line_ok m path query"
  shows "processRequestLine (m @ '' '' @ path @ query @ (if v11 then '' HTTP/1.1'' else '' HTTP/1.0''))
      new_context =
    (True, \<lparr>ctx_request = sent_request m path query v11 [] [], parseState = kExpectRequestLine\<rparr>)"
proof -
  let ?v = "if v11 then ''HTTP/1.1'' else ''HTTP/1.0''"
  have line: "m @ '' '' @ path @ query @ (if v11 then '' HTTP/1.1'' else '' HTTP/1.0'') =
      m @ CHR '' '' # (path @ query) @ CHR '' '' # ?v"
    by simp
  have sp: "CHR '' '' \<notin> set m" "CHR '' '' \<notin> set (path @ query)"
    using assms by (auto simp: line_ok_def)
  have q: "find_char (CHR ''?'') (path @ query) = length path"
    using assms by (cases query) (auto simp: line_ok_def find_char_absent)
  show ?thesis
    unfolding line processRequestLine_split [OF sp] Let_def q
    by (simp add: new_context_def new_request_def sent_request_def)
qed

lemma spec_parse_headers:
  assumes "parseState c = kExpectHeaders" and "\<forall>h \<in> set hs. header_ok h"
  shows "spec_parse c (concat (map render_header hs) @ crlf @ rest) ok =
    spec_parse ((with_headers hs c)\<lparr>parseState :=
        (if req_method (ctx_request c) = POST then kExpectBody else kGotAll)\<rparr>) rest ok"
  using assms
proof (induction hs arbitrary: c)
  case Nil
  have "spec_iter c (CR # LF # rest) ok = Inr (ok, True, c\<lparr>parseState :=
      (if req_method (ctx_request c) = POST then kExpectBody else kGotAll)\<rparr>, rest)"
    using Nil(1) by (simp add: spec_iter_def Let_def find_char_def)
  then show ?case by (simp add: spec_parse_more with_headers_def)
next
  case (Cons h hs)
  obtain k v where h: "h = (k, v)" by (cases h)
  have ok: "CHR '':'' \<notin> set k" "CR \<notin> set (k @ '': '' @ v)" "no_space_ends v"
    using Cons.prems(2) by (auto simp: h header_ok_def)
  let ?line = "k @ '': '' @ v" and ?rest = "concat (map render_header hs) @ crlf @ rest"
  let ?c = "c\<lparr>ctx_request := addHeader ?line (length k) (ctx_request c)\<rparr>"
  have input: "concat (map render_header (h # hs)) @ crlf @ rest = ?line @ CR # LF # ?rest"
    by (simp add: h render_header_def)
  have found: "search_crlf (?line @ CR # LF # ?rest) = Some (length ?line)"
    using ok(2) by (intro search_crlf_line search_crlf_None)
  have colon: "find_char (CHR '':'') ?line = length k"
    using ok(1) by simp
  have "spec_iter c (?line @ CR # LF # ?rest) ok = Inr (ok, True, ?c, ?rest)"
    unfolding spec_iter_def Cons.prems(1) parse_state.case found option.case Let_def take_line
      drop_line_end colon
    by simp
  then have "spec_parse c (?line @ CR # LF # ?rest) ok = spec_parse ?c ?rest ok"
    by (rule spec_parse_more)
  also have "?c = with_headers [h] c"
    using addHeader_line [OF ok(3), of "'' ''" k "ctx_request c"]
    by (simp add: with_headers_def h isspace_def)
  finally show ?case
    unfolding input using Cons.IH [of "with_headers [h] c"] Cons.prems
    by (simp add: with_headers_def)
qed

lemma spec_parse_request:
  assumes "line_ok m path query" and "\<forall>h \<in> set hs. header_ok h"
  shows "spec_parse new_context (render_request m path query v11 hs @ rest) True =
    spec_parse \<lparr>ctx_request = sent_request m path query v11 hs [],
      parseState = (if method_of m = POST then kExpectBody else kGotAll)\<rparr> rest True"
proof -
  let ?line = "m @ '' '' @ path @ query @ (if v11 then '' HTTP/1.1'' else '' HTTP/1.0'')"
  let ?hdr = "concat (map render_header hs) @ crlf @ rest"
  let ?c = "\<lparr>ctx_request = sent_request m path query v11 [] [], parseState = kExpectHeaders\<rparr>"
  have input: "render_request m path query v11 hs @ rest = ?line @ CR # LF # ?hdr"
    by (simp add: render_request_def)
  have "CR \<notin> set ?line"
    using assms(1) by (auto simp: line_ok_def)
  then have found: "search_crlf (?line @ CR # LF # ?hdr) = Some (length ?line)"
    by (intro search_crlf_line search_crlf_None)
  have st: "parseState new_context = kExpectRequestLine"
    by (simp add: new_context_def)
  have "spec_iter new_context (?line @ CR # LF # ?hdr) True = Inr (True, True, ?c, ?hdr)"
    unfolding spec_iter_def st parse_state.case found option.case Let_def take_line
      drop_line_end processRequestLine_rendered [OF assms(1)]
    by simp
  then have "spec_parse new_context (?line @ CR # LF # ?hdr) True = spec_parse ?c ?hdr True"
    by (rule spec_parse_more)
  then show ?thesis
    unfolding input using spec_parse_headers [of ?c hs rest True] assms(2)
    by (simp add: with_headers_def sent_request_def)
qed

subsection \<open>Requests that arrive in pieces\<close>

text \<open>
  A context that may still see more bytes of a request without body: \<open>w\<close> is everything not
  yet parsed, the bytes still to arrive included.
\<close>

definition mid_request :: "http_context \<Rightarrow> string \<Rightarrow> bool" where
  "mid_request c w \<longleftrightarrow>
     (parseState c = kExpectHeaders \<and> req_method (ctx_request c) \<noteq> POST) \<or>
     (c = new_context \<and> (\<exists>m path query v11 hs. line_ok m path query \<and> method_of m \<noteq> POST \<and>
        w = render_request m path query v11 hs))"

lemma spec_iter_headers:
  assumes "parseState c = kExpectHeaders" and "req_method (ctx_request c) \<noteq> POST"
  shows "\<exists>again c1 s1. spec_iter c s ok = Inr (ok, again, c1, s1) \<and>
    (parseState c1 = kExpectHeaders \<or> parseState c1 = kGotAll) \<and>
    req_method (ctx_request c1) = req_method (ctx_request c)"
  using assms by (cases "search_crlf s") (auto simp: spec_iter_def Let_def addHeader_def)

lemma spec_parse_header_part:
  "parseState c = kExpectHeaders \<or> parseState c = kGotAll \<Longrightarrow> req_method (ctx_request c) \<noteq> POST \<Longrightarrow>
    \<exists>c1 s1. spec_parse c s ok = Inr (ok, c1, s1) \<and> req_method (ctx_request c1) \<noteq> POST \<and>
      (parseState c1 = kExpectHeaders \<or> parseState c1 = kGotAll)"
proof (induction c s ok rule: spec_parse.induct)
  case (1 c s ok)
  show ?case
  proof (cases "parseState c = kGotAll")
    case True
    with 1(3) show ?thesis by (simp add: spec_parse_gotAll)
  next
    case False
    with 1(2,3) obtain again c1 s1 where iter: "spec_iter c s ok = Inr (ok, again, c1, s1)"
      and c1: "parseState c1 = kExpectHeaders \<or> parseState c1 = kGotAll"
        "req_method (ctx_request c1) \<noteq> POST"
      using spec_iter_headers [of c s ok] by metis
    show ?thesis
    proof (cases again)
      case True
      with iter have "spec_parse c s ok = spec_parse c1 s1 ok"
        by (simp add: spec_parse_more)
      with 1(1) [OF iter refl refl refl True c1] show ?thesis by simp
    next
      case False
      with iter have "spec_parse c s ok = Inr (ok, c1, s1)"
        by (simp add: spec_parse_stop)
      with c1 show ?thesis by blast
    qed
  qed
qed

lemma spec_parse_line_part:
  assumes "line_ok m path query" and "render_request m path query v11 hs = s @ t"
  shows "spec_parse new_context s True = Inr (True, new_context, s) \<or>
    (\<exists>c1 s1. spec_parse new_context s True = spec_parse c1 s1 True \<and>
      parseState c1 = kExpectHeaders \<and> req_method (ctx_request c1) = method_of m)"
proof (cases "search_crlf s")
  case None
  then have "spec_iter new_context s True = Inr (True, False, new_context, s)"
    by (simp add: spec_iter_def new_context_def)
  then show ?thesis by (simp add: spec_parse_stop)
next
  case (Some i)
  let ?line = "m @ '' '' @ path @ query @ (if v11 then '' HTTP/1.1'' else '' HTTP/1.0'')"
  let ?c = "\<lparr>ctx_request = sent_request m path query v11 [] [], parseState = kExpectHeaders\<rparr>"
  have input: "s @ t = ?line @ CR # LF # concat (map render_header hs) @ crlf"
    using assms(2) by (simp add: render_request_def)
  have "CR \<notin> set ?line"
    using assms(1) by (auto simp: line_ok_def)
  then have "search_crlf (s @ t) = Some (length ?line)"
    unfolding input by (intro search_crlf_line search_crlf_None)
  then have i: "i = length ?line"
    using search_crlf_append [OF Some, of t] by simp
  have len: "i + 2 \<le> length s"
    using search_crlf_Some [OF Some] by simp
  have line: "take i s = ?line"
  proof -
    have "take i s = take i (s @ t)" using len by simp
    also have "\<dots> = ?line" unfolding input i by simp
    finally show ?thesis .
  qed
  have st: "parseState new_context = kExpectRequestLine"
    by (simp add: new_context_def)
  have "spec_iter new_context s True = Inr (True, True, ?c, drop (i + 2) s)"
    unfolding spec_iter_def st parse_state.case Some option.case Let_def line
      processRequestLine_rendered [OF assms(1)] by simp
  from spec_parse_more [OF this] show ?thesis
    by (intro disjI2 exI [of _ ?c] exI [of _ "drop (i + 2) s"]) (simp add: sent_request_def)
qed

lemma mid_request_piece:
  assumes "mid_request c (s @ t)" and "spec_parse c (s @ t) True = Inr (True, fin, [])" and "t \<noteq> []"
  shows "\<exists>c1 s1. spec_parse c s True = Inr (True, c1, s1) \<and> \<not> gotAll c1 \<and> mid_request c1 (s1 @ t) \<and>
    spec_parse c1 (s1 @ t) True = Inr (True, fin, [])"
proof -
  have "\<exists>c1 s1. spec_parse c s True = Inr (True, c1, s1) \<and>
      (parseState c1 = kGotAll \<or> mid_request c1 (s1 @ t)) \<and> req_method (ctx_request c1) \<noteq> POST"
  proof (cases "parseState c = kExpectHeaders \<and> req_method (ctx_request c) \<noteq> POST")
    case True
    then show ?thesis
      using spec_parse_header_part [of c s True] by (auto simp: mid_request_def)
  next
    case False
    with assms(1) obtain m path query v11 hs where line: "line_ok m path query" "method_of m \<noteq> POST"
        "s @ t = render_request m path query v11 hs" and c: "c = new_context"
      unfolding mid_request_def by blast
    have get: "req_method (ctx_request new_context) \<noteq> POST"
      by (simp add: new_context_def new_request_def)
    from assms(1) have new: "mid_request new_context (s @ t)" by (simp add: c)
    consider "spec_parse new_context s True = Inr (True, new_context, s)"
      | c1 s1 where "spec_parse new_context s True = spec_parse c1 s1 True"
        "parseState c1 = kExpectHeaders" "req_method (ctx_request c1) = method_of m"
      using spec_parse_line_part [OF line(1) line(3) [symmetric]] by blast
    then show ?thesis
    proof cases
      case 1
      with get new show ?thesis unfolding c by blast
    next
      case (2 c1 s1)
      with line(2) spec_parse_header_part [of c1 s1 True] show ?thesis
        unfolding c by (auto simp: mid_request_def)
    qed
  qed
  then obtain c1 s1 where part: "spec_parse c s True = Inr (True, c1, s1)"
      "parseState c1 = kGotAll \<or> mid_request c1 (s1 @ t)" "req_method (ctx_request c1) \<noteq> POST"
    by blast
  have "parseState c \<noteq> kExpectBody"
    using assms(1) by (auto simp: mid_request_def new_context_def)
  from spec_parse_chunks [OF part(1) TrueI this part(3), of t]
  have rest: "spec_parse c1 (s1 @ t) True = Inr (True, fin, [])"
    using assms(2) by simp
  with assms(3) have "parseState c1 \<noteq> kGotAll"
    by (auto simp: spec_parse_gotAll)
  with part rest show ?thesis by (auto simp: gotAll_def)
qed

subsection \<open>Bodies\<close>

lemma spec_body_id: "search_crlf s = None \<Longrightarrow> spec_body s = s"
  by (simp add: spec_body_def)

lemma spec_parse_body:
  assumes "parseState c = kExpectBody"
    and "stoi (getHeader ''Content-Length'' (ctx_request c)) = Inr n" and "n \<noteq> 0" and "s \<noteq> []"
  shows "spec_parse c s ok =
    (let r = appendBody (spec_body s) (ctx_request c)
     in Inr (ok, c\<lparr>ctx_request := r,
         parseState := (if bodyLength r = n then kGotAll else kExpectBody)\<rparr>, []))"
proof -
  let ?r = "appendBody (spec_body s) (ctx_request c)"
  have header: "getHeader f ?r = getHeader f (ctx_request c)" for f
    by (simp add: getHeader_def appendBody_def)
  show ?thesis
  proof (cases "bodyLength ?r = n")
    case True
    then have "spec_iter c s ok = Inr (ok, True, c\<lparr>ctx_request := ?r, parseState := kGotAll\<rparr>, [])"
      using assms by (simp add: spec_iter_def Let_def)
    then show ?thesis using True by (simp add: spec_parse_more spec_parse_gotAll Let_def)
  next
    case False
    then have "spec_iter c s ok = Inr (ok, True, c\<lparr>ctx_request := ?r\<rparr>, [])"
      using assms by (simp add: spec_iter_def Let_def)
    moreover have "spec_iter (c\<lparr>ctx_request := ?r\<rparr>) [] ok =
        Inr (ok, False, c\<lparr>ctx_request := ?r\<rparr>, [])"
      using assms(1-3) by (simp add: spec_iter_def header)
    moreover have "c\<lparr>ctx_request := ?r, parseState := kExpectBody\<rparr> = c\<lparr>ctx_request := ?r\<rparr>"
      using assms(1) by simp
    ultimately show ?thesis
      using False by (simp add: spec_parse_more spec_parse_stop Let_def)
  qed
qed

lemma spec_parse_empty_body:
  assumes "parseState c = kExpectBody"
    and "stoi (getHeader ''Content-Length'' (ctx_request c)) = Inr 0"
  shows "spec_parse c s ok = Inr (ok, c\<lparr>parseState := kGotAll\<rparr>, s)"
proof -
  have "spec_iter c s ok = Inr (ok, True, c\<lparr>parseState := kGotAll\<rparr>, s)"
    using assms by (simp add: spec_iter_def)
  then show ?thesis by (simp add: spec_parse_more spec_parse_gotAll)
qed

lemma spec_parse_bad_length:
  assumes "parseState c = kExpectBody"
    and "stoi (getHeader ''Content-Length'' (ctx_request c)) = Inl e"
  shows "spec_parse c s ok = Inl e"
  using assms by (intro spec_parse_fault) (simp add: spec_iter_def)

lemma getHeader_sent:
  "getHeader f (sent_request m path query v11 hs body) =
    (case map_of (rev hs) f of None \<Rightarrow> [] | Some v \<Rightarrow> v)"
  using smap.fold_assign [of "[]" hs] by (simp add: getHeader_def sent_request_def)

subsection \<open>The buffer during a parse\<close>

lemma retrieveLen_frame:
  "retrieveLen n b = Inr (s, b') \<Longrightarrow> buf_ok b \<Longrightarrow>
    buf_data b' = buf_data b \<and> writeIndex b' \<le> writeIndex b"
  by (auto simp: retrieveLen_def Let_def res_simps addReadIndex_def buf_reset_def buf_ok_def
    split: if_splits)

lemma parse_iter_frame:
  assumes "parse_iter c b ok = Inr (ok', again, c', b')" and "buf_ok b"
  shows "buf_data b' = buf_data b \<and> writeIndex b' \<le> writeIndex b \<and> buf_ok b'"
proof -
  have "buf_ok b'"
    using parse_iter_refines [OF assms(2), of c ok] assms(1)
    by (auto simp: refines_def split: sum.splits)
  moreover have "buf_data b' = buf_data b \<and> writeIndex b' \<le> writeIndex b"
  proof (cases "parseState c = kExpectBody")
    case False
    with assms show ?thesis
      by (auto simp: parse_iter_def parse_line_branch_def parse_header_branch_def res_simps
        Let_def case_prod_beta split: parse_state.splits option.splits if_splits
        dest: retrieveLen_frame)
  next
    case True
    consider "b' = b" | b1 p s where "drop_line p b = Inr b1" "p = map_option (\<lambda>i. readIndex b + int i)
        (search_crlf (contents b))" "retrieveAll b1 = Inr (s, b')"
      using assms True
      by (auto simp: parse_iter_def parse_body_branch_def res_simps findCRLF_ok Let_def
        split: if_splits)
    then show ?thesis
    proof cases
      case 2
      then have "buf_ok b1" using drop_line_ok [OF assms(2)] by auto
      with 2 assms(2) show ?thesis
        by (auto simp: drop_line_def retrieveAll_def res_simps split: option.splits
          dest!: retrieveLen_frame)
    qed simp
  qed
  ultimately show ?thesis by simp
qed

lemma parse_loop_frame:
  "parse_loop c b ok = Inr (ok', c', b') \<Longrightarrow> buf_ok b \<Longrightarrow>
    buf_data b' = buf_data b \<and> writeIndex b' \<le> writeIndex b \<and> buf_ok b'"
proof (induction c b ok rule: parse_loop.induct)
  case (1 c b ok)
  obtain ok1 again c1 b1 where iter: "parse_iter c b ok = Inr (ok1, again, c1, b1)"
    using 1(2) by (cases "parse_iter c b ok") (auto simp: parse_loop.simps [of c b ok])
  note frame = parse_iter_frame [OF iter 1(3)]
  show ?case
  proof (cases again)
    case True
    with 1(2) iter have "parse_loop c1 b1 ok1 = Inr (ok', c', b')"
      by (simp add: parse_loop.simps [of c b ok])
    with 1(1) [OF iter refl refl refl True] frame show ?thesis by auto
  next
    case False
    with 1(2) iter frame show ?thesis by (simp add: parse_loop.simps [of c b ok])
  qed
qed

lemma parse_iter_rest:
  assumes "parse_iter c b ok = Inr (ok', again, c', b')" and "buf_rest b"
  shows "buf_rest b'"
proof (cases "parseState c")
  case kExpectRequestLine
  with assms show ?thesis
    by (auto simp: parse_iter_def parse_line_branch_def res_simps case_prod_beta
      split: option.splits if_splits dest: retrieveLen_rest)
next
  case kExpectHeaders
  with assms show ?thesis
    by (auto simp: parse_iter_def parse_header_branch_def res_simps Let_def
      split: option.splits dest: retrieveLen_rest)
next
  case kExpectBody
  with assms show ?thesis
    by (auto simp: parse_iter_def parse_body_branch_def res_simps Let_def retrieveAll_def
      split: if_splits dest: retrieveLen_rest)
next
  case kGotAll
  with assms show ?thesis by (simp add: parse_iter_def)
qed

lemma parse_loop_rest:
  "parse_loop c b ok = Inr (ok', c', b') \<Longrightarrow> buf_rest b \<Longrightarrow> buf_rest b'"
proof (induction c b ok rule: parse_loop.induct)
  case (1 c b ok)
  obtain ok1 again c1 b1 where iter: "parse_iter c b ok = Inr (ok1, again, c1, b1)"
    using 1(2) by (cases "parse_iter c b ok") (auto simp: parse_loop.simps [of c b ok])
  note rest = parse_iter_rest [OF iter 1(3)]
  show ?case
  proof (cases again)
    case True
    with 1(2) have "parse_loop c1 b1 ok1 = Inr (ok', c', b')"
      by (simp add: parse_loop.simps [of c b ok] iter)
    with 1(1) [OF iter _ _ _] True rest show ?thesis by simp
  next
    case False
    with 1(2) rest show ?thesis by (simp add: parse_loop.simps [of c b ok] iter)
  qed
qed

subsection \<open>Properties of \<open>parseRequest\<close>\<close>

definition unread :: "(bool \<times> http_context \<times> buffer) result \<Rightarrow> (bool \<times> http_context \<times> string) result" where
  "unread = res_map (\<lambda>(ok, c, b). (ok, c, contents b))"

lemma unread_parseRequest: "buf_ok b \<Longrightarrow> unread (parseRequest c b) = spec_parse c (contents b) True"
  using parse_loop_refines [of b c True]
  by (auto simp: unread_def parseRequest_def split: sum.splits)

lemma unread_Inr:
  "unread m = Inr (ok, c, s) \<longleftrightarrow> (\<exists>b. m = Inr (ok, c, b) \<and> contents b = s)"
  by (auto simp: unread_def res_simps)

lemma unread_Inl: "unread m = Inl e \<longleftrightarrow> m = Inl e"
  by (simp add: unread_def res_simps)

text \<open>
  C3: refinement of the parser. On a buffer whose indices are in order, \<open>parseRequest\<close>
  returns exactly what the abstract parser returns on the list of unread bytes: the same
  verdict, the same context and the same remaining bytes, or the same exception. It leaves
  the indices in order, never moves the write index forward and never writes the storage.
\<close>

theorem parseRequest_refines:
  assumes "buf_ok b"
  shows "unread (parseRequest c b) = spec_parse c (contents b) True \<and>
    (case parseRequest c b of
       Inl _ \<Rightarrow> True
     | Inr (ok, c', b') \<Rightarrow> buf_ok b' \<and> buf_data b' = buf_data b \<and> writeIndex b' \<le> writeIndex b)"
proof (cases "parseRequest c b")
  case (Inl e)
  then show ?thesis by (simp flip: unread_parseRequest [OF assms])
next
  case (Inr t)
  obtain ok c' b' where t: "t = (ok, c', b')" by (cases t)
  have "buf_data b' = buf_data b \<and> writeIndex b' \<le> writeIndex b \<and> buf_ok b'"
    using Inr t assms by (intro parse_loop_frame [of c b True ok c']) (simp_all add: parseRequest_def)
  with Inr t show ?thesis by (simp flip: unread_parseRequest [OF assms])
qed

theorem parseRequest_refines_witness:
  "unread (parseRequest new_context (buf_new 16)) = spec_parse new_context [] True"
  using parseRequest_refines [of "buf_new 16" new_context] by simp

text \<open>
  C26: independence of fragmentation. Parse what has arrived, let more bytes arrive, and
  parse again: as long as the request is not a POST, the result is the one of a single
  parse of all the bytes. So the way the network cuts a request into reads is invisible.
\<close>

theorem parseRequest_fragmentation:
  assumes "buf_ok b" and "parseState c \<noteq> kExpectBody"
    and "parseRequest c b = Inr (ok1, c1, b1)" and "req_method (ctx_request c1) \<noteq> POST"
    and "buf_ok b2" and "contents b2 = contents b1 @ t"
    and "buf_ok b12" and "contents b12 = contents b @ t"
  shows "unread (parseRequest c1 b2) = unread (parseRequest c b12)"
proof -
  have "unread (parseRequest c b) = Inr (ok1, c1, contents b1)"
    using assms(3) by (simp add: unread_def)
  then have "spec_parse c (contents b) True = Inr (ok1, c1, contents b1)"
    by (simp add: unread_parseRequest [OF assms(1)])
  from spec_parse_chunks [OF this TrueI assms(2,4), of t] show ?thesis
    by (simp add: unread_parseRequest assms)
qed

theorem parseRequest_fragmentation_witness:
  "\<exists>b1. parseRequest new_context (buf_of ''GE'') = Inr (True, new_context, b1) \<and>
    unread (parseRequest new_context (buf_of ''GET /'')) =
      unread (parseRequest new_context (buf_of ''GET /''))"
proof -
  have start: "parseState new_context = kExpectRequestLine" "req_method (ctx_request new_context) = GET"
    by (simp_all add: new_context_def new_request_def)
  then have "spec_parse new_context ''GE'' True = Inr (True, new_context, ''GE'')"
    by (intro spec_parse_stop) (simp add: spec_iter_def)
  then obtain b1 where b1: "parseRequest new_context (buf_of ''GE'') = Inr (True, new_context, b1)"
      "contents b1 = ''GE''"
    using unread_parseRequest [of "buf_of ''GE''" new_context] by (auto simp: unread_Inr)
  have "unread (parseRequest new_context (buf_of ''GET /'')) =
      unread (parseRequest new_context (buf_of ''GET /''))"
    by (rule parseRequest_fragmentation [OF _ _ b1(1), where t = "''T /''"])
      (simp_all add: b1 start)
  with b1 show ?thesis by blast
qed


lemma line_ok_example: "line_ok ''GET'' ''/5'' ''?a=b''"
  by (simp add: line_ok_def)

lemma header_ok_example: "header_ok (''Host'', ''x'')"
  by (simp add: header_ok_def no_space_ends_def isspace_def)


text \<open>
  C27: round trip of a POST. With a Content-Length header that prints the length of the body,
  and a body without the two bytes CR LF in sequence that ends the buffered data, the parse
  completes with that body and nothing stays unread.
\<close>

theorem parseRequest_post:
  assumes "line_ok ''POST'' path query" and "\<forall>h \<in> set hs. header_ok h"
    and "map_of (rev hs) ''Content-Length'' = Some (dec_nat (length body))"
    and "int (length body) \<le> int_max" and "search_crlf body = None"
    and "buf_ok b" and "contents b = render_request ''POST'' path query v11 hs @ body"
  shows "\<exists>b'. parseRequest new_context b =
      Inr (True, \<lparr>ctx_request = sent_request ''POST'' path query v11 hs body,
        parseState = kGotAll\<rparr>, b') \<and> contents b' = []"
proof -
  let ?r = "sent_request ''POST'' path query v11 hs"
  let ?c = "\<lparr>ctx_request = ?r [], parseState = kExpectBody\<rparr>"
  have len: "stoi (getHeader ''Content-Length'' (?r [])) = Inr (int (length body))"
    using assms(3,4) by (simp add: getHeader_sent stoi_dec_nat)
  have "unread (parseRequest new_context b) = spec_parse ?c body True"
    using unread_parseRequest [OF assms(6), of new_context]
      spec_parse_request [OF assms(1,2), of v11 body] assms(7)
    by (simp add: method_of_def)
  also have "\<dots> = Inr (True, \<lparr>ctx_request = ?r body, parseState = kGotAll\<rparr>, [])"
  proof (cases "body = []")
    case True
    with len show ?thesis by (simp add: spec_parse_empty_body)
  next
    case False
    with len assms(5) show ?thesis
      by (subst spec_parse_body [where n = "int (length body)"])
        (simp_all add: spec_body_id appendBody_def bodyLength_def sent_request_def Let_def)
  qed
  finally show ?thesis by (simp add: unread_Inr)
qed

lemma line_ok_post: "line_ok ''POST'' ''/2'' []"
  by (simp add: line_ok_def)

lemma header_ok_length: "header_ok (''Content-Length'', ''3'')"
  by (simp add: header_ok_def no_space_ends_def isspace_def)

lemma dec_nat_3: "dec_nat (Suc (Suc (Suc 0))) = ''3''"
  by code_simp

theorem parseRequest_post_witness:
  "\<exists>b'. parseRequest new_context
        (buf_of (render_request ''POST'' ''/2'' [] True [(''Content-Length'', ''3'')] @ ''a=b'')) =
      Inr (True, \<lparr>ctx_request = sent_request ''POST'' ''/2'' [] True [(''Content-Length'', ''3'')] ''a=b'',
        parseState = kGotAll\<rparr>, b') \<and> contents b' = []"
  by (rule parseRequest_post) (simp_all add: line_ok_post header_ok_length dec_nat_3)

text \<open>
  A POST whose headers do not name a Content-Length makes the parser throw: \<open>stoi\<close> of
  the empty string is \<open>std::invalid_argument\<close>, which no caller catches.
\<close>

lemma parseRequest_post_no_length:
  assumes "line_ok ''POST'' path query" and "\<forall>h \<in> set hs. header_ok h"
    and "map_of (rev hs) ''Content-Length'' = None"
    and "buf_ok b" and "contents b = render_request ''POST'' path query v11 hs @ rest"
  shows "parseRequest new_context b = Inl Invalid_Argument"
proof -
  have "stoi (getHeader ''Content-Length'' (sent_request ''POST'' path query v11 hs [])) =
      Inl Invalid_Argument"
    using assms(3) by (simp add: getHeader_sent stoi_empty)
  then have "unread (parseRequest new_context b) = Inl Invalid_Argument"
    using unread_parseRequest [OF assms(4), of new_context]
      spec_parse_request [OF assms(1,2), of v11 rest] assms(5)
    by (simp add: method_of_def spec_parse_bad_length)
  then show ?thesis by (simp add: unread_Inl)
qed

text \<open>
  A body that contains CR LF is damaged. The parser drops everything up to and including
  the first CR LF of what it has buffered, so the body it keeps is shorter than announced
  and the request is not complete although every byte of it has arrived.
\<close>

lemma parseRequest_post_crlf_body:
  assumes "line_ok ''POST'' path query" and "\<forall>h \<in> set hs. header_ok h"
    and "map_of (rev hs) ''Content-Length'' = Some (dec_nat (length body))"
    and "int (length body) \<le> int_max" and "search_crlf body = Some i"
    and "buf_ok b" and "contents b = render_request ''POST'' path query v11 hs @ body"
  shows "\<exists>b'. parseRequest new_context b =
      Inr (True, \<lparr>ctx_request = sent_request ''POST'' path query v11 hs (drop (i + 2) body),
        parseState = kExpectBody\<rparr>, b') \<and> contents b' = []"
proof -
  let ?r = "sent_request ''POST'' path query v11 hs"
  let ?c = "\<lparr>ctx_request = ?r [], parseState = kExpectBody\<rparr>"
  have i: "i + 2 \<le> length body" "body \<noteq> []"
    using search_crlf_Some [OF assms(5)] by auto
  have len: "stoi (getHeader ''Content-Length'' (?r [])) = Inr (int (length body))"
    using assms(3,4) by (simp add: getHeader_sent stoi_dec_nat)
  have "unread (parseRequest new_context b) = spec_parse ?c body True"
    using unread_parseRequest [OF assms(6), of new_context]
      spec_parse_request [OF assms(1,2), of v11 body] assms(7)
    by (simp add: method_of_def)
  also have "\<dots> = Inr (True, \<lparr>ctx_request = ?r (drop (i + 2) body), parseState = kExpectBody\<rparr>, [])"
    using len i assms(5)
    by (subst spec_parse_body [where n = "int (length body)"])
      (auto simp: spec_body_def appendBody_def bodyLength_def sent_request_def Let_def)
  finally show ?thesis by (simp add: unread_Inr)
qed

lemma parseRequest_post_crlf_body_witness:
  "\<exists>b'. parseRequest new_context
        (buf_of (render_request ''POST'' ''/2'' [] True [(''Content-Length'', ''3'')] @ [CR, LF, CHR ''x''])) =
      Inr (True, \<lparr>ctx_request = sent_request ''POST'' ''/2'' [] True [(''Content-Length'', ''3'')] (drop (0 + 2) [CR, LF, CHR ''x'']),
        parseState = kExpectBody\<rparr>, b') \<and> contents b' = []"
  by (rule parseRequest_post_crlf_body)
    (simp_all add: line_ok_post header_ok_length dec_nat_3)

end
