(* ===== verification/HttpResponse.thy ===== *)
theory HttpResponse
  imports StdMap Buffer
begin

text \<open>
  \<open>http/HttpResponse.h\<close> and \<open>http/HttpResponse.cc\<close>: the response object and its
  serialisation into a buffer. The serialiser is a client of the byte queue contract: the
  written text follows from the locale's lemma on sequences of appends.
\<close>

datatype status_code =
  kUnknownStatus | k200Ok | k301MovedPermanently | k400BadRequest | k404NotFound

fun status_value :: "status_code \<Rightarrow> int" where
  "status_value kUnknownStatus = 0"
| "status_value k200Ok = 200"
| "status_value k301MovedPermanently = 301"
| "status_value k400BadRequest = 400"
| "status_value k404NotFound = 404"

record http_response =
  resp_headers :: "(string, string) smap"
  statusCode :: status_code
  statusMessage :: string
  closeConnection :: bool
  resp_body :: string

definition new_response :: "bool \<Rightarrow> http_response" where
  "new_response close = \<lparr>resp_headers = [], statusCode = kUnknownStatus, statusMessage = [],
     closeConnection = close, resp_body = []\<rparr>"

definition setStatusCode :: "status_code \<Rightarrow> http_response \<Rightarrow> http_response" where
  "setStatusCode code r = r\<lparr>statusCode := code\<rparr>"

definition setStatusMessage :: "string \<Rightarrow> http_response \<Rightarrow> http_response" where
  "setStatusMessage msg r = r\<lparr>statusMessage := msg\<rparr>"

definition setCloseConnection :: "bool \<Rightarrow> http_response \<Rightarrow> http_response" where
  "setCloseConnection on r = r\<lparr>closeConnection := on\<rparr>"

definition addRespHeader :: "string \<Rightarrow> string \<Rightarrow> http_response \<Rightarrow> http_response" where
  "addRespHeader key val r = r\<lparr>resp_headers := smap_assign key val (resp_headers r)\<rparr>"

definition setContentType :: "string \<Rightarrow> http_response \<Rightarrow> http_response" where
  "setContentType t r = addRespHeader ''Content-Type'' t r"

definition setBody :: "string \<Rightarrow> http_response \<Rightarrow> http_response" where
  "setBody body r = r\<lparr>resp_body := body\<rparr>"

text \<open>The texts that \<open>appendToBuffer\<close> appends, in order.\<close>

definition response_parts :: "http_response \<Rightarrow> string list" where
  "response_parts r =
     [snprintf 32 (''HTTP/1.1 '' @ dec_int (status_value (statusCode r)) @ '' ''),
      statusMessage r, crlf] @
     (if closeConnection r then [''Connection: close'' @ crlf]
      else [snprintf 32 (''Content-Length: '' @ dec_nat (length (resp_body r)) @ crlf),
            ''Connection: Keep-Alive'' @ crlf]) @
     concat (map (\<lambda>(key, val). [key, '': '', val, crlf]) (resp_headers r)) @
     [crlf, resp_body r]"

definition appendToBuffer :: "http_response \<Rightarrow> buffer \<Rightarrow> buffer result" where
  "appendToBuffer r b = foldl (\<lambda>m s. res_bind m (buf_append s)) (Inr b) (response_parts r)"

subsection \<open>The text of a response\<close>

definition status_line :: "http_response \<Rightarrow> string" where
  "status_line r = ''HTTP/1.1 '' @ dec_int (status_value (statusCode r)) @ '' '' @ statusMessage r"

definition head_lines :: "http_response \<Rightarrow> string list" where
  "head_lines r = status_line r #
     (if closeConnection r then [''Connection: close'']
      else [''Content-Length: '' @ dec_nat (length (resp_body r)), ''Connection: Keep-Alive'']) @
     map (\<lambda>(key, val). key @ '': '' @ val) (resp_headers r)"

text \<open>A body of fewer than \<open>10 ^ 13\<close> bytes: its length and the header text fit the 32 bytes.\<close>

lemma snprintf_status: "snprintf 32 (''HTTP/1.1 '' @ dec_int (status_value c) @ '' '') =
    ''HTTP/1.1 '' @ dec_int (status_value c) @ '' ''"
proof -
  have "nat (status_value c) < 10 ^ 3" by (cases c) simp_all
  then have "length (dec_nat (nat (status_value c))) \<le> 3"
    by (intro length_dec_nat) simp
  moreover have "0 \<le> status_value c" by (cases c) simp_all
  ultimately show ?thesis by (intro snprintf_fits) (simp add: dec_int_def)
qed

lemma snprintf_length:
  assumes "n < 10 ^ 13"
  shows "snprintf 32 (''Content-Length: '' @ dec_nat n @ crlf) = ''Content-Length: '' @ dec_nat n @ crlf"
  using length_dec_nat [of 13 n] assms by (intro snprintf_fits) simp

lemma concat_header_parts:
  "concat (concat (map (\<lambda>(key, val). [key, '': '', val, crlf]) hs)) =
    concat (map (\<lambda>l. l @ crlf) (map (\<lambda>(key, val). key @ '': '' @ val) hs))"
  by (induction hs) auto

lemma response_text:
  assumes "length (resp_body r) < 10 ^ 13"
  shows "concat (response_parts r) = concat (map (\<lambda>l. l @ crlf) (head_lines r)) @ crlf @ resp_body r"
  unfolding response_parts_def head_lines_def
  by (simp add: concat_header_parts snprintf_length [OF assms, simplified]
      snprintf_status [simplified] status_line_def)

lemma appendToBuffer_text:
  assumes "buf_ok b" and "buf_room b (length (concat (response_parts r)))"
  shows "\<exists>b'. appendToBuffer r b = Inr b' \<and> buf_ok b' \<and>
    contents b' = contents b @ concat (response_parts r)"
  using bufq.adds_ok [OF assms(1), of "response_parts r" 0] assms(2)
  by (auto simp: appendToBuffer_def)

subsection \<open>Reading a response head\<close>

text \<open>What a client does: lines up to the first empty one, then the body.\<close>

function read_head :: "string \<Rightarrow> (string list \<times> string) option" where
  "read_head s =
     (case search_crlf s of
        None \<Rightarrow> None
      | Some i \<Rightarrow>
          if i = 0 then Some ([], drop 2 s)
          else map_option (\<lambda>(ls, rest). (take i s # ls, rest)) (read_head (drop (i + 2) s)))"
  by pat_completeness auto
termination
  by (relation "measure length") (auto dest: search_crlf_Some)

declare read_head.simps [simp del]

lemma read_head_lines:
  assumes "\<forall>l \<in> set ls. l \<noteq> [] \<and> CR \<notin> set l"
  shows "read_head (concat (map (\<lambda>l. l @ crlf) ls) @ crlf @ body) = Some (ls, body)"
  using assms
proof (induction ls)
  case Nil
  show ?case by (simp add: read_head.simps)
next
  case (Cons l ls)
  let ?rest = "concat (map (\<lambda>l. l @ crlf) ls) @ crlf @ body"
  have input: "concat (map (\<lambda>l. l @ crlf) (l # ls)) @ crlf @ body = l @ CR # LF # ?rest"
    by simp
  have found: "search_crlf (l @ CR # LF # ?rest) = Some (length l)"
    using Cons.prems by (intro search_crlf_line search_crlf_None) simp
  have parts: "take (length l) (l @ CR # LF # ?rest) = l"
      "drop (length l + 2) (l @ CR # LF # ?rest) = ?rest"
    by (simp_all add: drop_append)
  have "length l \<noteq> 0" using Cons.prems by simp
  then show ?case
    unfolding input using Cons by (subst read_head.simps) (simp only: found parts option.case if_False, simp)
qed

lemma CR_dec_nat: "CR \<notin> set (dec_nat n)"
  by (auto simp: isdigit_def dest!: set_dec_nat)

lemma CR_dec_int: "CR \<notin> set (dec_int i)"
  by (simp add: dec_int_def CR_dec_nat)

definition response_clean :: "http_response \<Rightarrow> bool" where
  "response_clean r \<longleftrightarrow> CR \<notin> set (statusMessage r) \<and>
     (\<forall>(key, val) \<in> set (resp_headers r). CR \<notin> set key \<and> CR \<notin> set val)"

lemma head_lines_clean: "response_clean r \<Longrightarrow> \<forall>l \<in> set (head_lines r). l \<noteq> [] \<and> CR \<notin> set l"
  by (auto simp: head_lines_def response_clean_def status_line_def CR_dec_int CR_dec_nat)

subsection \<open>Properties of \<open>appendToBuffer\<close>\<close>

text \<open>
  C28: framing of a response. Into an empty buffer with room, \<open>appendToBuffer\<close> writes a text
  that a line-oriented client splits back into exactly the status line, the connection
  headers, the response headers in key order, and the body. On a kept-alive connection the
  Content-Length line holds the exact length of that body. Status message and headers must
  be free of carriage returns.
\<close>

theorem appendToBuffer_framing:
  assumes "buf_ok b" and "contents b = []" and "buf_room b (length (concat (response_parts r)))"
    and "response_clean r" and "int (length (resp_body r)) \<le> int_max"
  shows "\<exists>b'. appendToBuffer r b = Inr b' \<and> buf_ok b' \<and>
    read_head (contents b') = Some (head_lines r, resp_body r) \<and>
    (\<not> closeConnection r \<longrightarrow>
      stoi (drop (length ''Content-Length: '') (head_lines r ! 1)) = Inr (int (length (resp_body r))))"
proof -
  have "length (resp_body r) < 10 ^ 13" using assms(5) by simp
  note lines = response_text [OF this]
  obtain b' where b': "appendToBuffer r b = Inr b'" "buf_ok b'"
      "contents b' = concat (response_parts r)"
    using appendToBuffer_text [OF assms(1,3)] assms(2) by auto
  moreover have "read_head (concat (response_parts r)) = Some (head_lines r, resp_body r)"
    unfolding lines by (rule read_head_lines [OF head_lines_clean [OF assms(4)]])
  ultimately show ?thesis
    using assms(5) by (simp add: head_lines_def stoi_dec_nat)
qed

theorem appendToBuffer_framing_witness:
  "\<exists>b'. appendToBuffer (setBody ''hi'' (new_response False)) (buf_new 1024) = Inr b' \<and>
    read_head (contents b') =
      Some ([''HTTP/1.1 0 '', ''Content-Length: 2'', ''Connection: Keep-Alive''], ''hi'')"
proof -
  let ?r = "setBody ''hi'' (new_response False)"
  have "head_lines ?r = [''HTTP/1.1 0 '', ''Content-Length: 2'', ''Connection: Keep-Alive'']"
      and "length (concat (response_parts ?r)) = 60"
    by code_simp+
  moreover have "resp_body ?r = ''hi''" "response_clean ?r"
    by (simp_all add: setBody_def new_response_def response_clean_def)
  moreover have "buf_room (buf_new 1024) 60"
    by (simp add: buf_room_def buf_new_def buf_size_def)
  ultimately show ?thesis
    using appendToBuffer_framing [of "buf_new 1024" ?r] by auto
qed

end
