(* ===== verification/SqlPool.thy ===== *)
theory SqlPool
  imports Prelude "HOL-Library.Multiset"
begin

text \<open>
  \<open>http/sql_connection_pool.h\<close> and \<open>http/sql_connection_pool.cc\<close>: the pool of MySQL
  connections. A \<open>MYSQL*\<close> is a number. What \<open>mysql_init\<close> and \<open>mysql_real_connect\<close>
  return for each attempt is an argument.

  The second half lets many threads use the pool. \<open>GetConnection\<close> has two atomic parts, the
  check of \<open>connList.size()\<close> outside the mutex and the rest inside; a thread in between is
  recorded in \<open>entered\<close>, and one that waits for the condition stays there.
\<close>

record sql_pool =
  m_MaxConn :: int
  m_CurConn :: int
  m_FreeConn :: int
  connList :: "nat list"
  reserve :: bool            \<comment> \<open>the condition has been created\<close>
  m_url :: string
  m_Port :: string
  m_User :: string
  m_PassWord :: string
  m_DatabaseName :: string
  m_close_log :: int
  sql_closed :: "nat list"   \<comment> \<open>connections given to \<open>mysql_close\<close>\<close>

text \<open>\<open>m_MaxConn\<close> is not initialised by the constructor; \<open>init\<close> sets it.\<close>

definition new_pool :: "int \<Rightarrow> sql_pool" where
  "new_pool any = \<lparr>m_MaxConn = any, m_CurConn = 0, m_FreeConn = 0, connList = [], reserve = False,
     m_url = [], m_Port = [], m_User = [], m_PassWord = [], m_DatabaseName = [], m_close_log = 0,
     sql_closed = []\<rparr>"

fun pool_connect :: "(nat \<Rightarrow> nat option) \<Rightarrow> nat \<Rightarrow> nat \<Rightarrow> sql_pool \<Rightarrow> sql_pool result" where
  "pool_connect conn i 0 p = Inr p"
| "pool_connect conn i (Suc n) p =
     (case conn i of
        None \<Rightarrow> Inl (Exit 1)
      | Some c \<Rightarrow> pool_connect conn (Suc i) n
          (p\<lparr>connList := connList p @ [c], m_FreeConn := m_FreeConn p + 1\<rparr>))"

text \<open>\<open>m_Port = Port\<close> assigns an \<open>int\<close> to a string, which keeps one character.\<close>

definition pool_init ::
    "(nat \<Rightarrow> nat option) \<Rightarrow> string \<Rightarrow> string \<Rightarrow> string \<Rightarrow> string \<Rightarrow> int \<Rightarrow> int \<Rightarrow> int \<Rightarrow>
      sql_pool \<Rightarrow> sql_pool result" where
  "pool_init conn url user password dbName port maxConn close_log p =
     res_bind (pool_connect conn 0 (nat maxConn)
         (p\<lparr>m_url := url, m_Port := [char_of (nat (port mod 256))], m_User := user,
           m_PassWord := password, m_DatabaseName := dbName, m_close_log := close_log\<rparr>))
       (\<lambda>p1. Inr (p1\<lparr>reserve := True, m_MaxConn := m_FreeConn p1\<rparr>))"

text \<open>The part of \<open>GetConnection\<close> inside the mutex, once a connection is free.\<close>

definition pool_take :: "sql_pool \<Rightarrow> (nat \<times> sql_pool) result" where
  "pool_take p =
     (case connList p of
        [] \<Rightarrow> Inl Bad_Range
      | c # cs \<Rightarrow> Inr (c, p\<lparr>connList := cs, m_FreeConn := m_FreeConn p - 1,
          m_CurConn := m_CurConn p + 1\<rparr>))"

definition GetConnection :: "sql_pool \<Rightarrow> (nat option \<times> sql_pool) result" where
  "GetConnection p =
     (if connList p = [] then Inr (None, p)
      else if m_FreeConn p = 0 then Inl Diverges
      else res_map (\<lambda>(c, p'). (Some c, p')) (pool_take p))"

text \<open>The part of \<open>ReleaseConnection\<close> inside the mutex.\<close>

definition pool_put :: "nat \<Rightarrow> sql_pool \<Rightarrow> sql_pool" where
  [simp]: "pool_put c p = p\<lparr>connList := connList p @ [c], m_FreeConn := m_FreeConn p + 1,
     m_CurConn := m_CurConn p - 1\<rparr>"

definition ReleaseConnection :: "nat option \<Rightarrow> sql_pool \<Rightarrow> (bool \<times> sql_pool) result" where
  "ReleaseConnection con p =
     (case con of
        None \<Rightarrow> Inr (False, p)
      | Some c \<Rightarrow>
          if reserve p
          then Inr (True, pool_put c p)
          else Inl Null_Pointer)"

definition DestroyPool :: "sql_pool \<Rightarrow> sql_pool" where
  "DestroyPool p =
     (if connList p = [] then p
      else p\<lparr>sql_closed := sql_closed p @ connList p, m_CurConn := 0, m_FreeConn := 0, connList := []\<rparr>)"

text \<open>
  \<open>connectionRAII\<close>: the constructor takes a connection, the destructor gives it back. The pool
  itself is destroyed by \<open>DestroyPool\<close>.
\<close>

definition raii_enter :: "sql_pool \<Rightarrow> (nat option \<times> sql_pool) result" where
  [simp]: "raii_enter p = GetConnection p"

definition raii_leave :: "nat option \<Rightarrow> sql_pool \<Rightarrow> (bool \<times> sql_pool) result" where
  [simp]: "raii_leave con p = ReleaseConnection con p"

definition pool_destroy :: "sql_pool \<Rightarrow> sql_pool" where
  "pool_destroy p = DestroyPool p"

definition GetFreeConn :: "sql_pool \<Rightarrow> int" where
  "GetFreeConn p = m_FreeConn p"

subsection \<open>The counters\<close>

definition pool_ok :: "sql_pool \<Rightarrow> bool" where
  "pool_ok p \<longleftrightarrow> reserve p \<and> m_FreeConn p = int (length (connList p)) \<and> 0 \<le> m_CurConn p \<and>
     m_FreeConn p + m_CurConn p = m_MaxConn p"

lemma pool_connect_ok:
  "\<forall>i. conn i \<noteq> None \<Longrightarrow> \<exists>p'. pool_connect conn i n p = Inr p' \<and>
    p' = p\<lparr>connList := connList p @ map (the \<circ> conn) [i..<i + n],
      m_FreeConn := m_FreeConn p + int n\<rparr>"
proof (induction n arbitrary: i p)
  case 0
  then show ?case by simp
next
  case (Suc n)
  obtain c where c: "conn i = Some c" using Suc.prems by auto
  have range: "[i..<i + Suc n] = i # [Suc i..<Suc i + n]" by (simp add: upt_conv_Cons)
  show ?case
    using Suc.IH [OF Suc.prems, of "Suc i"
        "p\<lparr>connList := connList p @ [c], m_FreeConn := m_FreeConn p + 1\<rparr>"] c
    unfolding range by simp
qed

lemma pool_init_ok:
  assumes "\<forall>i. conn i \<noteq> None" and "0 \<le> maxConn"
  shows "\<exists>p'. pool_init conn url user password dbName port maxConn close_log (new_pool any) = Inr p' \<and>
    pool_ok p' \<and> m_MaxConn p' = maxConn \<and> connList p' = map (the \<circ> conn) [0..<nat maxConn] \<and>
    m_CurConn p' = 0"
proof -
  let ?p0 = "(new_pool any)\<lparr>m_url := url, m_Port := [char_of (nat (port mod 256))], m_User := user,
    m_PassWord := password, m_DatabaseName := dbName, m_close_log := close_log\<rparr>"
  obtain p1 where "pool_connect conn 0 (nat maxConn) ?p0 = Inr p1"
      "p1 = ?p0\<lparr>connList := connList ?p0 @ map (the \<circ> conn) [0..<0 + nat maxConn],
        m_FreeConn := m_FreeConn ?p0 + int (nat maxConn)\<rparr>"
    using pool_connect_ok [OF assms(1), of 0 "nat maxConn" ?p0] by blast
  then show ?thesis
    using assms(2) by (simp add: pool_init_def new_pool_def pool_ok_def)
qed

lemma GetConnection_ok:
  assumes "pool_ok p"
  shows "\<exists>con p'. GetConnection p = Inr (con, p') \<and> pool_ok p' \<and>
    (case con of None \<Rightarrow> connList p = [] \<and> p' = p
     | Some c \<Rightarrow> connList p = c # connList p' \<and> m_CurConn p' = m_CurConn p + 1)"
  using assms by (cases "connList p") (auto simp: GetConnection_def pool_take_def pool_ok_def)

lemma ReleaseConnection_ok:
  assumes "pool_ok p" and "0 < m_CurConn p"
  shows "\<exists>p'. ReleaseConnection (Some c) p = Inr (True, p') \<and> pool_ok p' \<and>
    connList p' = connList p @ [c] \<and> m_CurConn p' = m_CurConn p - 1"
  using assms by (auto simp: ReleaseConnection_def pool_ok_def)

text \<open>\<open>connectionRAII\<close>: a connection is taken, used and given back.\<close>

lemma pool_use:
  assumes "pool_ok p"
  shows "\<exists>con p1 r p2. GetConnection p = Inr (con, p1) \<and> ReleaseConnection con p1 = Inr (r, p2) \<and>
    pool_ok p2 \<and> mset (connList p2) = mset (connList p)"
proof -
  obtain con p1 where get: "GetConnection p = Inr (con, p1)" "pool_ok p1"
      "case con of None \<Rightarrow> connList p = [] \<and> p1 = p
       | Some c \<Rightarrow> connList p = c # connList p1 \<and> m_CurConn p1 = m_CurConn p + 1"
    using GetConnection_ok [OF assms] by blast
  show ?thesis
  proof (cases con)
    case None
    with get assms show ?thesis by (auto simp: ReleaseConnection_def)
  next
    case (Some c)
    with get(3) assms have "0 < m_CurConn p1" by (simp add: pool_ok_def)
    with ReleaseConnection_ok [OF get(2) this, of c] get Some show ?thesis by auto
  qed
qed

subsection \<open>Many threads\<close>

record pool_world =
  pw_pool :: sql_pool
  pw_entered :: "nat list"
  pw_holds :: "(nat \<times> nat) list"   \<comment> \<open>which thread holds which connection\<close>

inductive pool_step :: "pool_world \<Rightarrow> pool_world \<Rightarrow> bool" where
  enter: "connList (pw_pool w) \<noteq> [] \<Longrightarrow> t \<notin> fst ` set (pw_holds w) \<Longrightarrow>
    pool_step w (w\<lparr>pw_entered := t # pw_entered w\<rparr>)"
| take: "t \<in> set (pw_entered w) \<Longrightarrow> m_FreeConn (pw_pool w) \<noteq> 0 \<Longrightarrow>
    pool_take (pw_pool w) = Inr (c, p) \<Longrightarrow>
    pool_step w (w\<lparr>pw_pool := p, pw_entered := remove1 t (pw_entered w), pw_holds := (t, c) # pw_holds w\<rparr>)"
| release: "(t, c) \<in> set (pw_holds w) \<Longrightarrow> ReleaseConnection (Some c) (pw_pool w) = Inr (r, p) \<Longrightarrow>
    pool_step w (w\<lparr>pw_pool := p, pw_holds := remove1 (t, c) (pw_holds w)\<rparr>)"

lemma mset_map_remove1:
  "x \<in> set xs \<Longrightarrow> mset (map f xs) = add_mset (f x) (mset (map f (remove1 x xs)))"
  by (induction xs) auto

definition pool_inv :: "nat list \<Rightarrow> pool_world \<Rightarrow> bool" where
  "pool_inv cs w \<longleftrightarrow> pool_ok (pw_pool w) \<and>
     m_CurConn (pw_pool w) = int (length (pw_holds w)) \<and>
     mset (connList (pw_pool w)) + mset (map snd (pw_holds w)) = mset cs"

lemma pool_inv_step:
  assumes "pool_step w w'" and "pool_inv cs w"
  shows "pool_inv cs w'"
  using assms(1)
proof (cases rule: pool_step.cases)
  case (enter t)
  with assms(2) show ?thesis by (simp add: pool_inv_def)
next
  case (take t c p)
  then show ?thesis
    using assms(2) by (auto simp: pool_inv_def pool_take_def pool_ok_def split: list.splits)
next
  case (release t c r p)
  then have "0 < length (pw_holds w)" by (cases "pw_holds w") auto
  moreover have "mset (map snd (pw_holds w)) = add_mset c (mset (map snd (remove1 (t, c) (pw_holds w))))"
    using mset_map_remove1 [OF release(2), of snd] by simp
  moreover have "mset (connList (pw_pool w)) + mset (map snd (pw_holds w)) = mset cs"
    using assms(2) by (simp only: pool_inv_def)
  moreover have "int (length (remove1 (t, c) (pw_holds w))) = int (length (pw_holds w)) - 1"
    by (rule length_remove1_int [OF release(2)])
  ultimately show ?thesis
    using assms(2) release(1,3)
    by (auto simp: pool_inv_def ReleaseConnection_def pool_ok_def split: if_splits
      simp del: mset_map mset_remove1)
qed

interpretation pool_runs: step_invariant pool_step "pool_inv cs" for cs
  by unfold_locales (rule pool_inv_step)

text \<open>
  The pool hands every connection to one thread at a time. Set up the pool with some
  number of distinct connections and let any threads take and release connections in any
  order, including threads that enter \<open>GetConnection\<close> while others drain the list: at every
  moment the connections held by threads and the free ones are distinct and together are
  exactly the connections opened, the two counters count them, and whenever the counter
  lets a thread through, the list it takes from is not empty.
\<close>

lemma pool_exclusive:
  assumes "distinct cs" and "\<forall>i < length cs. conn i = Some (cs ! i)" and "\<forall>i. conn i \<noteq> None"
    and "pool_init conn url user password dbName port (int (length cs)) close_log (new_pool any) = Inr p"
    and "pool_step\<^sup>*\<^sup>* \<lparr>pw_pool = p, pw_entered = [], pw_holds = []\<rparr> w"
  shows "distinct (connList (pw_pool w) @ map snd (pw_holds w)) \<and>
    set (connList (pw_pool w)) \<union> snd ` set (pw_holds w) = set cs \<and>
    GetFreeConn (pw_pool w) = int (length (connList (pw_pool w))) \<and>
    m_CurConn (pw_pool w) = int (length (pw_holds w)) \<and>
    (m_FreeConn (pw_pool w) \<noteq> 0 \<longrightarrow> (\<exists>c p'. pool_take (pw_pool w) = Inr (c, p')))"
proof -
  have "map (the \<circ> conn) [0..<length cs] = cs"
    using assms(2) by (intro nth_equalityI) auto
  then have "pool_inv cs \<lparr>pw_pool = p, pw_entered = [], pw_holds = []\<rparr>"
    using pool_init_ok [OF assms(3), of "int (length cs)" url user password dbName port close_log any]
      assms(4) by (auto simp: pool_inv_def)
  from pool_runs.run [OF assms(5) this]
  have inv: "pool_ok (pw_pool w)" "m_CurConn (pw_pool w) = int (length (pw_holds w))"
    and all: "mset (connList (pw_pool w) @ map snd (pw_holds w)) = mset cs"
    by (simp_all add: pool_inv_def)
  have "distinct (connList (pw_pool w) @ map snd (pw_holds w))"
    using all assms(1) by (metis mset_eq_imp_distinct_iff)
  moreover have "set (connList (pw_pool w) @ map snd (pw_holds w)) = set cs"
    using all by (metis mset_eq_setD)
  ultimately show ?thesis
    using inv by (cases "connList (pw_pool w)") (auto simp: pool_ok_def GetFreeConn_def pool_take_def)
qed

lemma pool_exclusive_witness:
  "\<exists>p w. pool_init Some ''h'' ''u'' ''p'' ''d'' 3306 1 1 (new_pool 0) = Inr p \<and>
     pool_step\<^sup>*\<^sup>* \<lparr>pw_pool = p, pw_entered = [], pw_holds = []\<rparr> w \<and> pw_holds w = [(5, 0)] \<and>
     connList (pw_pool w) = [] \<and> GetFreeConn (pw_pool w) = 0"
proof -
  obtain p where p: "pool_init Some ''h'' ''u'' ''p'' ''d'' 3306 1 1 (new_pool 0) = Inr p"
      "pool_ok p" "connList p = [0]"
    using pool_init_ok [of Some 1 "''h''" "''u''" "''p''" "''d''" 3306 1 0] by auto
  let ?w0 = "\<lparr>pw_pool = p, pw_entered = [], pw_holds = []\<rparr>"
  let ?w1 = "\<lparr>pw_pool = p, pw_entered = [5], pw_holds = []\<rparr>"
  obtain p' where take: "pool_take p = Inr (0, p')"
    using p(3) by (simp add: pool_take_def)
  have "pool_step ?w0 ?w1"
    using pool_step.enter [of ?w0 5] p(3) by simp
  moreover have "pool_step ?w1 \<lparr>pw_pool = p', pw_entered = [], pw_holds = [(5, 0)]\<rparr>"
    using pool_step.take [of 5 ?w1 0 p'] p(2,3) take by (simp add: pool_ok_def)
  ultimately have run: "pool_step\<^sup>*\<^sup>* ?w0 \<lparr>pw_pool = p', pw_entered = [], pw_holds = [(5, 0)]\<rparr>"
    by simp
  have "connList p' = [] \<and> GetFreeConn p' = 0"
    using pool_exclusive [where conn = Some and url = "''h''" and user = "''u''" and password = "''p''"
        and dbName = "''d''" and port = 3306 and close_log = 1 and any = 0, OF _ _ _ _ run, of "[0]"] p(1)
    by (cases "connList p'") (auto simp: GetFreeConn_def)
  with p(1) run show ?thesis by auto
qed

end
