(* ===== verification/Epoll.thy ===== *)
theory Epoll
  imports StdMap "HOL-Library.Word"
begin

unbundle bit_operations_syntax

text \<open>
  \<open>net/Channel.h\<close>, \<open>net/Channel.cc\<close>, \<open>net/Epoll.h\<close> and \<open>net/Epoll.cc\<close>: a channel holds
  the events a file descriptor is watched for, the poller keeps the table of registered
  channels and issues \<open>epoll_ctl\<close> commands. The kernel is not modelled as state; the
  commands are recorded in order, and \<open>replay\<close> is what \<open>epoll_ctl(2)\<close> documents: adding
  a watched descriptor fails, and so do modifying and deleting one that is not watched.

  A \<open>Channel*\<close> is modelled by the identity \<open>chan_id\<close> of its object, a number: that of the
  connection for the channel of a connection, and a negative one for the channels of the
  loops themselves. The locale \<open>registry\<close>
  is the contract that connections rely on.
\<close>

type_synonym mask = "32 word"

definition EPOLLIN :: mask where "EPOLLIN = 1"
definition EPOLLPRI :: mask where "EPOLLPRI = 2"
definition EPOLLOUT :: mask where "EPOLLOUT = 4"
definition EPOLLERR :: mask where "EPOLLERR = 8"
definition EPOLLHUP :: mask where "EPOLLHUP = 16"
definition EPOLLET :: mask where "EPOLLET = 0x80000000"

definition readEvent :: mask where "readEvent = EPOLLIN OR EPOLLPRI"
definition writeEvent :: mask where "writeEvent = EPOLLOUT"

abbreviation kNew :: int where "kNew \<equiv> - 1"
abbreviation kAdded :: int where "kAdded \<equiv> 1"
abbreviation kDeleted :: int where "kDeleted \<equiv> 2"

record channel =
  chan_id :: int
  chan_fd :: int
  chan_events :: mask
  chan_revents :: mask
  chan_index :: int
  has_read :: bool      \<comment> \<open>\<open>handleRead\<close> is set\<close>
  has_write :: bool     \<comment> \<open>\<open>handleWrite\<close> is set\<close>

datatype ctl = CtlAdd int mask int | CtlMod int mask int | CtlDel int mask int

record epoll =
  ep_channels :: "(int, int) smap"   \<comment> \<open>\<open>channels\<close>\<close>
  ep_ctls :: "ctl list"              \<comment> \<open>the \<open>epoll_ctl\<close> calls made so far\<close>
  ep_capacity :: nat                 \<comment> \<open>\<open>revents.size()\<close>\<close>

definition new_channel :: "int \<Rightarrow> int \<Rightarrow> channel" where
  "new_channel p fd = \<lparr>chan_id = p, chan_fd = fd, chan_events = 0, chan_revents = 0,
     chan_index = kNew, has_read = False, has_write = False\<rparr>"

definition new_epoll :: epoll where
  "new_epoll = \<lparr>ep_channels = [], ep_ctls = [], ep_capacity = 16\<rparr>"

subsection \<open>\<open>Epoll\<close>\<close>

definition issue :: "ctl \<Rightarrow> epoll \<Rightarrow> epoll" where
  "issue ctl ep = ep\<lparr>ep_ctls := ep_ctls ep @ [ctl]\<rparr>"

definition updateChannel :: "channel \<Rightarrow> epoll \<Rightarrow> channel \<times> epoll" where
  "updateChannel c ep =
     (let fd = chan_fd c; index = chan_index c; ev = chan_events c; p = chan_id c
      in if smap_find (ep_channels ep) fd \<noteq> None
         then let ep1 = ep\<lparr>ep_channels := smap_assign fd p (ep_channels ep)\<rparr>
              in if index = kAdded then (c, issue (CtlMod fd ev p) ep1)
                 else if index = kDeleted
                 then (c, (issue (CtlDel fd ev p) ep1)\<lparr>ep_channels := smap_erase fd (ep_channels ep1)\<rparr>)
                 else (c, ep1)
         else (c\<lparr>chan_index := kAdded\<rparr>,
           issue (CtlAdd fd ev p) (ep\<lparr>ep_channels := smap_assign fd p (ep_channels ep)\<rparr>)))"

text \<open>
  \<open>epollWait\<close>: the argument is the answer of \<open>epoll_wait\<close>, \<open>None\<close> for -1. The result is the
  return value, the active channels with the events set on them, and the poller.
\<close>

definition epollWait :: "(int \<times> mask) list option \<Rightarrow> epoll \<Rightarrow> int \<times> (int \<times> mask) list \<times> epoll" where
  "epollWait answer ep =
     (case answer of
        None \<Rightarrow> (- 1, [], ep)
      | Some evs \<Rightarrow>
          if evs = [] then (0, [], ep)
          else (int (length evs), evs,
            if length evs = ep_capacity ep then ep\<lparr>ep_capacity := 2 * ep_capacity ep\<rparr> else ep))"

subsection \<open>\<open>Channel\<close>\<close>

text \<open>
  \<open>Channel::update\<close> hands the channel to \<open>EventLoop::updateChannel\<close>, and that to the poller of
  the loop.
\<close>

definition loop_updateChannel :: "channel \<Rightarrow> epoll \<Rightarrow> channel \<times> epoll" where
  [simp]: "loop_updateChannel c ep = updateChannel c ep"

definition channel_update :: "channel \<Rightarrow> epoll \<Rightarrow> channel \<times> epoll" where
  [simp]: "channel_update c ep = loop_updateChannel c ep"

definition setHandleRead :: "channel \<Rightarrow> channel" where
  [simp]: "setHandleRead c = c\<lparr>has_read := True\<rparr>"

definition setHandleWrite :: "channel \<Rightarrow> channel" where
  [simp]: "setHandleWrite c = c\<lparr>has_write := True\<rparr>"

definition enableReading :: "channel \<Rightarrow> epoll \<Rightarrow> channel \<times> epoll" where
  "enableReading c ep = channel_update (c\<lparr>chan_events := chan_events c OR readEvent\<rparr>) ep"

definition enableWriting :: "channel \<Rightarrow> epoll \<Rightarrow> channel \<times> epoll" where
  "enableWriting c ep = channel_update (c\<lparr>chan_events := chan_events c OR writeEvent\<rparr>) ep"

definition enableET :: "channel \<Rightarrow> epoll \<Rightarrow> channel \<times> epoll" where
  "enableET c ep = channel_update (c\<lparr>chan_events := chan_events c OR EPOLLET\<rparr>) ep"

definition disableWriting :: "channel \<Rightarrow> epoll \<Rightarrow> channel \<times> epoll" where
  "disableWriting c ep = channel_update (c\<lparr>chan_events := chan_events c AND NOT writeEvent\<rparr>) ep"

definition disableReading :: "channel \<Rightarrow> epoll \<Rightarrow> channel \<times> epoll" where
  "disableReading c ep = channel_update (c\<lparr>chan_events := chan_events c AND NOT readEvent\<rparr>) ep"

definition diableET :: "channel \<Rightarrow> epoll \<Rightarrow> channel \<times> epoll" where
  "diableET c ep = channel_update (c\<lparr>chan_events := chan_events c AND NOT EPOLLET\<rparr>) ep"

definition disableAll :: "channel \<Rightarrow> epoll \<Rightarrow> channel \<times> epoll" where
  "disableAll c ep = channel_update (c\<lparr>chan_index := kDeleted\<rparr>) ep"

definition setREvent :: "mask \<Rightarrow> channel \<Rightarrow> channel" where
  "setREvent ev c = c\<lparr>chan_revents := ev\<rparr>"

datatype dispatch = Call_Read | Call_Write | Call_Nothing

definition handleEvent :: "channel \<Rightarrow> dispatch" where
  "handleEvent c =
     (if chan_revents c AND readEvent \<noteq> 0
      then if has_read c then Call_Read else Call_Nothing
      else if chan_revents c AND writeEvent \<noteq> 0
      then if has_write c then Call_Write else Call_Nothing
      else Call_Nothing)"

subsection \<open>The kernel's interest list\<close>

type_synonym interest = "int \<Rightarrow> (mask \<times> int) option"

fun replay1 :: "ctl \<Rightarrow> interest \<Rightarrow> interest option" where
  "replay1 (CtlAdd fd ev p) k = (if k fd = None then Some (k(fd \<mapsto> (ev, p))) else None)"
| "replay1 (CtlMod fd ev p) k = (if k fd \<noteq> None then Some (k(fd \<mapsto> (ev, p))) else None)"
| "replay1 (CtlDel fd ev p) k = (if k fd \<noteq> None then Some (k(fd := None)) else None)"

definition replay :: "ctl list \<Rightarrow> interest option" where
  "replay cs = foldl (\<lambda>k c. Option.bind k (replay1 c)) (Some Map.empty) cs"

lemma replay_Nil [simp]: "replay [] = Some Map.empty"
  by (simp add: replay_def)

lemma replay_snoc [simp]: "replay (cs @ [c]) = Option.bind (replay cs) (replay1 c)"
  by (simp add: replay_def)

definition watching :: "epoll \<Rightarrow> int \<Rightarrow> mask option" where
  "watching ep fd = (case replay (ep_ctls ep) of None \<Rightarrow> None | Some k \<Rightarrow> map_option fst (k fd))"

text \<open>
  The poller is consistent: no command has failed, and its table lists exactly the watched
  descriptors with their channels.
\<close>

definition epoll_ok :: "epoll \<Rightarrow> bool" where
  "epoll_ok ep \<longleftrightarrow> smap_ok (ep_channels ep) \<and>
     (\<exists>k. replay (ep_ctls ep) = Some k \<and>
       (\<forall>fd. smap_find (ep_channels ep) fd = map_option snd (k fd)))"

text \<open>A channel agrees with the poller: it is registered if and only if it says so.\<close>

definition chan_ok :: "channel \<Rightarrow> epoll \<Rightarrow> bool" where
  "chan_ok c ep \<longleftrightarrow>
     (chan_index c = kAdded \<and> smap_find (ep_channels ep) (chan_fd c) = Some (chan_id c)) \<or>
     (chan_index c \<noteq> kAdded \<and> smap_find (ep_channels ep) (chan_fd c) = None)"

lemma epoll_ok_new [simp]: "epoll_ok new_epoll"
  by (simp add: epoll_ok_def new_epoll_def)

lemma chan_ok_new [simp]: "chan_ok (new_channel p fd) new_epoll"
  by (simp add: chan_ok_def new_channel_def new_epoll_def)

lemma epoll_okE:
  assumes "epoll_ok ep"
  obtains k where "smap_ok (ep_channels ep)" and "replay (ep_ctls ep) = Some k"
    and "\<forall>fd. smap_find (ep_channels ep) fd = map_option snd (k fd)"
  using assms by (auto simp: epoll_ok_def)

lemma updateChannel_add:
  "smap_find (ep_channels ep) (chan_fd c) = None \<Longrightarrow>
    updateChannel c ep = (c\<lparr>chan_index := kAdded\<rparr>,
      issue (CtlAdd (chan_fd c) (chan_events c) (chan_id c))
        (ep\<lparr>ep_channels := smap_assign (chan_fd c) (chan_id c) (ep_channels ep)\<rparr>))"
  unfolding updateChannel_def Let_def by (simp only: not_True_eq_False simp_thms if_False)

lemma updateChannel_mod:
  "smap_find (ep_channels ep) (chan_fd c) = Some p \<Longrightarrow> chan_index c = kAdded \<Longrightarrow>
    updateChannel c ep = (c,
      issue (CtlMod (chan_fd c) (chan_events c) (chan_id c))
        (ep\<lparr>ep_channels := smap_assign (chan_fd c) (chan_id c) (ep_channels ep)\<rparr>))"
  by (simp add: updateChannel_def Let_def)

lemma updateChannel_del:
  "smap_find (ep_channels ep) (chan_fd c) = Some p \<Longrightarrow> chan_index c = kDeleted \<Longrightarrow>
    updateChannel c ep = (c,
      (issue (CtlDel (chan_fd c) (chan_events c) (chan_id c))
        (ep\<lparr>ep_channels := smap_assign (chan_fd c) (chan_id c) (ep_channels ep)\<rparr>))
        \<lparr>ep_channels := smap_erase (chan_fd c) (smap_assign (chan_fd c) (chan_id c) (ep_channels ep))\<rparr>)"
  by (simp add: updateChannel_def Let_def issue_def)

lemma epoll_ok_intro:
  assumes "epoll_ok ep" and "replay (ep_ctls ep) = Some k"
    and "smap_ok (ep_channels ep')" and "replay (ep_ctls ep') = Some (k(fd := e))"
    and "smap_find (ep_channels ep') = (smap_find (ep_channels ep))(fd := map_option snd e)"
  shows "epoll_ok ep' \<and> watching ep' = (watching ep)(fd := map_option fst e)"
proof
  have "\<forall>x. smap_find (ep_channels ep) x = map_option snd (k x)"
    using assms(1,2) by (auto simp: epoll_ok_def)
  then have "\<forall>x. smap_find (ep_channels ep') x = map_option snd ((k(fd := e)) x)"
    by (simp add: assms(5))
  with assms(3,4) show "epoll_ok ep'" unfolding epoll_ok_def by blast
  show "watching ep' = (watching ep)(fd := map_option fst e)"
    using assms(2,4) by (auto simp: watching_def)
qed

lemma updateChannel_registers:
  assumes "epoll_ok ep" and "chan_ok c ep" and "updateChannel c ep = (c', ep')"
  shows "epoll_ok ep' \<and> chan_ok c' ep' \<and> c' = c\<lparr>chan_index := kAdded\<rparr> \<and>
    watching ep' = (watching ep)(chan_fd c \<mapsto> chan_events c) \<and>
    smap_find (ep_channels ep') = (smap_find (ep_channels ep))(chan_fd c \<mapsto> chan_id c)"
proof -
  obtain k where ok: "smap_ok (ep_channels ep)" and k: "replay (ep_ctls ep) = Some k"
      and tab: "\<forall>fd. smap_find (ep_channels ep) fd = map_option snd (k fd)"
    using assms(1) by (rule epoll_okE)
  have eq: "c' = c\<lparr>chan_index := kAdded\<rparr> \<and>
      ep_channels ep' = smap_assign (chan_fd c) (chan_id c) (ep_channels ep) \<and>
      replay (ep_ctls ep') = Some (k(chan_fd c \<mapsto> (chan_events c, chan_id c)))"
  proof (cases "smap_find (ep_channels ep) (chan_fd c)")
    case None
    with tab [rule_format, of "chan_fd c"] have "k (chan_fd c) = None" by (cases "k (chan_fd c)") auto
    with assms(3) k show ?thesis by (auto simp: updateChannel_add [OF None] issue_def)
  next
    case (Some p)
    then have ix: "chan_index c = kAdded" using assms(2) by (auto simp: chan_ok_def)
    have "k (chan_fd c) \<noteq> None"
      using tab [rule_format, of "chan_fd c"] Some by (cases "k (chan_fd c)") auto
    with assms(3) k ix show ?thesis by (auto simp: updateChannel_mod [OF Some ix] issue_def)
  qed
  then have find': "smap_find (ep_channels ep') =
      (smap_find (ep_channels ep))(chan_fd c := map_option snd (Some (chan_events c, chan_id c)))"
    using ok by (simp add: smap.find_assign)
  have "epoll_ok ep' \<and> watching ep' =
      (watching ep)(chan_fd c := map_option fst (Some (chan_events c, chan_id c)))"
    by (rule epoll_ok_intro [OF assms(1) k _ _ find'])
      (use eq ok in \<open>simp_all add: smap.ok_assign\<close>)
  with eq find' show ?thesis by (simp add: chan_ok_def)
qed

lemma disableAll_unregisters:
  assumes "epoll_ok ep" and "chan_ok c ep" and "chan_index c = kAdded"
    and "disableAll c ep = (c', ep')"
  shows "epoll_ok ep' \<and> chan_ok c' ep' \<and> c' = c\<lparr>chan_index := kDeleted\<rparr> \<and>
    watching ep' = (watching ep)(chan_fd c := None) \<and>
    smap_find (ep_channels ep') = (smap_find (ep_channels ep))(chan_fd c := None)"
proof -
  obtain k where ok: "smap_ok (ep_channels ep)" and k: "replay (ep_ctls ep) = Some k"
      and tab: "\<forall>fd. smap_find (ep_channels ep) fd = map_option snd (k fd)"
    using assms(1) by (rule epoll_okE)
  have Some: "smap_find (ep_channels ep) (chan_fd c) = Some (chan_id c)"
    using assms(2,3) by (auto simp: chan_ok_def)
  then have "k (chan_fd c) \<noteq> None"
    using tab [rule_format, of "chan_fd c"] by (cases "k (chan_fd c)") auto
  then have eq: "c' = c\<lparr>chan_index := kDeleted\<rparr> \<and> ep_channels ep' =
        smap_erase (chan_fd c) (smap_assign (chan_fd c) (chan_id c) (ep_channels ep)) \<and>
      replay (ep_ctls ep') = Some (k(chan_fd c := None))"
    using assms(4) k updateChannel_del [of ep "c\<lparr>chan_index := kDeleted\<rparr>"] Some
    by (auto simp: disableAll_def issue_def)
  then have find': "smap_find (ep_channels ep') =
      (smap_find (ep_channels ep))(chan_fd c := map_option snd (None :: (mask \<times> int) option))"
    using ok by (simp add: smap.find_assign smap.find_erase smap.ok_assign fun_eq_iff)
  have "epoll_ok ep' \<and> watching ep' =
      (watching ep)(chan_fd c := map_option fst (None :: (mask \<times> int) option))"
    by (rule epoll_ok_intro [OF assms(1) k _ _ find'])
      (use eq ok in \<open>simp_all add: smap.ok_assign smap.ok_erase\<close>)
  with eq find' show ?thesis by (simp add: chan_ok_def)
qed

lemma chan_ok_other:
  "chan_ok d ep \<Longrightarrow> chan_fd d \<noteq> chan_fd c \<Longrightarrow>
    smap_find (ep_channels ep') = (smap_find (ep_channels ep))(chan_fd c := e) \<Longrightarrow> chan_ok d ep'"
  by (auto simp: chan_ok_def)

lemma chan_ok_events [simp]: "chan_ok (c\<lparr>chan_events := m\<rparr>) ep = chan_ok c ep"
  by (simp add: chan_ok_def)

lemma chan_ok_revents [simp]: "chan_ok (c\<lparr>chan_revents := m\<rparr>) ep = chan_ok c ep"
  by (simp add: chan_ok_def)

subsection \<open>The contract of the event registry\<close>

locale registry =
  fixes ok :: "'r \<Rightarrow> bool"
    and agrees :: "'c \<Rightarrow> 'r \<Rightarrow> bool"
    and descr :: "'c \<Rightarrow> int"
    and mask_of :: "'c \<Rightarrow> mask"
    and watched :: "'r \<Rightarrow> int \<Rightarrow> mask option"
    and update :: "(mask \<Rightarrow> mask) \<Rightarrow> 'c \<Rightarrow> 'r \<Rightarrow> 'c \<times> 'r"
  assumes update_ok: "ok r \<Longrightarrow> agrees c r \<Longrightarrow> update f c r = (c', r') \<Longrightarrow>
      ok r' \<and> agrees c' r' \<and> descr c' = descr c \<and> mask_of c' = f (mask_of c) \<and>
      watched r' = (watched r)(descr c \<mapsto> f (mask_of c))"
    and update_other: "ok r \<Longrightarrow> agrees c r \<Longrightarrow> agrees d r \<Longrightarrow> descr d \<noteq> descr c \<Longrightarrow>
      update f c r = (c', r') \<Longrightarrow> agrees d r'"
begin

lemma updates_ok:
  "ok r \<Longrightarrow> agrees c r \<Longrightarrow> watched r (descr c) = Some (mask_of c) \<Longrightarrow>
    foldl (\<lambda>(c, r) f. update f c r) (c, r) fs = (c', r') \<Longrightarrow>
    ok r' \<and> agrees c' r' \<and> descr c' = descr c \<and>
    mask_of c' = foldl (\<lambda>m f. f m) (mask_of c) fs \<and> watched r' (descr c) = Some (mask_of c') \<and>
    (\<forall>fd. fd \<noteq> descr c \<longrightarrow> watched r' fd = watched r fd)"
proof (induction fs arbitrary: c r)
  case Nil
  then show ?case by simp
next
  case (Cons f fs)
  obtain c1 r1 where step: "update f c r = (c1, r1)" by fastforce
  note one = update_ok [OF Cons.prems(1,2) step]
  have "foldl (\<lambda>(c, r) f. update f c r) (c1, r1) fs = (c', r')"
    using Cons.prems(4) step by simp
  with Cons.IH [of r1 c1] one show ?case by auto
qed

end

definition update_mask :: "(mask \<Rightarrow> mask) \<Rightarrow> channel \<Rightarrow> epoll \<Rightarrow> channel \<times> epoll" where
  "update_mask f c ep = updateChannel (c\<lparr>chan_events := f (chan_events c)\<rparr>) ep"

interpretation reg: registry epoll_ok chan_ok chan_fd chan_events watching update_mask
proof unfold_locales
  fix ep :: epoll and c c' :: channel and ep' f
  assume ok: "epoll_ok ep" "chan_ok c ep" and up: "update_mask f c ep = (c', ep')"
  note regs = updateChannel_registers [of ep "c\<lparr>chan_events := f (chan_events c)\<rparr>" c' ep']
  show "epoll_ok ep' \<and> chan_ok c' ep' \<and> chan_fd c' = chan_fd c \<and>
      chan_events c' = f (chan_events c) \<and>
      watching ep' = (watching ep)(chan_fd c \<mapsto> f (chan_events c))"
    using regs ok up by (auto simp: update_mask_def)
  fix d :: channel
  assume "chan_ok d ep" and "chan_fd d \<noteq> chan_fd c"
  then show "chan_ok d ep'"
    by (rule chan_ok_other [where e = "Some (chan_id c)"]) (use regs ok up in \<open>simp add: update_mask_def\<close>)
qed

text \<open>The mask operations of \<open>Channel\<close> are updates of the registry.\<close>

lemma enable_as_update:
  "enableReading = update_mask (\<lambda>m. m OR readEvent)"
  "enableWriting = update_mask (\<lambda>m. m OR writeEvent)"
  "enableET = update_mask (\<lambda>m. m OR EPOLLET)"
  "disableWriting = update_mask (\<lambda>m. m AND NOT writeEvent)"
  "disableReading = update_mask (\<lambda>m. m AND NOT readEvent)"
  "diableET = update_mask (\<lambda>m. m AND NOT EPOLLET)"
  by (simp_all add: fun_eq_iff enableReading_def enableWriting_def enableET_def disableWriting_def
    disableReading_def diableET_def update_mask_def)

subsection \<open>Many channels on one poller\<close>

datatype chan_op = Enable_Reading | Enable_Writing | Enable_ET | Disable_Writing
  | Disable_Reading | Disable_ET | Disable_All

fun chan_apply :: "chan_op \<Rightarrow> channel \<Rightarrow> epoll \<Rightarrow> channel \<times> epoll" where
  "chan_apply Enable_Reading = enableReading"
| "chan_apply Enable_Writing = enableWriting"
| "chan_apply Enable_ET = enableET"
| "chan_apply Disable_Writing = disableWriting"
| "chan_apply Disable_Reading = disableReading"
| "chan_apply Disable_ET = diableET"
| "chan_apply Disable_All = disableAll"

text \<open>One channel per descriptor, and operations on them in any order.\<close>

fun chan_run :: "(int \<times> chan_op) list \<Rightarrow> (int \<Rightarrow> channel) \<Rightarrow> epoll \<Rightarrow> (int \<Rightarrow> channel) \<times> epoll" where
  "chan_run [] chs ep = (chs, ep)"
| "chan_run ((fd, op) # ops) chs ep =
     (let (c, ep') = chan_apply op (chs fd) ep in chan_run ops (chs(fd := c)) ep')"

definition poller_inv :: "(int \<Rightarrow> channel) \<Rightarrow> epoll \<Rightarrow> bool" where
  "poller_inv chs ep \<longleftrightarrow> epoll_ok ep \<and>
     (\<forall>fd. chan_fd (chs fd) = fd \<and> chan_ok (chs fd) ep \<and>
       watching ep fd = (if chan_index (chs fd) = kAdded then Some (chan_events (chs fd)) else None))"

lemma chan_apply_mask:
  "op \<noteq> Disable_All \<Longrightarrow> \<exists>f. chan_apply op = update_mask f"
  by (cases op) (auto simp: enable_as_update)

lemma disableAll_absent:
  assumes "epoll_ok ep" and "chan_ok c ep" and "chan_index c \<noteq> kAdded"
    and "disableAll c ep = (c', ep')"
  shows "epoll_ok ep' \<and> chan_ok c' ep' \<and> c' = c\<lparr>chan_index := kAdded\<rparr> \<and>
    watching ep' = (watching ep)(chan_fd c \<mapsto> chan_events c) \<and>
    smap_find (ep_channels ep') = (smap_find (ep_channels ep))(chan_fd c \<mapsto> chan_id c)"
proof -
  have "chan_ok (c\<lparr>chan_index := kDeleted\<rparr>) ep"
    using assms(2,3) by (simp add: chan_ok_def)
  from updateChannel_registers [OF assms(1) this, of c' ep'] assms(4) show ?thesis
    by (auto simp: disableAll_def)
qed

lemma update_mask_index:
  assumes "epoll_ok ep" and "chan_ok c ep" and "update_mask f c ep = (c', ep')"
  shows "chan_index c' = kAdded"
  using updateChannel_registers [of ep "c\<lparr>chan_events := f (chan_events c)\<rparr>" c' ep'] assms
  by (auto simp: update_mask_def)

lemma chan_apply_step:
  assumes "epoll_ok ep" and "chan_ok c ep" and "chan_apply op c ep = (c', ep')"
  shows "epoll_ok ep' \<and> chan_ok c' ep' \<and> chan_fd c' = chan_fd c \<and>
    watching ep' = (watching ep)
      (chan_fd c := if chan_index c' = kAdded then Some (chan_events c') else None) \<and>
    (\<forall>d. chan_ok d ep \<and> chan_fd d \<noteq> chan_fd c \<longrightarrow> chan_ok d ep')"
proof (cases "op = Disable_All")
  case False
  then obtain f where f: "update_mask f c ep = (c', ep')"
    using chan_apply_mask [of op] assms(3) by auto
  show ?thesis
    using reg.update_ok [OF assms(1,2) f] update_mask_index [OF assms(1,2) f]
      reg.update_other [OF assms(1,2) _ _ f] by auto
next
  case True
  then have d: "disableAll c ep = (c', ep')" using assms(3) by simp
  show ?thesis
  proof (cases "chan_index c = kAdded")
    case True
    note off = disableAll_unregisters [OF assms(1,2) True d]
    then show ?thesis using chan_ok_other [of _ ep c ep' None] by auto
  next
    case False
    note on = disableAll_absent [OF assms(1,2) False d]
    then show ?thesis using chan_ok_other [of _ ep c ep' "Some (chan_id c)"] by auto
  qed
qed

lemma chan_run_inv: "poller_inv chs ep \<Longrightarrow> case_prod poller_inv (chan_run ops chs ep)"
proof (induction ops arbitrary: chs ep)
  case Nil
  then show ?case by simp
next
  case (Cons x ops)
  obtain fd op where x: "x = (fd, op)" by (cases x)
  obtain c ep' where step: "chan_apply op (chs fd) ep = (c, ep')" by fastforce
  have inv: "epoll_ok ep" "chan_ok (chs fd) ep" "chan_fd (chs fd) = fd"
    using Cons.prems by (simp_all add: poller_inv_def)
  have "poller_inv (chs(fd := c)) ep'"
    using chan_apply_step [OF inv(1,2) step] Cons.prems inv(3) by (simp add: poller_inv_def)
  from Cons.IH [OF this] show ?case
    unfolding x by (simp only: chan_run.simps step Let_def prod.case)
qed


lemma bit_readEvent: "bit readEvent n \<longleftrightarrow> n < 2"
proof -
  have "readEvent = Bit_Operations.mask 2"
    by (simp add: readEvent_def EPOLLIN_def EPOLLPRI_def mask_eq_exp_minus_1)
  then show ?thesis unfolding \<open>readEvent = _\<close> bit_mask_iff by auto
qed

lemma bit_writeEvent: "bit writeEvent n \<longleftrightarrow> n = 2"
proof -
  have "writeEvent = 2 ^ 2" by (simp add: writeEvent_def EPOLLOUT_def)
  then show ?thesis unfolding \<open>writeEvent = _\<close> bit_exp_iff by auto
qed

lemma and_mask_nonzero: "(m :: mask) AND k \<noteq> 0 \<longleftrightarrow> (\<exists>n. bit m n \<and> bit k n)"
  using bit_imp_le_length [of m] by (auto simp: bit_eq_iff bit_and_iff)

text \<open>
  What \<open>handleEvent\<close> calls for. The read callback runs for EPOLLIN or EPOLLPRI; the write
  callback runs only for an EPOLLOUT that comes without either of them. A write readiness
  reported together with a read readiness, and a report of errors or hang-ups alone, reach
  no callback.
\<close>

lemma handleEvent_dispatch:
  "(handleEvent c = Call_Read \<longleftrightarrow>
      (bit (chan_revents c) 0 \<or> bit (chan_revents c) 1) \<and> has_read c) \<and>
   (handleEvent c = Call_Write \<longleftrightarrow>
      bit (chan_revents c) 2 \<and> \<not> bit (chan_revents c) 0 \<and> \<not> bit (chan_revents c) 1 \<and>
      has_write c)"
proof -
  have r: "chan_revents c AND readEvent \<noteq> 0 \<longleftrightarrow> bit (chan_revents c) 0 \<or> bit (chan_revents c) 1"
    by (auto simp: and_mask_nonzero bit_readEvent numeral_2_eq_2 less_Suc_eq)
  have w: "chan_revents c AND writeEvent \<noteq> 0 \<longleftrightarrow> bit (chan_revents c) 2"
    by (auto simp: and_mask_nonzero bit_writeEvent)
  show ?thesis by (auto simp: handleEvent_def r w)
qed

end
