(* ===== verification/Timestamp.thy ===== *)
theory Timestamp
  imports CText "HOL-Library.Signed_Division"
begin

text \<open>
  \<open>base/Timestamp.h\<close> and \<open>base/Timestamp.cc\<close>: a point in time as a \<open>long\<close> count of
  microseconds. Additions are kept in the 64 bits of \<open>long\<close>: the program is built without
  optimisation, so a sum that leaves the type wraps around. The broken-down time of the C
  library depends on its time zone data and is an argument of the formatting functions.
\<close>

datatype timestamp = Timestamp (microSeconds: int)

text \<open>The comparison operators compare the counts; they make the type a linear order.\<close>

definition timestamp_less :: "timestamp \<Rightarrow> timestamp \<Rightarrow> bool" where
  "timestamp_less a b \<longleftrightarrow> microSeconds a < microSeconds b"

definition timestamp_equal :: "timestamp \<Rightarrow> timestamp \<Rightarrow> bool" where
  "timestamp_equal a b \<longleftrightarrow> microSeconds a = microSeconds b"

definition timestamp_less_eq :: "timestamp \<Rightarrow> timestamp \<Rightarrow> bool" where
  "timestamp_less_eq a b \<longleftrightarrow> microSeconds a \<le> microSeconds b"

instantiation timestamp :: linorder
begin

definition less_timestamp :: "timestamp \<Rightarrow> timestamp \<Rightarrow> bool" where
  "less_timestamp = timestamp_less"

definition less_eq_timestamp :: "timestamp \<Rightarrow> timestamp \<Rightarrow> bool" where
  "less_eq_timestamp = timestamp_less_eq"

instance
  by standard (auto simp: less_timestamp_def less_eq_timestamp_def timestamp_less_def
    timestamp_less_eq_def intro: timestamp.expand)

end

lemma timestamp_equal_iff [simp]: "timestamp_equal a b \<longleftrightarrow> a = b"
  by (auto simp: timestamp_equal_def intro: timestamp.expand)

definition kMicroSecondsPerSecond :: int where
  "kMicroSecondsPerSecond = 1000 * 1000"

definition addTime :: "int \<Rightarrow> timestamp \<Rightarrow> timestamp" where
  "addTime us t = Timestamp (wrap64 (microSeconds t + us))"

text \<open>\<open>Timestamp::now\<close>, from the two fields that \<open>gettimeofday\<close> fills in.\<close>

definition timestamp_now :: "int \<Rightarrow> int \<Rightarrow> timestamp" where
  "timestamp_now tv_sec tv_usec =
     Timestamp (wrap64 (wrap64 (tv_sec * kMicroSecondsPerSecond) + tv_usec))"

text \<open>\<open>struct tm\<close>, with the fields of the C library.\<close>

record tm =
  tm_year :: int
  tm_mon :: int
  tm_mday :: int
  tm_hour :: int
  tm_min :: int
  tm_sec :: int

definition toFormattedString :: "(int \<Rightarrow> tm) \<Rightarrow> bool \<Rightarrow> timestamp \<Rightarrow> string" where
  "toFormattedString gmtime showMicroseconds t =
     (let seconds = microSeconds t sdiv kMicroSecondsPerSecond;
          tt = gmtime seconds;
          date = fmt_space 4 (tm_year tt + 1900) @ fmt_zero 2 (tm_mon tt + 1) @ fmt_zero 2 (tm_mday tt) @
            '' '' @ fmt_zero 2 (tm_hour tt) @ '':'' @ fmt_zero 2 (tm_min tt) @ '':'' @ fmt_zero 2 (tm_sec tt)
      in if showMicroseconds
         then snprintf 64 (date @ ''.'' @ fmt_zero 6 (microSeconds t smod kMicroSecondsPerSecond))
         else snprintf 64 date)"

subsection \<open>Lemmas\<close>

lemma microSeconds_addTime:
  "- (2 ^ 63) \<le> microSeconds t + us \<Longrightarrow> microSeconds t + us < 2 ^ 63 \<Longrightarrow>
    microSeconds (addTime us t) = microSeconds t + us"
  by (simp add: addTime_def wrap64_id)

lemma addTime_overflow:
  "2 ^ 63 \<le> microSeconds t + us \<Longrightarrow> microSeconds t + us < 2 ^ 63 + 2 ^ 64 \<Longrightarrow>
    microSeconds (addTime us t) = microSeconds t + us - 2 ^ 64"
  by (simp add: addTime_def wrap64_above)

lemma timestamp_le_iff: "a \<le> b \<longleftrightarrow> microSeconds a \<le> microSeconds b"
  by (simp add: less_eq_timestamp_def timestamp_less_eq_def)

lemma timestamp_less_iff: "a < b \<longleftrightarrow> microSeconds a < microSeconds b"
  by (simp add: less_timestamp_def timestamp_less_def)

lemma addTime_later:
  "0 < us \<Longrightarrow> microSeconds t + us < 2 ^ 63 \<Longrightarrow> - (2 ^ 63) \<le> microSeconds t \<Longrightarrow> t < addTime us t"
  by (simp add: timestamp_less_iff microSeconds_addTime)

end
