(* ===== verification/TimerQueue.thy ===== *)
theory TimerQueue
  imports Timestamp StdMap
begin

text \<open>
  \<open>net/TimerQueue.h\<close> and \<open>net/TimerQueue.cc\<close>: timers and the queue the main loop checks
  periodically. A \<open>shared_ptr<Timer>\<close> is a reference number into a heap of timers, since a
  connection and the queue share the object; the queue's map is keyed by expiration time.
  Intervals are \<open>double\<close>s that hold whole numbers far below \<open>2 ^ 53\<close>, so they are integers
  here. The callback of a timer is an argument of the expiry loop: it may change the timers
  of the heap, and it can add timers only by a task that runs after the loop.
\<close>

record timer =
  interval :: int
  timer_visited :: bool
  expired :: timestamp
  timer_func :: "int option"     \<comment> \<open>the connection whose \<open>handleTimer\<close> is the callback\<close>
  tcpConn :: "int option"        \<comment> \<open>the connection held weakly\<close>

definition new_timer :: "timestamp \<Rightarrow> int \<Rightarrow> timer" where
  "new_timer when intv = \<lparr>interval = intv, timer_visited = False, expired = when,
     timer_func = None, tcpConn = None\<rparr>"

definition isVisited :: "timer \<Rightarrow> bool" where "isVisited t = timer_visited t"
definition setVisited :: "bool \<Rightarrow> timer \<Rightarrow> timer" where "setVisited v t = t\<lparr>timer_visited := v\<rparr>"
definition expiration :: "timer \<Rightarrow> timestamp" where "expiration t = expired t"
definition getInterval :: "timer \<Rightarrow> int" where "getInterval t = interval t"
definition restart :: "timestamp \<Rightarrow> timer \<Rightarrow> timer" where "restart when t = t\<lparr>expired := when\<rparr>"
definition setTimerFunc :: "int \<Rightarrow> timer \<Rightarrow> timer" where
  "setTimerFunc conn t = t\<lparr>timer_func := Some conn\<rparr>"
definition bindTcpConnection :: "int \<Rightarrow> timer \<Rightarrow> timer" where
  "bindTcpConnection conn t = t\<lparr>tcpConn := Some conn\<rparr>"

text \<open>
  \<open>Timer::run\<close>: the connection whose callback is to be called, if the weakly held connection
  is still alive.
\<close>

definition timer_run :: "(int \<Rightarrow> bool) \<Rightarrow> timer \<Rightarrow> int option" where
  "timer_run alive t =
     (case tcpConn t of None \<Rightarrow> None | Some c \<Rightarrow> if alive c then timer_func t else None)"

record timer_queue =
  timers :: "(timestamp, nat) smap"
  check_per_seconds :: int
  armed :: "(int \<times> int) list"      \<comment> \<open>the relative times given to \<open>timerfd_settime\<close>\<close>

subsection \<open>Arming the timer descriptor\<close>

definition howMuchTimeFromNow :: "timestamp \<Rightarrow> timestamp \<Rightarrow> int \<times> int" where
  "howMuchTimeFromNow when now =
     (let d = wrap64 (microSeconds when - microSeconds now);
          us = (if d < 100 then 100 else d)
      in (us sdiv kMicroSecondsPerSecond, (us smod kMicroSecondsPerSecond) * 1000))"

definition resetTimerfd :: "timestamp \<Rightarrow> timestamp \<Rightarrow> timer_queue \<Rightarrow> timer_queue" where
  "resetTimerfd when now q = q\<lparr>armed := armed q @ [howMuchTimeFromNow when now]\<rparr>"

text \<open>\<open>check_per_seconds_*1000*1000\<close> is computed in \<open>int\<close>.\<close>

definition check_micros :: "int \<Rightarrow> int result" where
  "check_micros s =
     (if int_min \<le> s * 1000 * 1000 \<and> s * 1000 * 1000 \<le> int_max then Inr (s * 1000 * 1000)
      else Inl Int_Overflow)"

text \<open>The two clock readings are the calls of \<open>Timestamp::now\<close> in order.\<close>

definition new_timer_queue :: "int \<Rightarrow> timestamp \<Rightarrow> timestamp \<Rightarrow> timer_queue result" where
  "new_timer_queue checks now now2 =
     res_bind (check_micros checks) (\<lambda>us.
       Inr (resetTimerfd (addTime us now) now2
         \<lparr>timers = [], check_per_seconds = checks, armed = []\<rparr>))"

subsection \<open>The queue\<close>

fun expire_loop ::
    "(nat \<Rightarrow> 's \<Rightarrow> 's) \<Rightarrow> timestamp \<Rightarrow> (timestamp, nat) smap \<Rightarrow> 's \<Rightarrow> (timestamp, nat) smap \<times> 's" where
  "expire_loop run now [] s = ([], s)"
| "expire_loop run now ((t, r) # ts) s =
     (if t \<le> now then expire_loop run now ts (run r s) else ((t, r) # ts, s))"

definition tq_handleRead ::
    "(nat \<Rightarrow> 's \<Rightarrow> 's) \<Rightarrow> timestamp \<Rightarrow> timestamp \<Rightarrow> timer_queue \<Rightarrow> 's \<Rightarrow> (timer_queue \<times> 's) result" where
  "tq_handleRead run now now2 q s =
     (let (ts, s') = expire_loop run now (timers q) s
      in res_bind (check_micros (check_per_seconds q)) (\<lambda>us.
        Inr (resetTimerfd (addTime us now) now2 (q\<lparr>timers := ts\<rparr>), s')))"

definition addTimerInLoop :: "(nat \<Rightarrow> timer) \<Rightarrow> nat \<Rightarrow> timer_queue \<Rightarrow> timer_queue" where
  "addTimerInLoop heap r q =
     q\<lparr>timers := smap_insert (expiration (heap r)) r (timers q)\<rparr>"

definition deleteTimer :: "timestamp \<Rightarrow> timer_queue \<Rightarrow> timer_queue" where
  "deleteTimer t q =
     (if smap_find (timers q) t \<noteq> None then q\<lparr>timers := smap_erase t (timers q)\<rparr> else q)"

subsection \<open>Lemmas\<close>

definition tq_ok :: "timer_queue \<Rightarrow> bool" where
  "tq_ok q \<longleftrightarrow> smap_ok (timers q)"

lemma tq_ok_add: "tq_ok q \<Longrightarrow> tq_ok (addTimerInLoop heap r q)"
  by (simp add: tq_ok_def addTimerInLoop_def smap.ok_insert_new)

lemma tq_ok_delete: "tq_ok q \<Longrightarrow> tq_ok (deleteTimer t q)"
  by (simp add: tq_ok_def deleteTimer_def smap.ok_erase)

lemma expire_loop_eq:
  "expire_loop run now ts s =
    (dropWhile (\<lambda>e. fst e \<le> now) ts, fold run (map snd (takeWhile (\<lambda>e. fst e \<le> now) ts)) s)"
  by (induction run now ts s rule: expire_loop.induct) auto

lemma sorted_prefix_filter:
  assumes "smap_ok ts"
  shows "takeWhile (\<lambda>e. fst e \<le> now) ts = filter (\<lambda>e. fst e \<le> now) ts \<and>
    dropWhile (\<lambda>e. fst e \<le> now) ts = filter (\<lambda>e. now < fst e) ts"
  using assms
proof (induction ts)
  case Nil
  then show ?case by simp
next
  case (Cons e ts)
  from Cons.prems have "smap_ok ts" and above: "\<forall>x \<in> set ts. fst e < fst x"
    by (auto simp: smap_ok_def)
  with Cons.IH have IH: "takeWhile (\<lambda>e. fst e \<le> now) ts = filter (\<lambda>e. fst e \<le> now) ts"
      "dropWhile (\<lambda>e. fst e \<le> now) ts = filter (\<lambda>e. now < fst e) ts"
    by simp_all
  show ?case
  proof (cases "fst e \<le> now")
    case True
    with IH show ?thesis by (simp add: not_less)
  next
    case False
    then have "\<forall>x \<in> set ts. now < fst x" using above by fastforce
    then have "filter (\<lambda>e. fst e \<le> now) ts = []" "filter (\<lambda>e. now < fst e) ts = ts"
      by (auto simp: filter_empty_conv not_le)
    with False show ?thesis by simp
  qed
qed

lemma howMuch_range:
  assumes "howMuchTimeFromNow when now = (sec, nsec)"
  shows "0 \<le> sec \<and> 0 \<le> nsec \<and> nsec < 10 ^ 9 \<and>
    sec * 10 ^ 9 + nsec = 1000 * max 100 (wrap64 (microSeconds when - microSeconds now))"
proof -
  define us where "us = max 100 (wrap64 (microSeconds when - microSeconds now))"
  have pos: "100 \<le> us" by (simp add: us_def)
  have giga: "(10 :: int) ^ 9 = 1000000000" by simp
  have "sec = us div 1000000" and "nsec = (us mod 1000000) * 1000"
    using assms pos
    by (auto simp: howMuchTimeFromNow_def Let_def us_def kMicroSecondsPerSecond_def max_def
      signed_divide_int_def signed_modulo_int_def)
  moreover have "0 \<le> us div 1000000" and "0 \<le> us mod 1000000" and "us mod 1000000 < 1000000"
    and "us div 1000000 * 1000000 + us mod 1000000 = us"
    using pos by (simp_all add: pos_imp_zdiv_nonneg_iff)
  ultimately show ?thesis
    unfolding us_def [symmetric] giga by (intro conjI) linarith+
qed

subsection \<open>Properties\<close>

text \<open>
  C24: expiry. A tick of the timer queue runs the callbacks of exactly the timers whose time
  has come, each once, in order of their expiration times; it keeps exactly the timers that
  lie in the future, and arms the descriptor anew.
\<close>

theorem tq_handleRead_expires:
  assumes "tq_ok q" and "tq_handleRead run now now2 q s = Inr (q', s')"
  shows "s' = fold run (map snd (filter (\<lambda>e. fst e \<le> now) (timers q))) s \<and>
    timers q' = filter (\<lambda>e. now < fst e) (timers q) \<and> tq_ok q' \<and>
    sorted_wrt (<) (map fst (filter (\<lambda>e. fst e \<le> now) (timers q))) \<and>
    length (armed q') = Suc (length (armed q))"
proof -
  note split = sorted_prefix_filter [of "timers q" now]
  have "s' = fold run (map snd (filter (\<lambda>e. fst e \<le> now) (timers q))) s"
    and "timers q' = filter (\<lambda>e. now < fst e) (timers q)" and "length (armed q') = Suc (length (armed q))"
    using assms split
    by (auto simp: tq_handleRead_def expire_loop_eq res_simps resetTimerfd_def tq_ok_def)
  moreover have "sorted_wrt (<) (map fst (filter P (timers q)))" for P
    using assms(1) unfolding tq_ok_def smap_ok_def by (induction "timers q") (auto simp: sorted_wrt_map intro: sorted_wrt_filter)
  ultimately show ?thesis by (simp add: tq_ok_def smap_ok_def)
qed

theorem tq_handleRead_expires_witness:
  "\<exists>q'. tq_handleRead (\<lambda>r s. s @ [r]) (Timestamp 5) (Timestamp 6)
      \<lparr>timers = [(Timestamp 3, 7), (Timestamp 9, 8)], check_per_seconds = 3, armed = []\<rparr> [] =
      Inr (q', [7]) \<and> timers q' = [(Timestamp 9, 8)]"
proof -
  let ?q = "\<lparr>timers = [(Timestamp 3, 7), (Timestamp 9, 8)], check_per_seconds = 3, armed = []\<rparr> :: timer_queue"
  have ok: "tq_ok ?q" by (simp add: tq_ok_def smap_ok_def timestamp_less_iff)
  obtain q' s' where r: "tq_handleRead (\<lambda>r s. s @ [r]) (Timestamp 5) (Timestamp 6) ?q [] = Inr (q', s')"
    by (simp add: tq_handleRead_def check_micros_def timestamp_le_iff)
  from tq_handleRead_expires [OF ok r] r show ?thesis
    by (simp add: timestamp_le_iff timestamp_less_iff)
qed

text \<open>
  The time the descriptor is armed with. It is a valid \<open>timespec\<close>, it equals the distance
  to the requested time with a floor of 100 microseconds, and it is therefore never zero,
  which would disarm the timer.
\<close>

lemma howMuchTimeFromNow_valid:
  "let (sec, nsec) = howMuchTimeFromNow when now in
     0 \<le> sec \<and> 0 \<le> nsec \<and> nsec < 10 ^ 9 \<and>
     sec * 10 ^ 9 + nsec = 1000 * max 100 (wrap64 (microSeconds when - microSeconds now)) \<and>
     (sec, nsec) \<noteq> (0, 0)"
  using howMuch_range [of "when" now "fst (howMuchTimeFromNow when now)"
      "snd (howMuchTimeFromNow when now)"]
  by (auto simp: Let_def case_prod_beta)

text \<open>
  Two timers with the same expiration time collide. The second one is not entered, so it
  never expires, and deleting it by its time removes the first one instead.
\<close>

lemma addTimerInLoop_collision:
  assumes "tq_ok q" and "smap_find (timers q) (expiration (heap r1)) = None"
    and "expiration (heap r2) = expiration (heap r1)"
  shows "addTimerInLoop heap r2 (addTimerInLoop heap r1 q) = addTimerInLoop heap r1 q \<and>
    smap_find (timers (deleteTimer (expiration (heap r2)) (addTimerInLoop heap r2 (addTimerInLoop heap r1 q)))) =
      smap_find (timers q)"
proof -
  let ?t = "expiration (heap r1)" and ?q1 = "addTimerInLoop heap r1 q"
  have found: "smap_find (timers ?q1) ?t = Some r1"
    using assms(1,2) by (simp add: addTimerInLoop_def tq_ok_def smap.find_insert_new)
  then have same: "addTimerInLoop heap r2 ?q1 = ?q1"
    using assms(3) by (simp add: addTimerInLoop_def [of heap r2] smap_insert_def)
  have "smap_find (smap_erase ?t (smap_insert ?t r1 (timers q))) = smap_find (timers q)"
    using assms(1,2) by (intro smap.find_erase_insert) (simp_all add: tq_ok_def)
  with found show ?thesis
    unfolding same assms(3) by (simp add: deleteTimer_def) (simp add: addTimerInLoop_def)
qed

lemma addTimerInLoop_collision_witness:
  "addTimerInLoop (\<lambda>_. new_timer (Timestamp 5) 1) 2
     (addTimerInLoop (\<lambda>_. new_timer (Timestamp 5) 1) 1 \<lparr>timers = [], check_per_seconds = 3, armed = []\<rparr>) =
   addTimerInLoop (\<lambda>_. new_timer (Timestamp 5) 1) 1 \<lparr>timers = [], check_per_seconds = 3, armed = []\<rparr>"
  using addTimerInLoop_collision [of "\<lparr>timers = [], check_per_seconds = 3, armed = []\<rparr>"
      "\<lambda>_. new_timer (Timestamp 5) 1" 1 2]
  by (simp add: tq_ok_def)

end
