(* ===== verification/TcpConnection.thy ===== *)
theory TcpConnection
  imports Buffer Epoll TimerQueue
begin

text \<open>
  \<open>net/TcpConnection.h\<close> and \<open>net/TcpConnection.cc\<close>: a connection owns two buffers and a
  channel. The connection is a record; what it does to the rest of the process and to the
  kernel is the record \<open>conn_io\<close>: the poller it registers with, the bytes \<open>write\<close> has
  accepted, whether \<open>shutdown\<close> was called, the connections handed to the close callback and
  the descriptors closed. The record is extensible, so that a server built on connections
  adds its own state.

  The kernel's answers are inputs. \<open>io_writes\<close> lists the answers of the coming \<open>write\<close>
  calls, the answers of \<open>read\<close> are an argument of \<open>handleRead\<close>; a call that would need
  another answer is \<open>Diverges\<close>. The message callback is an argument as well.
\<close>

datatype errno = EAGAIN | EOTHER
datatype write_res = Wrote nat | Write_Failed errno
datatype read_res = Data string | Read_Failed errno

datatype conn_state = kdisconnected | kconnected | kshutdown

record 'x tcp_connection =
  connID :: int
  conn_fd :: int
  writeBuffer :: buffer
  readBuffer :: buffer
  peername :: string
  conn_channel :: channel
  conn_mode :: int             \<comment> \<open>1 is level-triggered, 2 is edge-triggered\<close>
  conn_context :: 'x           \<comment> \<open>\<open>boost::any context\<close>\<close>
  visited :: timestamp
  conn_state :: conn_state
  conn_timer :: "nat option"   \<comment> \<open>the shared timer, empty after \<open>stopTimer\<close>\<close>

record conn_io =
  io_poll :: epoll
  io_writes :: "write_res list"
  io_sent :: string
  io_fin :: bool
  io_removals :: "int list"    \<comment> \<open>calls of the close callback\<close>
  io_closed :: "int list"      \<comment> \<open>descriptors given to \<open>close\<close>\<close>

definition initBufSize :: nat where "initBufSize = 1024"

definition new_connection ::
    "int \<Rightarrow> int \<Rightarrow> int \<Rightarrow> string \<Rightarrow> int \<Rightarrow> nat option \<Rightarrow> 'x \<Rightarrow> 'x tcp_connection" where
  "new_connection p fd mode peer ident timer ctx =
     \<lparr>connID = ident, conn_fd = fd, writeBuffer = buf_new initBufSize,
      readBuffer = buf_new initBufSize, peername = peer,
      conn_channel = setHandleWrite (setHandleRead (new_channel p fd)),
      conn_mode = mode, conn_context = ctx, visited = Timestamp long_max,
      conn_state = kconnected, conn_timer = timer\<rparr>"

text \<open>The destructor.\<close>

definition conn_destroy :: "'x tcp_connection \<Rightarrow> 'w conn_io_scheme \<Rightarrow> 'w conn_io_scheme" where
  "conn_destroy c io = io\<lparr>io_closed := io_closed io @ [conn_fd c]\<rparr>"

text \<open>An operation of \<open>Channel\<close> on the channel of the connection.\<close>

definition on_channel ::
    "(channel \<Rightarrow> epoll \<Rightarrow> channel \<times> epoll) \<Rightarrow> 'x tcp_connection \<Rightarrow> 'w conn_io_scheme \<Rightarrow>
      'x tcp_connection \<times> 'w conn_io_scheme" where
  "on_channel op c io =
     (let (ch, ep) = op (conn_channel c) (io_poll io)
      in (c\<lparr>conn_channel := ch\<rparr>, io\<lparr>io_poll := ep\<rparr>))"

definition connectEstablished ::
    "'x tcp_connection \<Rightarrow> 'w conn_io_scheme \<Rightarrow> 'x tcp_connection \<times> 'w conn_io_scheme" where
  "connectEstablished c io =
     (let (c1, io1) = (if conn_mode c = 2 then on_channel enableET c io else (c, io))
      in on_channel enableReading c1 io1)"

definition handleClose ::
    "'x tcp_connection \<Rightarrow> 'w conn_io_scheme \<Rightarrow> 'x tcp_connection \<times> 'w conn_io_scheme" where
  "handleClose c io =
     (let (c1, io1) = on_channel disableAll c io
      in (c1\<lparr>conn_state := kdisconnected\<rparr>, io1\<lparr>io_removals := io_removals io1 @ [connID c1]\<rparr>))"

definition stopTimer :: "'x tcp_connection \<Rightarrow> 'x tcp_connection" where
  "stopTimer c = c\<lparr>conn_timer := None\<rparr>"

text \<open>Accessors.\<close>

definition getName :: "'x tcp_connection \<Rightarrow> string" where
  [simp]: "getName c = peername c"

definition getID :: "'x tcp_connection \<Rightarrow> int" where
  [simp]: "getID c = connID c"

definition getTimer :: "'x tcp_connection \<Rightarrow> nat option" where
  [simp]: "getTimer c = conn_timer c"

definition setContext :: "'x \<Rightarrow> 'x tcp_connection \<Rightarrow> 'x tcp_connection" where
  [simp]: "setContext ctx c = c\<lparr>conn_context := ctx\<rparr>"

subsection \<open>Reading\<close>

type_synonym ('x, 'w) conn_result = "('x tcp_connection \<times> 'w conn_io_scheme) result"
type_synonym ('x, 'w) message_callback =
  "'x tcp_connection \<Rightarrow> 'w conn_io_scheme \<Rightarrow> ('x, 'w) conn_result"

definition resize_if_full :: "int \<Rightarrow> buffer \<Rightarrow> buffer result" where
  "resize_if_full n b = (if n = writableBytes b then resize b else Inr b)"

text \<open>
  The bytes \<open>read\<close> has put at \<open>beginWrite()\<close>, and what both branches of \<open>handleRead\<close> then do
  with a count that is positive.
\<close>

definition read_in :: "string \<Rightarrow> buffer \<Rightarrow> buffer result" where
  "read_in s b =
     res_bind (write_range b (writeIndex b) s) (\<lambda>b1.
     res_bind (resize_if_full (int (length s)) b1) (\<lambda>b2.
     Inr (addWriteIndex (int (length s)) b2)))"

definition handleRead_LT ::
    "('x, 'w) message_callback \<Rightarrow> read_res \<Rightarrow> 'x tcp_connection \<Rightarrow> 'w conn_io_scheme \<Rightarrow>
      ('x, 'w) conn_result" where
  "handleRead_LT readCallback answer c io =
     (case answer of
        Data s \<Rightarrow>
          if s = [] then Inr (handleClose c io)
          else res_bind (read_in s (readBuffer c)) (\<lambda>b. readCallback (c\<lparr>readBuffer := b\<rparr>) io)
      | Read_Failed e \<Rightarrow>
          res_bind (resize_if_full (- 1) (readBuffer c)) (\<lambda>b. readCallback (c\<lparr>readBuffer := b\<rparr>) io))"

text \<open>
  The loop of the edge-triggered branch. A failure other than \<open>EAGAIN\<close> goes on with a count
  of -1.
\<close>

fun handleRead_ET ::
    "('x, 'w) message_callback \<Rightarrow> read_res list \<Rightarrow> 'x tcp_connection \<Rightarrow> 'w conn_io_scheme \<Rightarrow>
      ('x, 'w) conn_result" where
  "handleRead_ET readCallback [] c io = Inl Diverges"
| "handleRead_ET readCallback (Data s # as) c io =
     (if s = [] then Inr (handleClose c io)
      else res_bind (read_in s (readBuffer c)) (\<lambda>b.
        handleRead_ET readCallback as (c\<lparr>readBuffer := b\<rparr>) io))"
| "handleRead_ET readCallback (Read_Failed EAGAIN # as) c io = readCallback c io"
| "handleRead_ET readCallback (Read_Failed EOTHER # as) c io =
     res_bind (resize_if_full (- 1) (readBuffer c)) (\<lambda>b.
       handleRead_ET readCallback as (c\<lparr>readBuffer := addWriteIndex (- 1) b\<rparr>) io)"

definition handleRead ::
    "('x, 'w) message_callback \<Rightarrow> timestamp \<Rightarrow> read_res list \<Rightarrow> 'x tcp_connection \<Rightarrow>
      'w conn_io_scheme \<Rightarrow> ('x, 'w) conn_result" where
  "handleRead readCallback now answers c io =
     (let c1 = c\<lparr>visited := now\<rparr>
      in if conn_mode c = 1
         then (case answers of
                 [] \<Rightarrow> Inl Diverges
               | a # as \<Rightarrow> handleRead_LT readCallback a c1 io)
         else handleRead_ET readCallback answers c1 io)"

subsection \<open>Writing\<close>

text \<open>\<open>write\<close> of the given bytes: how many of them the kernel takes, or the error.\<close>

definition sys_write :: "string \<Rightarrow> 'w conn_io_scheme \<Rightarrow> ((errno + nat) \<times> 'w conn_io_scheme) result" where
  "sys_write s io =
     (case io_writes io of
        [] \<Rightarrow> Inl Diverges
      | Wrote n # as \<Rightarrow>
          let k = min n (length s)
          in Inr (Inr k, io\<lparr>io_writes := as, io_sent := io_sent io @ take k s\<rparr>)
      | Write_Failed e # as \<Rightarrow> Inr (Inl e, io\<lparr>io_writes := as\<rparr>))"

definition write_buffer :: "'x tcp_connection \<Rightarrow> 'w conn_io_scheme \<Rightarrow>
    ((errno + nat) \<times> 'w conn_io_scheme) result" where
  "write_buffer c io =
     res_bind (read_range (writeBuffer c) (readIndex (writeBuffer c)) (writeIndex (writeBuffer c)))
       (\<lambda>s. sys_write s io)"

definition consume :: "int \<Rightarrow> 'x tcp_connection \<Rightarrow> 'x tcp_connection" where
  "consume n c = c\<lparr>writeBuffer := addReadIndex n (writeBuffer c)\<rparr>"

definition handleWrite_LT :: "('x, 'w) message_callback" where
  "handleWrite_LT c io =
     res_bind (write_buffer c io) (\<lambda>(r, io1).
       case r of
         Inl e \<Rightarrow> Inr (c, io1)
       | Inr n \<Rightarrow>
           if n > 0 then
             let (c2, io2) = (if int n = readableBytes (writeBuffer c)
                              then on_channel disableWriting c io1 else (c, io1))
             in Inr (consume (int n) c2, io2)
           else Inr (c, io1))"

text \<open>The loop of the edge-triggered branch, once round for each answer of \<open>write\<close>.\<close>

fun write_loop :: "nat \<Rightarrow> int \<Rightarrow> ('x, 'w) message_callback" where
  "write_loop 0 bytes_to_send c io = Inl Diverges"
| "write_loop (Suc fuel) bytes_to_send c io =
     res_bind (write_buffer c io) (\<lambda>(r, io1).
       if r = Inl EAGAIN then Inr (on_channel enableWriting c io1)
       else let n = (case r of Inl e \<Rightarrow> - 1 | Inr k \<Rightarrow> int k)
            in if bytes_to_send - n = 0 then Inr (consume n c, io1)
               else write_loop fuel (bytes_to_send - n) (consume n c) io1)"

definition handleWrite :: "('x, 'w) message_callback" where
  "handleWrite c io =
     (if conn_mode c = 1 then handleWrite_LT c io
      else write_loop (length (io_writes io)) (readableBytes (writeBuffer c)) c io)"

definition send :: "string \<Rightarrow> ('x, 'w) message_callback" where
  "send s c io =
     res_bind
       (if readableBytes (writeBuffer c) = 0
        then res_map (\<lambda>(r, io1). (case r of Inl e \<Rightarrow> 0 | Inr n \<Rightarrow> n, io1)) (sys_write s io)
        else Inr (0, io))
       (\<lambda>(nwrote, io1).
         if nwrote < length s
         then res_bind (buf_append (drop nwrote s) (writeBuffer c)) (\<lambda>wb.
           Inr (on_channel enableWriting (c\<lparr>writeBuffer := wb\<rparr>) io1))
         else Inr (c, io1))"

text \<open>
  The condition of \<open>shutdownWrite\<close> is an assignment, \<open>state_=kconnected\<close>, whose value is
  never zero.
\<close>

definition shutdownWrite ::
    "'x tcp_connection \<Rightarrow> 'w conn_io_scheme \<Rightarrow> 'x tcp_connection \<times> 'w conn_io_scheme" where
  "shutdownWrite c io =
     (let c1 = c\<lparr>conn_state := kconnected\<rparr>
      in (c1\<lparr>conn_state := kshutdown\<rparr>, io\<lparr>io_fin := True\<rparr>))"

subsection \<open>The idle timer\<close>

text \<open>
  \<open>handleTimer\<close>: the result lists the timers that are queued to be added again. The
  difference of the two times is a \<open>long\<close> that becomes a \<open>double\<close>; the rounding is monotone
  and exact for the interval, so the comparison is that of the integers.
\<close>

definition handleTimer ::
    "timestamp \<Rightarrow> 'x tcp_connection \<Rightarrow> 'w conn_io_scheme \<Rightarrow> (nat \<Rightarrow> timer) \<Rightarrow>
      'x tcp_connection \<times> 'w conn_io_scheme \<times> (nat \<Rightarrow> timer) \<times> nat list" where
  "handleTimer now c io heap =
     (let remain = wrap64 (microSeconds now - microSeconds (visited c))
      in case conn_timer c of
           None \<Rightarrow> (c, io, heap, [])
         | Some r \<Rightarrow>
             if remain < getInterval (heap r) \<or> readableBytes (writeBuffer c) > 0
             then (c, io, heap(r := restart (addTime (getInterval (heap r)) (visited c)) (heap r)), [r])
             else let (c1, io1) = shutdownWrite c io in (c1, io1, heap, []))"

subsection \<open>The outgoing stream\<close>

text \<open>
  The connection is registered, its write buffer is well-formed, and it waits for EPOLLOUT
  exactly while it holds unsent bytes.
\<close>

definition registered :: "'x tcp_connection \<Rightarrow> 'w conn_io_scheme \<Rightarrow> bool" where
  "registered c io \<longleftrightarrow> epoll_ok (io_poll io) \<and> chan_ok (conn_channel c) (io_poll io) \<and>
     watching (io_poll io) (chan_fd (conn_channel c)) = Some (chan_events (conn_channel c))"

definition wants_write :: "'x tcp_connection \<Rightarrow> bool" where
  "wants_write c \<longleftrightarrow> bit (chan_events (conn_channel c)) 2"

definition out_ok :: "'x tcp_connection \<Rightarrow> 'w conn_io_scheme \<Rightarrow> bool" where
  "out_ok c io \<longleftrightarrow> registered c io \<and> buf_ok (writeBuffer c) \<and>
     (wants_write c \<longleftrightarrow> contents (writeBuffer c) \<noteq> [])"

definition outgoing :: "'x tcp_connection \<Rightarrow> 'w conn_io_scheme \<Rightarrow> string" where
  "outgoing c io = io_sent io @ contents (writeBuffer c)"

lemma on_channel_registers:
  assumes "epoll_ok (io_poll io)" and "chan_ok (conn_channel c) (io_poll io)"
    and "on_channel (update_mask f) c io = (c', io')"
  shows "registered c' io' \<and> c' = c\<lparr>conn_channel := conn_channel c'\<rparr> \<and>
    io' = io\<lparr>io_poll := io_poll io'\<rparr> \<and> writeBuffer c' = writeBuffer c \<and>
    conn_mode c' = conn_mode c \<and> io_sent io' = io_sent io \<and> io_writes io' = io_writes io \<and>
    chan_events (conn_channel c') = f (chan_events (conn_channel c)) \<and>
    chan_fd (conn_channel c') = chan_fd (conn_channel c)"
proof -
  obtain ch ep where up: "update_mask f (conn_channel c) (io_poll io) = (ch, ep)" by fastforce
  then show ?thesis
    using assms reg.update_ok [of "io_poll io" "conn_channel c" f ch ep]
    by (auto simp: registered_def on_channel_def)
qed

lemma on_channel_update:
  assumes "registered c io" and "on_channel (update_mask f) c io = (c', io')"
  shows "registered c' io' \<and> writeBuffer c' = writeBuffer c \<and>
    conn_mode c' = conn_mode c \<and> io_sent io' = io_sent io \<and> io_writes io' = io_writes io \<and>
    chan_events (conn_channel c') = f (chan_events (conn_channel c))"
proof -
  have "epoll_ok (io_poll io)" and "chan_ok (conn_channel c) (io_poll io)"
    using assms(1) by (simp_all add: registered_def)
  from on_channel_registers [OF this assms(2)] show ?thesis by blast
qed

lemma registered_added:
  assumes "registered c io"
  shows "chan_index (conn_channel c) = kAdded"
proof (rule ccontr)
  let ?fd = "chan_fd (conn_channel c)"
  assume "chan_index (conn_channel c) \<noteq> kAdded"
  then have none: "smap_find (ep_channels (io_poll io)) ?fd = None"
    using assms by (auto simp: registered_def chan_ok_def)
  have "epoll_ok (io_poll io)" using assms by (simp add: registered_def)
  then obtain k where "replay (ep_ctls (io_poll io)) = Some k"
      "\<forall>fd. smap_find (ep_channels (io_poll io)) fd = map_option snd (k fd)"
    by (rule epoll_okE)
  with none have "watching (io_poll io) ?fd = None"
    by (metis map_option_is_None option.simps(5) watching_def)
  then show False using assms by (simp add: registered_def)
qed

lemma bit_writeEvent_or: "bit (m OR writeEvent) 2"
  by (simp add: bit_or_iff bit_writeEvent)

lemma bit_writeEvent_and: "\<not> bit (m AND NOT writeEvent) 2"
  by (simp add: bit_and_iff bit_not_iff bit_writeEvent)

lemma connectEstablished_ok:
  assumes "epoll_ok (io_poll io)" and "smap_find (ep_channels (io_poll io)) fd = None"
    and "connectEstablished (new_connection p fd mode peer ident timer ctx) io = (c', io')"
  shows "registered c' io' \<and> conn_mode c' = mode \<and> io_sent io' = io_sent io \<and>
    io_writes io' = io_writes io \<and> writeBuffer c' = buf_new initBufSize \<and>
    chan_fd (conn_channel c') = fd \<and>
    chan_events (conn_channel c') = (if mode = 2 then EPOLLET else 0) OR readEvent"
proof -
  let ?c = "new_connection p fd mode peer ident timer ctx"
  have ok: "chan_ok (conn_channel ?c) (io_poll io)"
    using assms(2) by (simp add: new_connection_def new_channel_def chan_ok_def)
  have "conn_mode ?c = mode" by (simp add: new_connection_def)
  obtain c1 io1 where one: "(if mode = 2 then on_channel enableET ?c io else (?c, io)) = (c1, io1)"
    by fastforce
  have mid: "epoll_ok (io_poll io1) \<and> chan_ok (conn_channel c1) (io_poll io1) \<and>
      conn_mode c1 = mode \<and> io_sent io1 = io_sent io \<and> io_writes io1 = io_writes io \<and>
      writeBuffer c1 = buf_new initBufSize \<and> chan_fd (conn_channel c1) = fd \<and>
      chan_events (conn_channel c1) = (if mode = 2 then EPOLLET else 0)"
  proof (cases "mode = 2")
    case True
    then show ?thesis
      using on_channel_registers [OF assms(1) ok, of "\<lambda>m. m OR EPOLLET" c1 io1] one
      by (simp add: enable_as_update registered_def new_connection_def new_channel_def)
  next
    case False
    then show ?thesis
      using one ok assms(1) by (auto simp: new_connection_def new_channel_def)
  qed
  have two: "on_channel enableReading c1 io1 = (c', io')"
    using assms(3) one unfolding connectEstablished_def \<open>conn_mode ?c = mode\<close>
    by (simp only: Let_def prod.case)
  show ?thesis
    using on_channel_registers [of io1 c1 "\<lambda>m. m OR readEvent" c' io'] mid two
    by (simp add: enable_as_update)
qed

lemma registered_simps [simp]:
  "registered (c\<lparr>writeBuffer := b\<rparr>) io = registered c io"
  "registered (c\<lparr>readBuffer := b\<rparr>) io = registered c io"
  "registered (c\<lparr>visited := t\<rparr>) io = registered c io"
  "registered c (io\<lparr>io_writes := as\<rparr>) = registered c io"
  "registered c (io\<lparr>io_sent := s\<rparr>) = registered c io"
  by (simp_all add: registered_def)

lemma contents_addReadIndex:
  assumes "buf_ok b" and "n \<le> length (contents b)"
  shows "buf_ok (addReadIndex (int n) b) \<and> contents (addReadIndex (int n) b) = drop n (contents b) \<and>
    writeIndex (addReadIndex (int n) b) = writeIndex b \<and>
    buf_size (addReadIndex (int n) b) = buf_size b"
proof -
  obtain d r w where b: "b = \<lparr>buf_data = d, readIndex = int r, writeIndex = int w\<rparr>"
      and rw: "r \<le> w" "w \<le> length d"
    using assms(1) by (rule buf_okE)
  have "r + n \<le> w"
    using assms(2) rw by (simp add: b contents_def slice_simps)
  with rw show ?thesis
    by (simp add: b addReadIndex_def buf_ok_def buf_size_def contents_def drop_slice nat_int_add)
qed

lemma write_buffer_ok: "buf_ok (writeBuffer c) \<Longrightarrow> write_buffer c io = sys_write (contents (writeBuffer c)) io"
  by (simp add: write_buffer_def read_range_contents)

lemma readableBytes_contents: "buf_ok b \<Longrightarrow> readableBytes b = int (length (contents b))"
  by (simp add: length_contents)

lemma handleWrite_LT_ok:
  assumes "out_ok c io" and "io_writes io = a # as"
  shows "\<exists>c' io'. handleWrite_LT c io = Inr (c', io') \<and> out_ok c' io' \<and>
    outgoing c' io' = outgoing c io \<and> io_writes io' = as \<and> conn_mode c' = conn_mode c \<and>
    writeIndex (writeBuffer c') = writeIndex (writeBuffer c) \<and>
    buf_size (writeBuffer c') = buf_size (writeBuffer c) \<and>
    contents (writeBuffer c') =
      drop (case a of Wrote n \<Rightarrow> n | Write_Failed e \<Rightarrow> 0) (contents (writeBuffer c))"
proof -
  have ok: "buf_ok (writeBuffer c)" and reg: "registered c io"
    and want: "wants_write c \<longleftrightarrow> contents (writeBuffer c) \<noteq> []"
    using assms(1) by (auto simp: out_ok_def)
  let ?s = "contents (writeBuffer c)"
  show ?thesis
  proof (cases a)
    case (Write_Failed e)
    then have "handleWrite_LT c io = Inr (c, io\<lparr>io_writes := as\<rparr>)"
      using assms(2) by (simp add: handleWrite_LT_def write_buffer_ok [OF ok] sys_write_def)
    then show ?thesis
      using assms(1) Write_Failed by (simp add: out_ok_def outgoing_def)
  next
    case (Wrote n)
    define k where "k = min n (length ?s)"
    let ?io1 = "io\<lparr>io_writes := as, io_sent := io_sent io @ take k ?s\<rparr>"
    have w: "write_buffer c io = Inr (Inr k, ?io1)"
      using assms(2) Wrote by (simp add: write_buffer_ok [OF ok] sys_write_def k_def Let_def)
    have dk: "drop n ?s = drop k ?s" by (simp add: k_def min_def)
    note adv = contents_addReadIndex [OF ok, of k]
    consider "k = 0" | "0 < k" "k = length ?s" | "0 < k" "k < length ?s"
      unfolding k_def by linarith
    then show ?thesis
    proof cases
      case 1
      then have "handleWrite_LT c io = Inr (c, ?io1)"
        by (simp add: handleWrite_LT_def w)
      with 1 show ?thesis
        using assms(1) dk Wrote by (simp add: out_ok_def outgoing_def)
    next
      case 2
      obtain c2 io2 where off: "on_channel disableWriting c ?io1 = (c2, io2)" by fastforce
      have "handleWrite_LT c io = Inr (consume (int k) c2, io2)"
        using 2 off by (simp add: handleWrite_LT_def w readableBytes_contents [OF ok])
      moreover have "registered c2 io2 \<and> writeBuffer c2 = writeBuffer c \<and>
          conn_mode c2 = conn_mode c \<and> io_sent io2 = io_sent io @ take k ?s \<and>
          io_writes io2 = as \<and>
          chan_events (conn_channel c2) = chan_events (conn_channel c) AND NOT writeEvent"
        using on_channel_update [of c ?io1 "\<lambda>m. m AND NOT writeEvent" c2 io2] off reg
        by (simp add: enable_as_update)
      ultimately show ?thesis
        using adv 2 dk Wrote
        by (simp add: out_ok_def outgoing_def consume_def wants_write_def bit_writeEvent_and)
    next
      case 3
      then have "handleWrite_LT c io = Inr (consume (int k) c, ?io1)"
        by (simp add: handleWrite_LT_def w readableBytes_contents [OF ok])
      then show ?thesis
        using adv 3 dk Wrote assms(1)
        by (auto simp: out_ok_def outgoing_def consume_def wants_write_def)
    qed
  qed
qed

text \<open>The callees of \<open>send\<close>: the direct write, and the append of the rest.\<close>

lemma send_append_ok:
  assumes "registered c io" and "buf_ok (writeBuffer c)" and "buf_room (writeBuffer c) (length s)"
    and "s \<noteq> []"
  shows "\<exists>wb c' io'. buf_append s (writeBuffer c) = Inr wb \<and>
    on_channel enableWriting (c\<lparr>writeBuffer := wb\<rparr>) io = (c', io') \<and> out_ok c' io' \<and>
    contents (writeBuffer c') = contents (writeBuffer c) @ s \<and> conn_mode c' = conn_mode c \<and>
    io_sent io' = io_sent io \<and> io_writes io' = io_writes io \<and>
    readIndex (writeBuffer c') = readIndex (writeBuffer c) \<and>
    writeIndex (writeBuffer c') = writeIndex (writeBuffer c) + int (length s) \<and>
    buf_size (writeBuffer c) \<le> buf_size (writeBuffer c')"
proof -
  obtain wb where wb: "buf_append s (writeBuffer c) = Inr wb" "buf_ok wb"
      "contents wb = contents (writeBuffer c) @ s" "readIndex wb = readIndex (writeBuffer c)"
      "writeIndex wb = writeIndex (writeBuffer c) + int (length s)"
      "buf_size (writeBuffer c) \<le> buf_size wb"
    using buf_append_room [OF assms(2,3)] by blast
  obtain c' io' where on: "on_channel enableWriting (c\<lparr>writeBuffer := wb\<rparr>) io = (c', io')"
    by fastforce
  have "registered c' io' \<and> writeBuffer c' = wb \<and> conn_mode c' = conn_mode c \<and>
      io_sent io' = io_sent io \<and> io_writes io' = io_writes io \<and>
      chan_events (conn_channel c') = chan_events (conn_channel c) OR writeEvent"
    using on_channel_update [of "c\<lparr>writeBuffer := wb\<rparr>" io "\<lambda>m. m OR writeEvent" c' io'] on assms(1)
    by (simp add: enable_as_update)
  then show ?thesis
    using wb on assms(4) by (auto simp: out_ok_def wants_write_def bit_writeEvent_or)
qed

lemma send_queued:
  assumes "out_ok c io" and "contents (writeBuffer c) \<noteq> []" and "buf_room (writeBuffer c) (length s)"
  shows "\<exists>c' io'. send s c io = Inr (c', io') \<and> out_ok c' io' \<and>
    outgoing c' io' = outgoing c io @ s \<and> conn_mode c' = conn_mode c \<and>
    io_writes io' = io_writes io \<and> readIndex (writeBuffer c') = readIndex (writeBuffer c) \<and>
    writeIndex (writeBuffer c') \<le> writeIndex (writeBuffer c) + int (length s) \<and>
    buf_size (writeBuffer c) \<le> buf_size (writeBuffer c')"
proof -
  have ok: "buf_ok (writeBuffer c)" and reg: "registered c io"
    using assms(1) by (auto simp: out_ok_def)
  have "readableBytes (writeBuffer c) \<noteq> 0"
    using assms(2) by (simp add: readableBytes_contents [OF ok])
  then show ?thesis
    using send_append_ok [OF reg ok assms(3)] assms(1)
    by (cases "s = []") (auto simp: send_def outgoing_def)
qed

lemma send_direct:
  assumes "out_ok c io" and "contents (writeBuffer c) = []" and "buf_room (writeBuffer c) (length s)"
    and "io_writes io = a # as"
  shows "\<exists>c' io'. send s c io = Inr (c', io') \<and> out_ok c' io' \<and>
    outgoing c' io' = outgoing c io @ s \<and> conn_mode c' = conn_mode c \<and> io_writes io' = as \<and>
    length (contents (writeBuffer c')) \<le> length s \<and>
    readIndex (writeBuffer c') = readIndex (writeBuffer c) \<and>
    writeIndex (writeBuffer c') \<le> writeIndex (writeBuffer c) + int (length s) \<and>
    buf_size (writeBuffer c) \<le> buf_size (writeBuffer c')"
proof -
  have ok: "buf_ok (writeBuffer c)" and reg: "registered c io"
    using assms(1) by (auto simp: out_ok_def)
  define k where "k = (case a of Wrote n \<Rightarrow> min n (length s) | Write_Failed e \<Rightarrow> 0)"
  let ?io1 = "io\<lparr>io_writes := as, io_sent := io_sent io @ take k s\<rparr>"
  have kle: "k \<le> length s" by (simp add: k_def split: write_res.splits)
  have direct: "send s c io =
      (if k < length s
       then res_bind (buf_append (drop k s) (writeBuffer c)) (\<lambda>wb.
         Inr (on_channel enableWriting (c\<lparr>writeBuffer := wb\<rparr>) ?io1))
       else Inr (c, ?io1))"
    using assms(2,4) readableBytes_contents [OF ok]
    by (cases a) (simp_all add: send_def sys_write_def k_def Let_def)
  show ?thesis
  proof (cases "k < length s")
    case False
    with kle have "k = length s" by simp
    with assms(1,2) show ?thesis
      unfolding direct by (simp add: out_ok_def outgoing_def wants_write_def)
  next
    case True
    have room: "buf_room (writeBuffer c) (length (drop k s))"
      using assms(3) buf_room_less [of "writeBuffer c" "length (drop k s)" k] kle by simp
    have "registered c ?io1" using reg by simp
    from send_append_ok [OF this ok room] True show ?thesis
      unfolding direct using assms(2) by (auto simp: outgoing_def)
  qed
qed

text \<open>What \<open>send\<close> leaves alone.\<close>

lemma on_channel_frame:
  "on_channel f c io = (c', io') \<Longrightarrow> conn_context c' = conn_context c \<and> readBuffer c' = readBuffer c \<and>
    io_fin io' = io_fin io \<and> conn_io.more io' = conn_io.more io"
  by (auto simp: on_channel_def Let_def split: prod.splits)

lemma connectEstablished_frame:
  "connectEstablished c io = (c', io') \<Longrightarrow> conn_context c' = conn_context c \<and>
    readBuffer c' = readBuffer c \<and> io_fin io' = io_fin io \<and> conn_io.more io' = conn_io.more io"
  by (auto simp: connectEstablished_def on_channel_def Let_def split: prod.splits if_splits)

lemma sys_write_frame:
  "sys_write s io = Inr (r, io1) \<Longrightarrow> io_fin io1 = io_fin io \<and> conn_io.more io1 = conn_io.more io"
  by (auto simp: sys_write_def Let_def split: list.splits write_res.splits)

lemma send_whole:
  assumes "readableBytes (writeBuffer c) = 0" and "io_writes io = Wrote n # as" and "length s \<le> n"
  shows "send s c io = Inr (c, io\<lparr>io_writes := as, io_sent := io_sent io @ s\<rparr>)"
  using assms by (simp add: send_def sys_write_def min_def)
lemma send_frame:
  assumes "send s c io = Inr (c', io')"
  shows "conn_context c' = conn_context c \<and> readBuffer c' = readBuffer c \<and> io_fin io' = io_fin io \<and>
    conn_io.more io' = conn_io.more io"
proof -
  let ?first = "if readableBytes (writeBuffer c) = 0
    then res_map (\<lambda>(r, io1). (case r of Inl e \<Rightarrow> 0 | Inr n \<Rightarrow> n, io1)) (sys_write s io)
    else Inr (0, io)"
  obtain n io1 where first: "?first = Inr (n, io1)"
    using assms by (cases ?first) (auto simp: send_def)
  then have io1: "io_fin io1 = io_fin io \<and> conn_io.more io1 = conn_io.more io"
    by (auto simp: res_simps dest: sys_write_frame split: if_splits)
  have rest: "(if n < length s then res_bind (buf_append (drop n s) (writeBuffer c))
      (\<lambda>wb. Inr (on_channel enableWriting (c\<lparr>writeBuffer := wb\<rparr>) io1)) else Inr (c, io1)) = Inr (c', io')"
    using assms unfolding send_def first by simp
  then show ?thesis
    using io1 by (cases "n < length s") (auto simp: res_simps dest!: on_channel_frame)
qed

text \<open>What a program does with the outgoing side: it sends, and the poller reports EPOLLOUT.\<close>

datatype out_event = Send string | Writable

fun sent_text :: "out_event \<Rightarrow> string" where
  "sent_text (Send s) = s"
| "sent_text Writable = []"

fun out_run :: "out_event list \<Rightarrow> ('x, 'w) message_callback" where
  "out_run [] c io = Inr (c, io)"
| "out_run (Send s # es) c io = res_bind (send s c io) (\<lambda>(c1, io1). out_run es c1 io1)"
| "out_run (Writable # es) c io = res_bind (handleWrite c io) (\<lambda>(c1, io1). out_run es c1 io1)"

lemma out_step:
  assumes "out_ok c io" and "conn_mode c = 1"
    and "writeIndex (writeBuffer c) + int (length (sent_text e)) \<le> buf_size (writeBuffer c)"
    and "Suc n \<le> length (io_writes io)"
  shows "\<exists>c' io'. out_run [e] c io = Inr (c', io') \<and> out_ok c' io' \<and> conn_mode c' = 1 \<and>
    outgoing c' io' = outgoing c io @ sent_text e \<and> n \<le> length (io_writes io') \<and>
    writeIndex (writeBuffer c') \<le> writeIndex (writeBuffer c) + int (length (sent_text e)) \<and>
    buf_size (writeBuffer c) \<le> buf_size (writeBuffer c')"
proof -
  obtain a as where as: "io_writes io = a # as" using assms(4) by (cases "io_writes io") auto
  show ?thesis
  proof (cases e)
    case (Send s)
    then have room: "buf_room (writeBuffer c) (length s)"
      using assms(3) by (simp add: buf_room_def)
    show ?thesis
      using send_queued [OF assms(1) _ room] send_direct [OF assms(1) _ room as] Send assms(2,4) as
      by (cases "contents (writeBuffer c) = []") fastforce+
  next
    case Writable
    then show ?thesis
      using handleWrite_LT_ok [OF assms(1) as] assms(2,4) as by (auto simp: handleWrite_def)
  qed
qed

lemma out_run_Cons: "out_run (e # es) c io = res_bind (out_run [e] c io) (\<lambda>(c1, io1). out_run es c1 io1)"
  by (cases e; cases "send (sent_text e) c io"; cases "handleWrite c io") auto

lemma out_run_ok:
  assumes "out_ok c io" and "conn_mode c = 1"
    and "writeIndex (writeBuffer c) + int (length (concat (map sent_text es))) \<le> buf_size (writeBuffer c)"
    and "length es \<le> length (io_writes io)"
  shows "\<exists>c' io'. out_run es c io = Inr (c', io') \<and> out_ok c' io' \<and>
    outgoing c' io' = outgoing c io @ concat (map sent_text es)"
  using assms
proof (induction es arbitrary: c io)
  case Nil
  then show ?case by simp
next
  case (Cons e es)
  obtain c1 io1 where one: "out_run [e] c io = Inr (c1, io1)" "out_ok c1 io1" "conn_mode c1 = 1"
      "outgoing c1 io1 = outgoing c io @ sent_text e" "length es \<le> length (io_writes io1)"
      "writeIndex (writeBuffer c1) \<le> writeIndex (writeBuffer c) + int (length (sent_text e))"
      "buf_size (writeBuffer c) \<le> buf_size (writeBuffer c1)"
    using out_step [OF Cons.prems(1,2), of e "length es"] Cons.prems(3,4) by auto
  have "writeIndex (writeBuffer c1) + int (length (concat (map sent_text es))) \<le> buf_size (writeBuffer c1)"
    using one(6,7) Cons.prems(3) by simp
  from Cons.IH [OF one(2,3) this one(5)] one(1,4) show ?case
    by (auto simp: out_run_Cons [of e es])
qed

lemma drain_ok:
  assumes "out_ok c io" and "conn_mode c = 1" and "\<forall>n \<in> set ns. 0 < n"
    and "io_writes io = map Wrote ns" and "m \<le> length ns"
  shows "\<exists>c' io'. out_run (replicate m Writable) c io = Inr (c', io') \<and> out_ok c' io' \<and>
    outgoing c' io' = outgoing c io \<and>
    length (contents (writeBuffer c')) \<le> length (contents (writeBuffer c)) - m"
  using assms
proof (induction m arbitrary: c io ns)
  case 0
  then show ?case by simp
next
  case (Suc m)
  then obtain n ns' where ns: "ns = n # ns'" by (cases ns) auto
  with Suc.prems(4) have as: "io_writes io = Wrote n # map Wrote ns'" by simp
  obtain c1 io1 where one: "handleWrite_LT c io = Inr (c1, io1)" "out_ok c1 io1"
      "outgoing c1 io1 = outgoing c io" "io_writes io1 = map Wrote ns'" "conn_mode c1 = conn_mode c"
      "contents (writeBuffer c1) = drop n (contents (writeBuffer c))"
    using handleWrite_LT_ok [OF Suc.prems(1) as] by auto
  obtain c2 io2 where "out_run (replicate m Writable) c1 io1 = Inr (c2, io2)" "out_ok c2 io2"
      "outgoing c2 io2 = outgoing c1 io1"
      "length (contents (writeBuffer c2)) \<le> length (contents (writeBuffer c1)) - m"
    using Suc.IH [OF one(2) _ _ one(4)] one(5) Suc.prems(2,3,5) ns by auto
  with one Suc.prems(2,3) ns show ?case by (auto simp: handleWrite_def)
qed

subsection \<open>The incoming stream\<close>

lemma writableBytes_write_range: "write_range b i s = Inr b' \<Longrightarrow> writableBytes b' = writableBytes b"
  by (auto simp: write_range_def writableBytes_def buf_size_def slice_simps split: if_splits)

lemma writableBytes_new: "writableBytes (buf_new n) = int n"
  by (simp add: writableBytes_def buf_new_def buf_size_def)

text \<open>A read that leaves room in the buffer is an append.\<close>

lemma read_in_short: "int (length s) < writableBytes b \<Longrightarrow> read_in s b = buf_append s b"
  by (cases "write_range b (writeIndex b) s")
    (simp_all add: read_in_def buf_append_def append_loop_done resize_if_full_def
      writableBytes_write_range)

lemma read_in_ok:
  assumes "buf_ok b" and "int (length s) < writableBytes b"
  shows "\<exists>b'. read_in s b = Inr b' \<and> buf_ok b' \<and> contents b' = contents b @ s \<and>
    writableBytes b' = writableBytes b - int (length s) \<and> buf_size b' = buf_size b"
  using buf_append_fits [OF assms(1), of s] assms(2)
  by (auto simp: read_in_short writableBytes_def)

lemma read_in_full:
  assumes "buf_ok b" and "readIndex b = 0" and "int (length s) = writableBytes b"
    and "buf_size b * 2 \<le> int_max"
  shows "\<exists>b'. read_in s b = Inr b' \<and> buf_ok b' \<and>
    contents b' = contents b @ replicate (length s) NUL \<and> buf_size b' = 2 * buf_size b"
proof -
  obtain d r w where b: "b = \<lparr>buf_data = d, readIndex = int r, writeIndex = int w\<rparr>"
      and rw: "r \<le> w" "w \<le> length d"
    using assms(1) by (rule buf_okE)
  have r: "r = 0" and n: "length d = w + length s"
    using assms(2,3) rw by (auto simp: b writableBytes_def buf_size_def)
  define d' where "d' = take w d @ replicate (2 * length d - w) NUL"
  let ?b1 = "\<lparr>buf_data = overwrite w s d, readIndex = 0, writeIndex = int w\<rparr>"
  have wr: "write_range b (writeIndex b) s = Inr ?b1"
    using n r by (simp add: b write_range_def buf_size_def)
  have "resize_if_full (int (length s)) ?b1 = resize ?b1"
    using n by (simp add: resize_if_full_def writableBytes_def buf_size_def length_overwrite)
  also have "\<dots> = Inr \<lparr>buf_data = d', readIndex = 0, writeIndex = int w\<rparr>"
    using n assms(4) unfolding d'_def
    by (simp add: b resize_def read_range_def buf_size_def readableBytes_def length_overwrite
      slice_overwrite_before) (simp add: Prelude.slice_def min_def)
  finally have "read_in s b = Inr \<lparr>buf_data = d', readIndex = 0, writeIndex = int (w + length s)\<rparr>"
    by (simp add: read_in_def wr addWriteIndex_def)
  then show ?thesis
    using n r by (simp add: buf_ok_def buf_size_def contents_def b Prelude.slice_def d'_def nat_int_add)
qed

lemma handleRead_ET_ok:
  assumes "buf_ok (readBuffer c)" and "\<forall>s \<in> set ss. s \<noteq> []"
    and "int (length (concat ss)) < writableBytes (readBuffer c)"
  shows "\<exists>b. handleRead_ET cb (map Data ss @ Read_Failed EAGAIN # as) c io =
      cb (c\<lparr>readBuffer := b\<rparr>) io \<and> buf_ok b \<and> contents b = contents (readBuffer c) @ concat ss \<and>
      0 < writableBytes b"
  using assms
proof (induction ss arbitrary: c)
  case Nil
  then show ?case by (auto intro!: exI [of _ "readBuffer c"])
next
  case (Cons s ss)
  obtain b where b: "read_in s (readBuffer c) = Inr b" "buf_ok b"
      "contents b = contents (readBuffer c) @ s"
      "writableBytes b = writableBytes (readBuffer c) - int (length s)"
    using read_in_ok [OF Cons.prems(1), of s] Cons.prems(3) by auto
  then show ?case
    using Cons.IH [of "c\<lparr>readBuffer := b\<rparr>"] Cons.prems(2,3) by auto
qed

lemma read_in_reversed:
  assumes "buf_ok b" and "readableBytes b < readIndex b" and "int (length s) = writableBytes b"
    and "buf_size b * 2 \<le> int_max"
  shows "read_in s b = Inl Bad_Range"
proof -
  have wr: "write_range b (writeIndex b) s = Inr (b\<lparr>buf_data := overwrite (nat (writeIndex b)) s (buf_data b)\<rparr>)"
    (is "_ = Inr ?b1")
    using assms(1,3) by (simp add: write_range_def buf_ok_def writableBytes_def)
  have "buf_size ?b1 = buf_size b" "readableBytes ?b1 = readableBytes b"
    using assms(1,3)
    by (auto simp: buf_size_def readableBytes_def length_overwrite buf_ok_def writableBytes_def)
  then have "resize ?b1 = Inl Bad_Range"
    using assms(2,4) by (auto simp: resize_def read_range_def)
  then show ?thesis
    using assms(3) writableBytes_write_range [OF wr] by (simp add: read_in_def wr resize_if_full_def)
qed

subsection \<open>A connection that has just been established\<close>

lemma established_out_ok:
  assumes "epoll_ok (io_poll io)" and "smap_find (ep_channels (io_poll io)) fd = None"
    and "connectEstablished (new_connection p fd mode peer ident timer ctx) io = (c', io')"
  shows "out_ok c' io' \<and> conn_mode c' = mode \<and> io_sent io' = io_sent io \<and>
    io_writes io' = io_writes io \<and> writeBuffer c' = buf_new initBufSize \<and> contents (writeBuffer c') = []"
proof -
  note est = connectEstablished_ok [OF assms]
  have "\<not> wants_write c'"
    using est by (simp add: wants_write_def bit_or_iff bit_readEvent EPOLLET_def)
  with est show ?thesis by (simp add: out_ok_def)
qed

definition fresh_io :: "write_res list \<Rightarrow> conn_io" where
  "fresh_io as = \<lparr>io_poll = new_epoll, io_writes = as, io_sent = [], io_fin = False,
     io_removals = [], io_closed = []\<rparr>"

lemma fresh_connection:
  obtains c io where
    "connectEstablished (new_connection 0 7 mode ''peer'' 0 timer ()) (fresh_io as) = (c, io)"
    and "out_ok c io" and "conn_mode c = mode" and "io_sent io = []" and "io_writes io = as"
    and "writeBuffer c = buf_new initBufSize" and "contents (writeBuffer c) = []"
proof -
  obtain c io where est:
      "connectEstablished (new_connection 0 7 mode ''peer'' 0 timer ()) (fresh_io as) = (c, io)"
    by fastforce
  have ok: "epoll_ok (io_poll (fresh_io as))" by (simp add: fresh_io_def)
  have "smap_find (ep_channels (io_poll (fresh_io as))) 7 = None"
    by (simp add: fresh_io_def new_epoll_def)
  from established_out_ok [OF ok this est] that [OF est] show thesis
    by (simp add: fresh_io_def)
qed

subsection \<open>Properties\<close>



text \<open>
  A response is delivered. On a level-triggered connection with nothing buffered and a
  write buffer that has never been consumed from, a text of up to a gigabyte is sent: if
  \<open>write\<close> takes at least one byte each time, then after the send and as many write-readiness
  events as the text has bytes, everything has left, in order, and EPOLLOUT is not watched
  any more.
\<close>

lemma send_delivered:
  assumes "out_ok c io" and "conn_mode c = 1"
    and "contents (writeBuffer c) = []" and "readIndex (writeBuffer c) = 0"
    and "0 < buf_size (writeBuffer c)" and "length s \<le> 2 ^ 30"
    and "io_writes io = map Wrote (n # ns)" and "\<forall>k \<in> set ns. 0 < k" and "length s \<le> length ns"
  shows "\<exists>c' io' m. out_run (Send s # replicate (length s) Writable) c io = Inr (c', io') \<and>
    io_sent io' = io_sent io @ s \<and> contents (writeBuffer c') = [] \<and>
    watching (io_poll io') (chan_fd (conn_channel c')) = Some m \<and> \<not> bit m 2"
proof -
  have "writeIndex (writeBuffer c) = 0"
    using assms(1,3,4) by (simp add: out_ok_def contents_Nil_iff buf_empty_def)
  then have room: "buf_room (writeBuffer c) (length s)"
    using assms(4-6) by (simp add: buf_room_def)
  have as: "io_writes io = Wrote n # map Wrote ns" using assms(7) by simp
  obtain c1 io1 where one: "send s c io = Inr (c1, io1)" "out_ok c1 io1"
      "outgoing c1 io1 = outgoing c io @ s" "conn_mode c1 = 1" "io_writes io1 = map Wrote ns"
      "length (contents (writeBuffer c1)) \<le> length s"
    using send_direct [OF assms(1,3) room as] assms(2) by auto
  obtain c2 io2 where two: "out_run (replicate (length s) Writable) c1 io1 = Inr (c2, io2)"
      "out_ok c2 io2" "outgoing c2 io2 = outgoing c1 io1"
      "length (contents (writeBuffer c2)) \<le> length (contents (writeBuffer c1)) - length s"
    using drain_ok [OF one(2,4) assms(8) one(5) assms(9)] by blast
  have empty: "contents (writeBuffer c2) = []" using two(4) one(6) by simp
  with one(1,3) two(1-3) assms(3) show ?thesis
    by (auto simp: outgoing_def out_ok_def registered_def wants_write_def)
qed

lemma send_delivered_witness:
  "\<exists>c io c' io'.
     connectEstablished (new_connection 0 7 1 ''peer'' 0 None ())
       (fresh_io (map Wrote [0, 1, 2, 3])) = (c, io) \<and>
     out_run (Send ''abc'' # replicate 3 Writable) c io = Inr (c', io') \<and>
     io_sent io' = ''abc'' \<and> contents (writeBuffer c') = []"
proof -
  obtain c io where est: "connectEstablished (new_connection 0 7 1 ''peer'' 0 None ())
      (fresh_io (map Wrote [0, 1, 2, 3])) = (c, io)"
    and ok: "out_ok c io" "conn_mode c = 1" and io: "io_sent io = []"
      "io_writes io = map Wrote [0, 1, 2, 3]"
    and wb: "writeBuffer c = buf_new initBufSize" "contents (writeBuffer c) = []"
    by (rule fresh_connection)
  have fresh: "readIndex (writeBuffer c) = 0" "0 < buf_size (writeBuffer c)"
    by (simp_all add: wb(1) buf_new_def buf_size_def initBufSize_def)
  have "length ''abc'' \<le> 2 ^ 30" "\<forall>k \<in> set [1, 2, 3 :: nat]. 0 < k" "length ''abc'' \<le> length [1, 2, 3 :: nat]"
    by simp_all
  from send_delivered [OF ok wb(2) fresh this(1) io(2) this(2,3)] est io(1)
  show ?thesis by (auto simp: numeral_3_eq_3)
qed

text \<open>
  A second response on a drained connection. Once the write buffer has been used and
  emptied, its read index stays where it is; a text whose unsent rest does not fit behind it
  makes \<open>resize\<close> copy a reversed range. The text is not sent: the behaviour is undefined.
\<close>

lemma send_after_drain_fails:
  assumes "buf_ok (writeBuffer c)" and "contents (writeBuffer c) = []"
    and "0 < readIndex (writeBuffer c)" and "buf_size (writeBuffer c) * 2 \<le> int_max"
    and "io_writes io = Wrote n # as" and "n \<le> length s"
    and "writableBytes (writeBuffer c) < int (length s - n)"
  shows "send s c io = Inl Bad_Range"
proof -
  have zero: "readableBytes (writeBuffer c) = 0"
    using assms(1,2) by (simp add: readableBytes_contents)
  have wr: "0 \<le> writableBytes (writeBuffer c)"
    using assms(1) by (simp add: buf_ok_def writableBytes_def)
  have "buf_append (drop n s) (writeBuffer c) = Inl Bad_Range"
    using assms zero by (intro buf_append_reversed) auto
  then show ?thesis
    using assms(5-7) zero wr by (simp add: send_def sys_write_def Let_def)
qed

lemma send_after_drain_fails_witness:
  "let c = (new_connection 0 7 1 ''peer'' 0 None ())
         \<lparr>writeBuffer := \<lparr>buf_data = ''abcd'', readIndex = 3, writeIndex = 3\<rparr>\<rparr>
   in send ''xyz'' c (fresh_io [Wrote 1]) = Inl Bad_Range"
  using send_after_drain_fails [of "(new_connection 0 7 1 ''peer'' 0 None ())
      \<lparr>writeBuffer := \<lparr>buf_data = ''abcd'', readIndex = 3, writeIndex = 3\<rparr>\<rparr>"
      "fresh_io [Wrote 1]" 1 "[]" "''xyz''"]
  by (simp add: buf_ok_def buf_size_def contents_def Prelude.slice_def fresh_io_def writableBytes_def)

text \<open>
  C29: the incoming stream. If what the socket delivers (one piece when level-triggered,
  pieces up to EAGAIN when edge-triggered) is shorter than the free space of the read
  buffer, then the message callback runs once, on the connection whose buffer has the pieces
  appended to its unread bytes, in order, and whose visit time is renewed. Free space remains,
  so that the next \<open>read\<close> does not ask for zero bytes and is not mistaken for the end.
\<close>

theorem handleRead_delivers:
  assumes "buf_ok (readBuffer c)" and "\<forall>s \<in> set ss. s \<noteq> []"
    and "int (length (concat ss)) < writableBytes (readBuffer c)"
    and "answers = (if conn_mode c = 1 then [Data s1] else map Data ss @ [Read_Failed EAGAIN])"
    and "conn_mode c = 1 \<Longrightarrow> ss = [s1]"
  shows "\<exists>b. handleRead cb now answers c io = cb (c\<lparr>visited := now, readBuffer := b\<rparr>) io \<and>
    buf_ok b \<and> contents b = contents (readBuffer c) @ concat ss \<and> 0 < writableBytes b"
proof (cases "conn_mode c = 1")
  case True
  have s1: "ss = [s1]" by (rule assms(5) [OF True])
  obtain b where "read_in s1 (readBuffer c) = Inr b" "buf_ok b"
      "contents b = contents (readBuffer c) @ s1" "0 < writableBytes b"
    using read_in_ok [OF assms(1), of s1] assms(3) s1 by auto
  then show ?thesis
    using True s1 assms(2,4)
    by (intro exI [of _ b]) (simp add: handleRead_def handleRead_LT_def)
next
  case False
  then show ?thesis
    using handleRead_ET_ok [of "c\<lparr>visited := now\<rparr>" ss cb "[]" io] assms(1-4)
    by (auto simp: handleRead_def)
qed

theorem handleRead_delivers_witness:
  "\<exists>b. handleRead (\<lambda>c io. Inr (c, io)) (Timestamp 5) [Data ''GET'', Data '' /'', Read_Failed EAGAIN]
       (new_connection 0 7 2 ''peer'' 0 None ()) (fresh_io []) =
     Inr ((new_connection 0 7 2 ''peer'' 0 None ())\<lparr>visited := Timestamp 5, readBuffer := b\<rparr>, fresh_io []) \<and>
     contents b = ''GET /''"
proof -
  let ?c = "new_connection 0 7 2 ''peer'' 0 None ()"
  have c: "readBuffer ?c = buf_new 1024" "conn_mode ?c = 2"
    by (simp_all add: new_connection_def initBufSize_def)
  have "\<exists>b. handleRead (\<lambda>c io. Inr (c, io)) (Timestamp 5) [Data ''GET'', Data '' /'', Read_Failed EAGAIN]
        ?c (fresh_io []) = Inr (?c\<lparr>visited := Timestamp 5, readBuffer := b\<rparr>, fresh_io []) \<and>
      buf_ok b \<and> contents b = contents (readBuffer ?c) @ concat [''GET'', '' /''] \<and> 0 < writableBytes b"
    by (rule handleRead_delivers) (simp_all add: c writableBytes_new)
  then show ?thesis by (auto simp: c)
qed

text \<open>
  C32: a read that fills the buffer exactly is lost. \<open>handleRead\<close> enlarges the buffer before
  it has counted the bytes just read, and \<open>resize\<close> keeps the counted ones only: the message
  callback finds as many zero bytes in the place of what the peer has sent.
\<close>

theorem handleRead_full_read_lost:
  assumes "buf_ok (readBuffer c)" and "readIndex (readBuffer c) = 0"
    and "int (length s) = writableBytes (readBuffer c)" and "s \<noteq> []"
    and "buf_size (readBuffer c) * 2 \<le> int_max" and "conn_mode c = 1"
  shows "\<exists>b. handleRead cb now [Data s] c io = cb (c\<lparr>visited := now, readBuffer := b\<rparr>) io \<and>
    buf_ok b \<and> contents b = contents (readBuffer c) @ replicate (length s) NUL"
proof -
  obtain b where "read_in s (readBuffer c) = Inr b" "buf_ok b"
      "contents b = contents (readBuffer c) @ replicate (length s) NUL"
    using read_in_full [OF assms(1-3,5)] by blast
  then show ?thesis
    using assms(4,6) by (intro exI [of _ b]) (simp add: handleRead_def handleRead_LT_def)
qed

theorem handleRead_full_read_lost_witness:
  "\<exists>b. handleRead (\<lambda>c io. Inr (c, io)) (Timestamp 5) [Data (replicate 1024 CHR ''x'')]
       (new_connection 0 7 1 ''peer'' 0 None ()) (fresh_io []) =
     Inr ((new_connection 0 7 1 ''peer'' 0 None ())\<lparr>visited := Timestamp 5, readBuffer := b\<rparr>, fresh_io []) \<and>
     contents b = replicate 1024 NUL"
proof -
  let ?c = "new_connection 0 7 1 ''peer'' 0 None ()"
  have c: "readBuffer ?c = buf_new 1024" "conn_mode ?c = 1"
    by (simp_all add: new_connection_def initBufSize_def)
  have ne: "replicate 1024 x \<noteq> []" for x :: char
    by (simp add: replicate_eq_replicate [of 1024 x 0 x, simplified])
  have "\<exists>b. handleRead (\<lambda>c io. Inr (c, io)) (Timestamp 5) [Data (replicate 1024 CHR ''x'')]
        ?c (fresh_io []) = Inr (?c\<lparr>visited := Timestamp 5, readBuffer := b\<rparr>, fresh_io []) \<and>
      buf_ok b \<and> contents b = contents (readBuffer ?c) @ replicate (length (replicate 1024 CHR ''x'')) NUL"
    by (rule handleRead_full_read_lost)
      (use ne in \<open>simp_all add: c writableBytes_new\<close>, simp_all add: buf_new_def buf_size_def)
  then show ?thesis by (auto simp: c)
qed

text \<open>
  The end of the stream. When \<open>read\<close> returns zero, in either mode and after any pieces
  that fitted, the connection's descriptor is not watched any more, the close callback is
  called once for the connection, its state is disconnected and the message callback does
  not run, so what an edge-triggered read has just received is not handed on.
\<close>

lemma handleRead_end:
  assumes "registered c io" and "buf_ok (readBuffer c)"
    and "\<forall>s \<in> set ss. s \<noteq> []" and "int (length (concat ss)) < writableBytes (readBuffer c)"
    and "conn_mode c = 1 \<Longrightarrow> ss = []"
  shows "\<exists>c' io'. handleRead cb now (map Data ss @ [Data []]) c io = Inr (c', io') \<and>
    conn_state c' = kdisconnected \<and> io_removals io' = io_removals io @ [connID c] \<and>
    epoll_ok (io_poll io') \<and>
    watching (io_poll io') = (watching (io_poll io))(chan_fd (conn_channel c) := None)"
proof -
  have closes: "\<exists>c' io'. handleClose d io = (c', io') \<and>
      conn_state c' = kdisconnected \<and> io_removals io' = io_removals io @ [connID c] \<and>
      epoll_ok (io_poll io') \<and>
      watching (io_poll io') = (watching (io_poll io))(chan_fd (conn_channel c) := None)"
    if "conn_channel d = conn_channel c" "connID d = connID c" for d
  proof -
    obtain ch ep where off: "disableAll (conn_channel c) (io_poll io) = (ch, ep)" by fastforce
    with disableAll_unregisters [OF _ _ registered_added [OF assms(1)] off] assms(1) that show ?thesis
      by (simp add: handleClose_def on_channel_def registered_def)
  qed
  have loop: "\<exists>d. handleRead_ET cb (map Data ss @ [Data []]) e io = Inr (handleClose d io) \<and>
      conn_channel d = conn_channel e \<and> connID d = connID e"
    if "buf_ok (readBuffer e)" "\<forall>s \<in> set ss. s \<noteq> []"
      "int (length (concat ss)) < writableBytes (readBuffer e)" for e ss
    using that
  proof (induction ss arbitrary: e)
    case Nil
    then show ?case by auto
  next
    case (Cons s ss)
    obtain b where "read_in s (readBuffer e) = Inr b" "buf_ok b"
        "writableBytes b = writableBytes (readBuffer e) - int (length s)"
      using read_in_ok [OF Cons.prems(1), of s] Cons.prems(3) by auto
    then show ?case
      using Cons.IH [of "e\<lparr>readBuffer := b\<rparr>"] Cons.prems(2,3) by auto
  qed
  show ?thesis
  proof (cases "conn_mode c = 1")
    case True
    with assms(5) closes [of "c\<lparr>visited := now\<rparr>"] show ?thesis
      by (simp add: handleRead_def handleRead_LT_def)
  next
    case False
    with loop [of "c\<lparr>visited := now\<rparr>" ss] assms(2-4) obtain d where
        "handleRead cb now (map Data ss @ [Data []]) c io = Inr (handleClose d io)"
        "conn_channel d = conn_channel c" "connID d = connID c"
      by (auto simp: handleRead_def)
    with closes [of d] show ?thesis by auto
  qed
qed

lemma handleRead_end_witness:
  "\<exists>c io c' io'.
     connectEstablished (new_connection 0 7 1 ''peer'' 0 None ()) (fresh_io []) = (c, io) \<and>
     handleRead (\<lambda>c io. Inr (c, io)) (Timestamp 5) [Data []] c io = Inr (c', io') \<and>
     watching (io_poll io) 7 \<noteq> None \<and> watching (io_poll io') 7 = None"
proof -
  let ?new = "new_connection 0 7 1 ''peer'' 0 None ()"
  obtain c io where est: "connectEstablished ?new (fresh_io []) = (c, io)" by fastforce
  have "epoll_ok (io_poll (fresh_io []))" by (simp add: fresh_io_def)
  moreover have "smap_find (ep_channels (io_poll (fresh_io []))) 7 = None"
    by (simp add: fresh_io_def new_epoll_def)
  ultimately have c: "registered c io" "conn_mode c = 1" "chan_fd (conn_channel c) = 7"
    using connectEstablished_ok [OF _ _ est] by blast+
  have rb: "readBuffer c = buf_new initBufSize"
    using est by (auto simp: connectEstablished_def on_channel_def new_connection_def Let_def
      split: prod.splits)
  have "\<exists>c' io'. handleRead (\<lambda>c io. Inr (c, io)) (Timestamp 5) (map Data [] @ [Data []]) c io = Inr (c', io') \<and>
      conn_state c' = kdisconnected \<and> io_removals io' = io_removals io @ [connID c] \<and>
      epoll_ok (io_poll io') \<and>
      watching (io_poll io') = (watching (io_poll io))(chan_fd (conn_channel c) := None)"
    by (rule handleRead_end) (use c in \<open>simp_all add: rb writableBytes_new initBufSize_def\<close>)
  then show ?thesis using est c by (auto simp: registered_def)
qed

text \<open>
  The idle timer of a connection that has been read from. As long as the time since the
  last read is below the interval, or text waits to be sent, the timer is set to the last
  read plus the interval and queued again, and nothing else happens; otherwise the sending
  side is shut down and the timer is not queued again.
\<close>

lemma handleTimer_idle:
  assumes "conn_timer c = Some r" and "0 \<le> microSeconds (visited c)"
    and "visited c \<le> now" and "0 \<le> getInterval (heap r)"
    and "microSeconds now < 2 ^ 62" and "getInterval (heap r) < 2 ^ 62"
    and "handleTimer now c io heap = (c', io', heap', queued)"
  shows "if microSeconds now < microSeconds (visited c) + getInterval (heap r) \<or>
      0 < readableBytes (writeBuffer c)
    then c' = c \<and> io' = io \<and> queued = [r] \<and>
      expiration (heap' r) = Timestamp (microSeconds (visited c) + getInterval (heap r)) \<and>
      getInterval (heap' r) = getInterval (heap r)
    else conn_state c' = kshutdown \<and> io_fin io' \<and> queued = [] \<and> heap' = heap"
proof -
  have le: "microSeconds (visited c) \<le> microSeconds now"
    using assms(3) by (simp add: timestamp_le_iff)
  have remain: "wrap64 (microSeconds now - microSeconds (visited c)) =
      microSeconds now - microSeconds (visited c)"
    using le assms(2,5) by (intro wrap64_id) auto
  have "microSeconds (addTime (getInterval (heap r)) (visited c)) =
      microSeconds (visited c) + getInterval (heap r)"
    using assms(2,4,5,6) le by (intro microSeconds_addTime) auto
  then have t: "addTime (getInterval (heap r)) (visited c) =
      Timestamp (microSeconds (visited c) + getInterval (heap r))"
    by (simp add: timestamp.expand)
  show ?thesis
    using assms(1,7) t unfolding handleTimer_def Let_def remain
    by (auto simp: shutdownWrite_def restart_def expiration_def getInterval_def split: if_splits)
qed

lemma handleTimer_idle_witness:
  "let c = (new_connection 0 7 1 ''peer'' 0 (Some 3) ())\<lparr>visited := Timestamp 10\<rparr>;
       heap = (\<lambda>_. new_timer (Timestamp 15) 5)
   in fst (snd (snd (handleTimer (Timestamp 12) c (fresh_io []) heap))) 3 = new_timer (Timestamp 15) 5 \<and>
     io_fin (fst (snd (handleTimer (Timestamp 15) c (fresh_io []) heap)))"
proof -
  let ?c = "(new_connection 0 7 1 ''peer'' 0 (Some 3) ())\<lparr>visited := Timestamp 10\<rparr>"
  let ?heap = "\<lambda>_ :: nat. new_timer (Timestamp 15) 5"
  have c: "conn_timer ?c = Some 3" "visited ?c = Timestamp 10" "getInterval (?heap 3) = 5"
      "readableBytes (writeBuffer (new_connection 0 7 1 ''peer'' 0 (Some 3) ())) = 0"
    by (simp_all add: new_connection_def new_timer_def getInterval_def readableBytes_def buf_new_def)
  obtain c1 io1 h1 q1 where one: "handleTimer (Timestamp 12) ?c (fresh_io []) ?heap = (c1, io1, h1, q1)"
    by (metis prod_cases4)
  obtain c2 io2 h2 q2 where two: "handleTimer (Timestamp 15) ?c (fresh_io []) ?heap = (c2, io2, h2, q2)"
    by (metis prod_cases4)
  have "expiration (h1 3) = Timestamp 15 \<and> getInterval (h1 3) = 5"
    using handleTimer_idle [OF c(1) _ _ _ _ _ one] by (simp add: c timestamp_le_iff)
  moreover have "io_fin io2"
    using handleTimer_idle [OF c(1) _ _ _ _ _ two] by (simp add: c timestamp_le_iff)
  moreover have "h1 3 = (new_timer (Timestamp 15) 5)\<lparr>expired := expired (h1 3)\<rparr>"
    using one by (auto simp: handleTimer_def c new_timer_def restart_def getInterval_def wrap64_def)
  ultimately have "h1 3 = new_timer (Timestamp 15) 5" and "io_fin io2"
    by (simp_all add: expiration_def new_timer_def)
  then show ?thesis unfolding Let_def one two by simp
qed

text \<open>
  The idle timer of a connection that has never been read from. Its visit time is still
  the largest \<open>long\<close>: the difference to now is negative, and the new expiration time wraps
  around to a time in the past. At every tick the timer is found expired and is queued
  again; such a connection is never shut down, however long it stays idle.
\<close>

lemma handleTimer_never_read:
  assumes "conn_timer c = Some r" and "visited c = Timestamp long_max"
    and "0 < getInterval (heap r)" and "getInterval (heap r) < 2 ^ 62"
    and "0 \<le> microSeconds now" and "microSeconds now < 2 ^ 62"
    and "handleTimer now c io heap = (c', io', heap', queued)"
  shows "c' = c \<and> io' = io \<and> queued = [r] \<and> expiration (heap' r) < Timestamp 0 \<and>
    getInterval (heap' r) = getInterval (heap r)"
proof -
  have neg: "microSeconds (addTime (getInterval (heap r)) (Timestamp long_max)) < 0"
    using assms(3,4) by (subst addTime_overflow) auto
  have "wrap64 (microSeconds now - long_max) = microSeconds now - long_max"
    using assms(5,6) by (intro wrap64_id) auto
  with assms(1,2,3,6,7) neg show ?thesis
    by (auto simp: handleTimer_def restart_def expiration_def getInterval_def timestamp_less_iff)
qed

lemma handleTimer_never_read_witness:
  "\<exists>c' io' heap' queued.
     handleTimer (Timestamp (10 ^ 15)) (new_connection 0 7 1 ''peer'' 0 (Some 3) ()) (fresh_io [])
       (\<lambda>_. new_timer (Timestamp 5) 5) = (c', io', heap', queued) \<and>
     \<not> io_fin io' \<and> queued = [3] \<and> expiration (heap' 3) < Timestamp 0"
proof -
  let ?c = "new_connection 0 7 1 ''peer'' 0 (Some 3) ()"
  obtain c' io' heap' queued where run: "handleTimer (Timestamp (10 ^ 15)) ?c (fresh_io [])
      (\<lambda>_. new_timer (Timestamp 5) 5) = (c', io', heap', queued)"
    by (metis prod_cases4)
  have c: "conn_timer ?c = Some 3" "visited ?c = Timestamp long_max"
    by (simp_all add: new_connection_def)
  have "io' = fresh_io [] \<and> queued = [3] \<and> expiration (heap' 3) < Timestamp 0"
    using handleTimer_never_read [OF c _ _ _ _ run] by (simp add: new_timer_def getInterval_def)
  with run show ?thesis by (auto simp: fresh_io_def)
qed

end
