(* ===== verification/HttpServer.thy ===== *)
theory HttpServer
  imports HttpContext HttpResponse SqlPool TcpConnection
begin

text \<open>
  \<open>http/HttpServer.h\<close> and \<open>http/HttpServer.cc\<close>: the callbacks that turn the bytes of a
  connection into requests and answer them from files and from the table of users. The
  server's own state extends what a connection works on. The file system, the working
  directory and MySQL are arguments, collected in \<open>http_env\<close>: \<open>env_open\<close> gives the answers
  of the successive \<open>read\<close> calls on an opened file, \<open>env_query\<close> whether an INSERT succeeds.

  Logging is left out: it does not change what is computed while the messages fit the
  logger's buffer (theory \<open>Logger\<close> says when they do).
\<close>

record http_env =
  env_cwd :: string
  env_open :: "string \<Rightarrow> read_res list option"
  env_query :: "nat option \<Rightarrow> string \<Rightarrow> bool"

record server_io = conn_io +
  users :: "(string, string) smap"
  sql :: sql_pool

type_synonym http_connection = "http_context option tcp_connection"

text \<open>The context holds an \<open>HttpContext\<close> once \<open>onConnection\<close> has run.\<close>

definition onConnection :: "http_connection \<Rightarrow> http_connection" where
  "onConnection c = setContext (Some new_context) c"

subsection \<open>Reading the form\<close>

text \<open>\<open>body[i]\<close> of a constant string: the terminating NUL is there, what follows is not.\<close>

definition str_at :: "string \<Rightarrow> nat \<Rightarrow> char result" where
  "str_at s i = (if i < length s then Inr (s ! i) else if i = length s then Inr NUL else Inl Bad_Range)"

text \<open>The two copying loops: from index \<open>i\<close> up to the stop character, into 100 bytes.\<close>

function copy_until :: "char \<Rightarrow> string \<Rightarrow> nat \<Rightarrow> string \<Rightarrow> string result" where
  "copy_until stop body i acc =
     res_bind (str_at body i) (\<lambda>x.
       if length acc \<ge> 100 then Inl Overrun
       else if x = stop then Inr acc
       else copy_until stop body (Suc i) (acc @ [x]))"
  by pat_completeness auto
termination
  by (relation "measure (\<lambda>(stop, body, i, acc). length body + 1 - i)")
    (auto simp: str_at_def split: if_splits)

declare copy_until.simps [simp del]

definition read_form :: "string \<Rightarrow> (string \<times> string) result" where
  "read_form body =
     res_bind (copy_until (CHR ''&'') body 5 []) (\<lambda>name.
     res_bind (copy_until NUL body (5 + length name + 10) []) (\<lambda>password.
     Inr (name, password)))"

definition quote :: char where "quote = CHR 0x27"

text \<open>\<open>sql_insert\<close> has 200 bytes.\<close>

definition insert_text :: "string \<Rightarrow> string \<Rightarrow> string result" where
  "insert_text name password =
     (let s = ''INSERT INTO user(username, passwd) VALUES('' @ [quote] @ name @ [quote] @ '', '' @
          [quote] @ password @ [quote] @ '')''
      in if length s < 200 then Inr s else Inl Overrun)"

subsection \<open>Choosing the file\<close>

text \<open>\<open>file_name\<close> has 200 bytes and starts with the working directory.\<close>

definition file_path :: "string \<Rightarrow> string \<Rightarrow> string result" where
  "file_path cwd suffix =
     (if length cwd + length suffix < 200 then Inr (cwd @ suffix) else Inl Overrun)"

definition cgi_page :: "http_env \<Rightarrow> string \<Rightarrow> string \<Rightarrow> 'w server_io_scheme \<Rightarrow>
    (string \<times> 'w server_io_scheme) result" where
  "cgi_page env path body io =
     res_bind (read_form body) (\<lambda>(name0, password0).
       let name = c_str name0; password = c_str password0
       in res_bind (insert_text name password) (\<lambda>sql_insert.
          res_bind (raii_enter (sql io)) (\<lambda>(mysql, pool1).
            let (page, users1) =
                  (if path = ''/3CGISQL.cgi''
                   then if smap_find (users io) name = None
                        then if env_query env mysql sql_insert
                             then (''/root/log.html'', smap_insert name password (users io))
                             else (''/root/registerError.html'', users io)
                        else (''/root/registerError.html'', users io)
                   else if smap_find (users io) name = Some password
                        then (''/root/welcome.html'', users io)
                        else (''/root/logError.html'', users io))
            in res_bind (file_path (env_cwd env) page) (\<lambda>file.
               res_bind (raii_leave mysql pool1) (\<lambda>(_, pool2).
                 Inr (file, io\<lparr>users := users1, sql := pool2\<rparr>))))))"

text \<open>\<open>getcwd\<close> leaves the array as it is when the directory does not fit.\<close>

definition choose_file :: "http_env \<Rightarrow> http_request \<Rightarrow> 'w server_io_scheme \<Rightarrow>
    (string \<times> 'w server_io_scheme) result" where
  "choose_file env req io =
     (let page = (\<lambda>suffix. res_map (\<lambda>file. (file, io)) (file_path (env_cwd env) suffix));
          path = req_path req
      in if length (env_cwd env) \<ge> 200 then Inl Uninitialised
         else if path = ''/'' then page ''/root/judge.html''
         else if path = ''/0'' then page ''/root/register.html''
         else if path = ''/1'' then page ''/root/log.html''
         else if path = ''/3CGISQL.cgi'' \<or> path = ''/2CGISQL.cgi'' then cgi_page env path (req_body req) io
         else if path = ''/5'' then page ''/root/picture.html''
         else if path = ''/6'' then page ''/root/video.html''
         else if path = ''/7'' then page ''/root/fans.html''
         else page (''/root'' @ c_str path))"

subsection \<open>Serving the file\<close>

text \<open>
  The loop over \<open>read\<close>, 2048 bytes at a time. A failed read gives a count of -1, from which
  a string of that size is to be made.
\<close>

fun read_file :: "read_res list \<Rightarrow> string \<Rightarrow> string result" where
  "read_file [] body = Inl Diverges"
| "read_file (Data s # as) body =
     (if s = [] then Inr body
      else if length s > 2048 then Inl Overrun
      else read_file as (body @ s))"
| "read_file (Read_Failed e # as) body = Inl Length_Error"

definition serve_file :: "http_env \<Rightarrow> string \<Rightarrow> http_response \<Rightarrow> http_response result" where
  "serve_file env file resp =
     (case env_open env file of
        None \<Rightarrow> Inr (addRespHeader ''Server'' ''Carflib''
          (setStatusMessage ''ok'' (setStatusCode k200Ok resp)))
      | Some answers \<Rightarrow> res_bind (read_file answers []) (\<lambda>body.
          Inr (setBody body (addRespHeader ''Server'' ''Carflib''
            (setStatusMessage ''OK'' (setStatusCode k200Ok resp))))))"

definition defaultHttpCallback :: "http_env \<Rightarrow> http_request \<Rightarrow> http_response \<Rightarrow>
    'w server_io_scheme \<Rightarrow> (http_response \<times> 'w server_io_scheme) result" where
  "defaultHttpCallback env req resp io =
     res_bind (choose_file env req io) (\<lambda>(file, io1).
     res_bind (serve_file env file resp) (\<lambda>resp1. Inr (resp1, io1)))"

subsection \<open>The callbacks\<close>

definition wants_close :: "http_request \<Rightarrow> bool" where
  "wants_close req \<longleftrightarrow> getHeader ''Connection'' req = ''close'' \<or>
     (req_version req = kHttp10 \<and> getHeader ''Connection'' req \<noteq> ''Keep-Alive'')"

definition onRequest :: "http_env \<Rightarrow> http_request \<Rightarrow> http_connection \<Rightarrow> 'w server_io_scheme \<Rightarrow>
    (http_connection \<times> 'w server_io_scheme) result" where
  "onRequest env req c io =
     res_bind (defaultHttpCallback env req (new_response (wants_close req)) io) (\<lambda>(resp, io1).
     res_bind (appendToBuffer resp (buf_new 1024)) (\<lambda>buf.
     res_bind (read_range buf (readIndex buf) (readIndex buf + readableBytes buf)) (\<lambda>s.
     res_bind (send s c io1) (\<lambda>(c2, io2).
       Inr (if closeConnection resp then shutdownWrite c2 io2 else (c2, io2))))))"

definition bad_request :: string where
  "bad_request = ''HTTP/1.1 400 Bad Request'' @ crlf @ crlf"

definition onMessage :: "http_env \<Rightarrow> http_connection \<Rightarrow> 'w server_io_scheme \<Rightarrow>
    (http_connection \<times> 'w server_io_scheme) result" where
  "onMessage env c io =
     (case conn_context c of
        None \<Rightarrow> Inl Null_Pointer
      | Some ctx \<Rightarrow>
          res_bind (parseRequest ctx (readBuffer c)) (\<lambda>(ok, ctx1, b1).
            let c1 = c\<lparr>readBuffer := b1, conn_context := Some ctx1\<rparr>
            in res_bind (if ok then Inr (c1, io)
                         else res_map (\<lambda>(c2, io2). shutdownWrite c2 io2) (send bad_request c1 io))
                 (\<lambda>(c2, io2).
                   if gotAll ctx1
                   then res_bind (onRequest env (ctx_request ctx1) c2 io2) (\<lambda>(c3, io3).
                     Inr (c3\<lparr>conn_context := Some (ctx_reset ctx1)\<rparr>, io3))
                   else Inr (c2, io2))))"

subsection \<open>Start-up\<close>

text \<open>
  \<open>sql_pool_init\<close>: the rows of \<open>SELECT username,passwd\<close> are an argument, \<open>None\<close> when the
  query leaves no result set; a NULL column is \<open>None\<close> and cannot become a string.
\<close>

fun load_users :: "(string option \<times> string option) list \<Rightarrow> (string, string) smap \<Rightarrow>
    (string, string) smap result" where
  "load_users [] m = Inr m"
| "load_users ((Some name, Some password) # rows) m = load_users rows (smap_assign name password m)"
| "load_users (_ # rows) m = Inl Null_Pointer"

definition sql_pool_init ::
    "(nat \<Rightarrow> nat option) \<Rightarrow> (nat option \<Rightarrow> (string option \<times> string option) list option) \<Rightarrow>
      string \<Rightarrow> string \<Rightarrow> string \<Rightarrow> string \<Rightarrow> int \<Rightarrow> int \<Rightarrow> int \<Rightarrow>
      'w server_io_scheme \<Rightarrow> 'w server_io_scheme result" where
  "sql_pool_init conn select url user password dbName port maxConn close_log io =
     res_bind (pool_init conn url user password dbName port maxConn close_log (sql io)) (\<lambda>p.
     res_bind (raii_enter p) (\<lambda>(mysql, p1).
       case select mysql of
         None \<Rightarrow> Inl Null_Pointer
       | Some rows \<Rightarrow> res_bind (load_users rows (users io)) (\<lambda>m.
           res_bind (raii_leave mysql p1) (\<lambda>(_, p2).
             Inr (io\<lparr>users := m, sql := p2\<rparr>)))))"

subsection \<open>Lemmas on files and responses\<close>

definition is_cgi :: "string \<Rightarrow> bool" where
  "is_cgi path \<longleftrightarrow> path = ''/3CGISQL.cgi'' \<or> path = ''/2CGISQL.cgi''"

text \<open>The page a path without form stands for.\<close>

definition static_page :: "string \<Rightarrow> string" where
  "static_page path =
     (if path = ''/'' then ''/root/judge.html''
      else if path = ''/0'' then ''/root/register.html''
      else if path = ''/1'' then ''/root/log.html''
      else if path = ''/5'' then ''/root/picture.html''
      else if path = ''/6'' then ''/root/video.html''
      else if path = ''/7'' then ''/root/fans.html''
      else ''/root'' @ c_str path)"

definition file_response :: "bool \<Rightarrow> string \<Rightarrow> http_response" where
  "file_response close body =
     setBody body (addRespHeader ''Server'' ''Carflib''
       (setStatusMessage ''OK'' (setStatusCode k200Ok (new_response close))))"

lemma file_path_short: "file_path cwd suffix = Inr file \<Longrightarrow> length cwd < 200"
  by (auto simp: file_path_def split: if_splits)

lemma choose_file_static:
  assumes "\<not> is_cgi (req_path req)" and "file_path (env_cwd env) (static_page (req_path req)) = Inr file"
  shows "choose_file env req io = Inr (file, io)"
  using assms file_path_short [OF assms(2)]
  by (auto simp: choose_file_def static_page_def is_cgi_def Let_def split: if_splits)

lemma choose_file_cgi:
  assumes "is_cgi (req_path req)" and "length (env_cwd env) < 200"
  shows "choose_file env req io = cgi_page env (req_path req) (req_body req) io"
  using assms by (auto simp: choose_file_def is_cgi_def)

lemma read_file_chunks:
  "\<forall>s \<in> set cs. s \<noteq> [] \<and> length s \<le> 2048 \<Longrightarrow>
    read_file (map Data cs @ Data [] # as) body = Inr (body @ concat cs)"
  by (induction cs arbitrary: body) (auto simp: not_less [symmetric])

lemma read_file_error:
  "\<forall>s \<in> set cs. s \<noteq> [] \<and> length s \<le> 2048 \<Longrightarrow>
    read_file (map Data cs @ Read_Failed e # as) body = Inl Length_Error"
  by (induction cs arbitrary: body) (auto simp: not_less [symmetric])

lemma file_response_simps [simp]:
  "closeConnection (file_response close body) = close"
  "resp_body (file_response close body) = body"
  by (simp_all add: file_response_def setBody_def addRespHeader_def setStatusMessage_def
    setStatusCode_def new_response_def)

lemma file_response_clean: "response_clean (file_response close body)"
  by (simp add: response_clean_def file_response_def setBody_def addRespHeader_def
    setStatusMessage_def setStatusCode_def new_response_def)

lemma defaultHttpCallback_static:
  assumes "\<not> is_cgi (req_path req)" and "file_path (env_cwd env) (static_page (req_path req)) = Inr file"
    and "env_open env file = Some (map Data cs @ [Data []])"
    and "\<forall>s \<in> set cs. s \<noteq> [] \<and> length s \<le> 2048"
  shows "defaultHttpCallback env req (new_response close) io =
    Inr (file_response close (concat cs), io)"
  using choose_file_static [OF assms(1,2), of io] assms(3) read_file_chunks [OF assms(4), of "[]" "[]"]
  by (simp add: defaultHttpCallback_def serve_file_def file_response_def)

lemma buf_room_new: "length t \<le> 2 ^ 30 \<Longrightarrow> buf_room (buf_new 1024) (length t)"
  by (simp add: buf_room_def buf_new_def buf_size_def)

lemma onRequest_ok:
  assumes "defaultHttpCallback env req (new_response (wants_close req)) io = Inr (resp, io1)"
    and "length (concat (response_parts resp)) \<le> 2 ^ 30"
    and "out_ok c io1" and "contents (writeBuffer c) = []"
    and "buf_room (writeBuffer c) (length (concat (response_parts resp)))"
    and "io_writes io1 = a # as"
  shows "\<exists>c' io'. onRequest env req c io = Inr (c', io') \<and>
    io_sent io' @ contents (writeBuffer c') = io_sent io1 @ concat (response_parts resp) \<and>
    (io_fin io' \<longleftrightarrow> io_fin io1 \<or> closeConnection resp) \<and>
    readBuffer c' = readBuffer c \<and> conn_io.more io' = conn_io.more io1"
proof -
  obtain b where b: "appendToBuffer resp (buf_new 1024) = Inr b" "buf_ok b"
      "contents b = concat (response_parts resp)"
    using appendToBuffer_text [of "buf_new 1024" resp] buf_room_new [OF assms(2)] by auto
  have range: "read_range b (readIndex b) (readIndex b + readableBytes b) =
      Inr (concat (response_parts resp))"
    using read_range_contents [OF b(2)] b(3) by (simp add: readableBytes_def)
  obtain c2 io2 where s: "send (concat (response_parts resp)) c io1 = Inr (c2, io2)"
      "outgoing c2 io2 = outgoing c io1 @ concat (response_parts resp)"
    using send_direct [OF assms(3,4,5,6)] by auto
  note frame = send_frame [OF s(1)]
  let ?r = "if closeConnection resp then shutdownWrite c2 io2 else (c2, io2)"
  have "onRequest env req c io = Inr ?r"
    by (simp add: onRequest_def assms(1) b(1) range s(1))
  moreover have "io_sent (snd ?r) @ contents (writeBuffer (fst ?r)) =
        io_sent io1 @ concat (response_parts resp)"
      and "io_fin (snd ?r) \<longleftrightarrow> io_fin io1 \<or> closeConnection resp"
      and "readBuffer (fst ?r) = readBuffer c" and "conn_io.more (snd ?r) = conn_io.more io1"
    using s(2) frame assms(4) by (auto simp: outgoing_def shutdownWrite_def)
  ultimately show ?thesis by (metis prod.collapse)
qed

lemma onMessage_complete:
  assumes "conn_context c = Some ctx" and "buf_ok (readBuffer c)"
    and "spec_parse ctx (contents (readBuffer c)) True = Inr (True, ctx1, rest)" and "gotAll ctx1"
  shows "\<exists>b. contents b = rest \<and> buf_ok b \<and> (buf_rest (readBuffer c) \<longrightarrow> buf_rest b) \<and>
    buf_size b = buf_size (readBuffer c) \<and> onMessage env c io =
    res_bind (onRequest env (ctx_request ctx1) (c\<lparr>readBuffer := b, conn_context := Some ctx1\<rparr>) io)
      (\<lambda>(c3, io3). Inr (c3\<lparr>conn_context := Some (ctx_reset ctx1)\<rparr>, io3))"
proof -
  obtain b where "parseRequest ctx (readBuffer c) = Inr (True, ctx1, b)" "contents b = rest"
    using unread_parseRequest [OF assms(2), of ctx] assms(3) by (auto simp: unread_Inr)
  moreover from this(1) have "buf_ok b" "buf_data b = buf_data (readBuffer c)"
      "buf_rest (readBuffer c) \<longrightarrow> buf_rest b"
    using parse_loop_frame [OF _ assms(2)] parse_loop_rest by (auto simp: parseRequest_def)
  ultimately show ?thesis
    using assms(1,4) by (intro exI [of _ b]) (simp add: onMessage_def buf_size_def)
qed

lemma file_response_length:
  assumes "length body \<le> 2 ^ 29"
  shows "length (concat (response_parts (file_response close body))) \<le> 2 ^ 30"
proof -
  have "length (dec_nat (length body)) \<le> 13"
    using assms by (intro length_dec_nat) simp_all
  moreover have "head_lines (file_response close body) = ''HTTP/1.1 200 OK'' #
      (if close then [''Connection: close'']
       else [''Content-Length: '' @ dec_nat (length body), ''Connection: Keep-Alive'']) @
      [''Server: Carflib'']"
  proof -
    have "dec_int 200 = ''200''" by code_simp
    then show ?thesis
      by (simp add: head_lines_def status_line_def file_response_def setBody_def addRespHeader_def
        setStatusMessage_def setStatusCode_def new_response_def)
  qed
  ultimately show ?thesis
    using assms response_text [of "file_response close body"] by simp
qed

lemma server_more: "conn_io.more io' = conn_io.more io \<Longrightarrow> users io' = users io \<and> sql io' = sql io"
  for io io' :: "'w server_io_scheme"
  by (cases io; cases io') simp

lemma sent_request_simps:
  "req_path (sent_request m path query v11 hs body) = path"
  "req_body (sent_request m path query v11 hs body) = body"
  "req_method (sent_request m path query v11 hs body) = method_of m"
  by (simp_all add: sent_request_def)

lemma ctx_reset_new: "ctx_reset \<lparr>ctx_request = r, parseState = s\<rparr> = new_context"
  by (simp add: ctx_reset_def swap_request_def new_context_def)

text \<open>A read that completes a request without body, up to the callback.\<close>

lemma handleRead_request:
  assumes "line_ok m path query" and "\<forall>h \<in> set hs. header_ok h" and "method_of m \<noteq> POST"
    and "conn_mode c = 1" and "buf_ok (readBuffer c)" and "contents (readBuffer c) = []"
    and "conn_context c = Some new_context"
    and "int (length (render_request m path query v11 hs @ rest)) < writableBytes (readBuffer c)"
  shows "\<exists>b ctx1. handleRead cb now [Data (render_request m path query v11 hs @ rest)] c io =
      cb (c\<lparr>visited := now, readBuffer := b\<rparr>) io \<and> buf_ok b \<and> buf_rest b \<and>
    buf_size b = buf_size (readBuffer c) \<and>
    spec_parse new_context (contents b) True = Inr (True, ctx1, rest) \<and>
    ctx1 = \<lparr>ctx_request = sent_request m path query v11 hs [], parseState = kGotAll\<rparr>"
proof -
  let ?s = "render_request m path query v11 hs @ rest"
  have ne: "render_request m path query v11 hs \<noteq> []" by (simp add: render_request_def)
  obtain b where b: "read_in ?s (readBuffer c) = Inr b" "buf_ok b" "contents b = ?s"
      "buf_size b = buf_size (readBuffer c)"
    using read_in_ok [OF assms(5,8)] assms(6) by auto
  have "buf_rest b"
    using b(3) ne contents_Nil_iff [OF b(2)] by (simp add: buf_rest_def)
  moreover have "handleRead cb now [Data ?s] c io = cb (c\<lparr>visited := now, readBuffer := b\<rparr>) io"
    using b(1) ne assms(4) by (simp add: handleRead_def handleRead_LT_def)
  moreover have "spec_parse new_context ?s True =
      Inr (True, \<lparr>ctx_request = sent_request m path query v11 hs [], parseState = kGotAll\<rparr>, rest)"
    using spec_parse_request [OF assms(1,2), of v11 rest] assms(3) by (simp add: spec_parse_gotAll)
  ultimately show ?thesis using b by auto
qed

text \<open>The same with the parser of the connection as the callback, up to the answer.\<close>

lemma handleRead_onMessage:
  assumes "line_ok m path query" and "\<forall>h \<in> set hs. header_ok h" and "method_of m \<noteq> POST"
    and "conn_mode c = 1" and "buf_ok (readBuffer c)" and "contents (readBuffer c) = []"
    and "conn_context c = Some new_context"
    and "int (length (render_request m path query v11 hs @ rest)) < writableBytes (readBuffer c)"
  shows "\<exists>b ctx1. handleRead (onMessage env) now [Data (render_request m path query v11 hs @ rest)] c io =
      res_bind (onRequest env (sent_request m path query v11 hs [])
          (c\<lparr>visited := now, readBuffer := b, conn_context := Some ctx1\<rparr>) io)
        (\<lambda>(c3, io3). Inr (c3\<lparr>conn_context := Some new_context\<rparr>, io3)) \<and>
    contents b = rest \<and> buf_ok b \<and> buf_rest b \<and> buf_size b = buf_size (readBuffer c)"
proof -
  let ?s = "render_request m path query v11 hs @ rest"
  obtain b ctx1 where b: "handleRead (onMessage env) now [Data ?s] c io =
        onMessage env (c\<lparr>visited := now, readBuffer := b\<rparr>) io" "buf_ok b" "buf_rest b"
      "buf_size b = buf_size (readBuffer c)" "spec_parse new_context (contents b) True = Inr (True, ctx1, rest)"
    and ctx1: "ctx1 = \<lparr>ctx_request = sent_request m path query v11 hs [], parseState = kGotAll\<rparr>"
    using handleRead_request [OF assms] by blast
  let ?c = "c\<lparr>visited := now, readBuffer := b\<rparr>"
  have "conn_context ?c = Some new_context" "buf_ok (readBuffer ?c)" "gotAll ctx1"
    using assms(7) b(2) ctx1 by (simp_all add: gotAll_def)
  with b(5) show ?thesis
    using onMessage_complete [of ?c new_context ctx1 rest env io] b(1,3,4)
    by (auto simp: ctx1 ctx_reset_new)
qed

lemma out_ok_simps [simp]:
  "out_ok (c\<lparr>readBuffer := b\<rparr>) io = out_ok c io"
  "out_ok (c\<lparr>visited := t\<rparr>) io = out_ok c io"
  "out_ok (c\<lparr>conn_context := x\<rparr>) io = out_ok c io"
  by (simp_all add: out_ok_def registered_def wants_write_def)

subsection \<open>Lemmas on the form\<close>

lemma str_at_append:
  "k < length s \<Longrightarrow> str_at (pre @ s @ post) (length pre + k) = Inr (s ! k)"
  by (simp add: str_at_def nth_append)

lemma str_at_NUL: "str_at s (length s) = Inr NUL"
  by (simp add: str_at_def)

lemma copy_until_stops:
  assumes "\<forall>k < length s. str_at body (i + k) = Inr (s ! k)" and "str_at body (i + length s) = Inr stop"
    and "stop \<notin> set s" and "length acc + length s < 100"
  shows "copy_until stop body i acc = Inr (acc @ s)"
  using assms
proof (induction s arbitrary: i acc)
  case Nil
  then show ?case by (simp add: copy_until.simps [of stop body i])
next
  case (Cons x s)
  have "\<forall>k < length s. str_at body (Suc i + k) = Inr (s ! k)"
    using Cons.prems(1) by (metis Suc_less_eq add_Suc_shift length_Cons nth_Cons_Suc)
  then have "copy_until stop body (Suc i) (acc @ [x]) = Inr ((acc @ [x]) @ s)"
    using Cons.prems(2-4) by (intro Cons.IH) simp_all
  moreover have "str_at body i = Inr x"
    using Cons.prems(1) [rule_format, of 0] by simp
  ultimately show ?case
    using Cons.prems(3,4) by (auto simp: copy_until.simps [of stop body i])
qed

lemma copy_until_runs_over:
  assumes "i = 5 + length acc" and "i \<le> 105" and "stop \<noteq> NUL"
    and "\<forall>k. i \<le> k \<and> k < 105 \<and> k < length body \<longrightarrow> body ! k \<noteq> stop"
    and "i \<le> Suc (length body)"
  shows "copy_until stop body i acc = Inl (if 105 \<le> length body then Overrun else Bad_Range)"
  using assms
proof (induction "106 - i" arbitrary: i acc)
  case 0
  then show ?case by simp
next
  case (Suc n)
  consider "i = Suc (length body)" | "i \<le> length body" "i = 105" | "i \<le> length body" "i < 105"
    using Suc.prems(2,5) by linarith
  then show ?case
  proof cases
    case 1
    with Suc.prems(2) show ?thesis by (subst copy_until.simps) (simp add: str_at_def)
  next
    case 2
    with Suc.prems(1) show ?thesis by (subst copy_until.simps) (simp add: str_at_def)
  next
    case 3
    then obtain x where x: "str_at body i = Inr x" "x \<noteq> stop"
      using Suc.prems(3,4) by (cases "i = length body") (auto simp: str_at_def)
    have "copy_until stop body (Suc i) (acc @ [x]) = Inl (if 105 \<le> length body then Overrun else Bad_Range)"
      by (rule Suc.hyps(1)) (use Suc.hyps(2) Suc.prems 3 in auto)
    with x 3 Suc.prems(1) show ?thesis by (subst copy_until.simps) simp
  qed
qed

definition form_text :: "string \<Rightarrow> string \<Rightarrow> string" where
  "form_text name password = ''user='' @ name @ ''&password='' @ password"

definition form_ok :: "string \<Rightarrow> string \<Rightarrow> bool" where
  "form_ok name password \<longleftrightarrow> CHR ''&'' \<notin> set name \<and> NUL \<notin> set name \<and> NUL \<notin> set password \<and>
     length name < 100 \<and> length password < 100 \<and> length name + length password < 150"

lemma read_form_text:
  assumes "form_ok name password"
  shows "read_form (form_text name password) = Inr (name, password)"
proof -
  let ?body = "form_text name password"
  have one: "?body = ''user='' @ name @ (''&password='' @ password)"
    by (simp add: form_text_def)
  have five: "5 = length ''user=''" by simp
  have "copy_until (CHR ''&'') ?body 5 [] = Inr ([] @ name)"
    unfolding five
  proof (rule copy_until_stops)
    show "\<forall>k < length name. str_at ?body (length ''user='' + k) = Inr (name ! k)"
      unfolding one using str_at_append by blast
    show "str_at ?body (length ''user='' + length name) = Inr (CHR ''&'')"
      by (simp add: form_text_def str_at_def nth_append)
  qed (use assms in \<open>simp_all add: form_ok_def\<close>)
  moreover have "copy_until NUL ?body (5 + length name + 10) [] = Inr ([] @ password)"
  proof (rule copy_until_stops)
    have two: "?body = (''user='' @ name @ ''&password='') @ password @ []"
      by (simp add: form_text_def)
    have len: "5 + length name + 10 = length (''user='' @ name @ ''&password='')" by simp
    show "\<forall>k < length password. str_at ?body (5 + length name + 10 + k) = Inr (password ! k)"
      unfolding two len using str_at_append by blast
    have "5 + length name + 10 + length password = length ?body"
      by (simp add: form_text_def)
    then show "str_at ?body (5 + length name + 10 + length password) = Inr NUL"
      by (simp add: str_at_NUL)
  qed (use assms in \<open>simp_all add: form_ok_def\<close>)
  ultimately show ?thesis by (simp add: read_form_def)
qed

lemma insert_text_fits: "form_ok name password \<Longrightarrow> \<exists>t. insert_text name password = Inr t"
  by (simp add: insert_text_def form_ok_def)

text \<open>The page and the table of users after a form, when every INSERT succeeds.\<close>

definition cgi_outcome :: "string \<Rightarrow> string \<Rightarrow> string \<Rightarrow> (string, string) smap \<Rightarrow>
    string \<times> (string, string) smap" where
  "cgi_outcome path name password us =
     (if path = ''/3CGISQL.cgi''
      then if smap_find us name = None
           then (''/root/log.html'', smap_insert name password us)
           else (''/root/registerError.html'', us)
      else if smap_find us name = Some password then (''/root/welcome.html'', us)
      else (''/root/logError.html'', us))"

lemma write_side_room:
  assumes "out_ok c io" and "contents (writeBuffer c) = []"
    and "readIndex (writeBuffer c) = 0" and "0 < buf_size (writeBuffer c)" and "n \<le> 2 ^ 30"
  shows "buf_room (writeBuffer c) n"
proof -
  have "writeIndex (writeBuffer c) = 0"
    using assms(1-3) by (simp add: out_ok_def contents_Nil_iff buf_empty_def)
  with assms(3-5) show ?thesis by (simp add: buf_room_def)
qed

text \<open>A connection as the server sets it up, for concrete instances.\<close>

definition fresh_server :: "write_res list \<Rightarrow> (string, string) smap \<Rightarrow> server_io" where
  "fresh_server as us = \<lparr>io_poll = new_epoll, io_writes = as, io_sent = [], io_fin = False,
     io_removals = [], io_closed = [], users = us, sql = (new_pool 0)\<lparr>reserve := True\<rparr>\<rparr>"

definition ready_pool :: sql_pool where
  "ready_pool = (new_pool 1)\<lparr>m_FreeConn := 1, connList := [1], reserve := True\<rparr>"

lemma ready_pool_ok: "pool_ok ready_pool"
  by (simp add: ready_pool_def new_pool_def pool_ok_def)

lemma fresh_http_connection:
  obtains c io where
    "connectEstablished (onConnection (new_connection 0 7 1 ''peer'' 0 None None)) (fresh_server as us) = (c, io)"
    and "out_ok c io" and "conn_mode c = 1" and "io_sent io = []" and "io_writes io = as"
    and "writeBuffer c = buf_new 1024" and "readBuffer c = buf_new 1024"
    and "conn_context c = Some new_context" and "\<not> io_fin io" and "users io = us"
proof -
  have new: "onConnection (new_connection 0 7 1 ''peer'' 0 None None) =
      new_connection 0 7 1 ''peer'' 0 None (Some new_context)"
    by (simp add: onConnection_def new_connection_def)
  obtain c io where est: "connectEstablished (new_connection 0 7 1 ''peer'' 0 None (Some new_context))
      (fresh_server as us) = (c, io)" by fastforce
  have "epoll_ok (io_poll (fresh_server as us))" by (simp add: fresh_server_def)
  moreover have "smap_find (ep_channels (io_poll (fresh_server as us))) 7 = None"
    by (simp add: fresh_server_def new_epoll_def)
  ultimately have "out_ok c io \<and> conn_mode c = 1 \<and> io_sent io = [] \<and> io_writes io = as \<and>
      writeBuffer c = buf_new 1024"
    using established_out_ok [OF _ _ est] by (simp add: fresh_server_def initBufSize_def)
  moreover have "readBuffer c = buf_new 1024 \<and> conn_context c = Some new_context \<and> \<not> io_fin io \<and>
      users io = us"
    using connectEstablished_frame [OF est] server_more [of io "fresh_server as us"]
    by (simp add: new_connection_def fresh_server_def initBufSize_def)
  ultimately show thesis using that est unfolding new by blast
qed

lemma file_reply:
  fixes io :: "'w server_io_scheme"
  assumes "line_ok m path query" and "\<forall>h \<in> set hs. header_ok h" and "method_of m \<noteq> POST"
    and "conn_mode c = 1" and "buf_ok (readBuffer c)" and "contents (readBuffer c) = []"
    and "conn_context c = Some new_context"
    and "int (length (render_request m path query v11 hs @ rest)) < writableBytes (readBuffer c)"
    and "\<not> is_cgi path" and "file_path (env_cwd env) (static_page path) = Inr file"
    and "env_open env file = Some (map Data cs @ [Data []])"
    and "\<forall>s \<in> set cs. s \<noteq> [] \<and> length s \<le> 2048" and "length (concat cs) \<le> 2 ^ 29"
    and "out_ok c io" and "contents (writeBuffer c) = []"
    and "readIndex (writeBuffer c) = 0" and "0 < buf_size (writeBuffer c)" and "io_writes io = a # as"
  shows "\<exists>c' io'. handleRead (onMessage env) now [Data (render_request m path query v11 hs @ rest)] c io =
      Inr (c', io') \<and>
    io_sent io' @ contents (writeBuffer c') = io_sent io @
      concat (response_parts (file_response (wants_close (sent_request m path query v11 hs [])) (concat cs))) \<and>
    (io_fin io' \<longleftrightarrow> io_fin io \<or> wants_close (sent_request m path query v11 hs [])) \<and>
    conn_context c' = Some new_context \<and> contents (readBuffer c') = rest \<and>
    users io' = users io \<and> sql io' = sql io"
proof -
  let ?req = "sent_request m path query v11 hs []" and ?s = "render_request m path query v11 hs @ rest"
  let ?resp = "file_response (wants_close ?req) (concat cs)"
  let ?text = "concat (response_parts ?resp)"
  obtain b2 ctx1 where b2: "handleRead (onMessage env) now [Data ?s] c io =
        res_bind (onRequest env ?req (c\<lparr>visited := now, readBuffer := b2, conn_context := Some ctx1\<rparr>) io)
          (\<lambda>(c3, io3). Inr (c3\<lparr>conn_context := Some new_context\<rparr>, io3))" "contents b2 = rest"
    using handleRead_onMessage [OF assms(1-8)] by blast
  let ?c = "c\<lparr>visited := now, readBuffer := b2, conn_context := Some ctx1\<rparr>"
  have len: "length ?text \<le> 2 ^ 30"
    by (rule file_response_length [OF assms(13)])
  have room: "buf_room (writeBuffer c) (length ?text)"
    using write_side_room [OF assms(14-17) len] .
  have page: "defaultHttpCallback env ?req (new_response (wants_close ?req)) io = Inr (?resp, io)"
    using assms(9-12) by (intro defaultHttpCallback_static) (simp_all add: sent_request_simps)
  obtain c3 io3 where r: "onRequest env ?req ?c io = Inr (c3, io3)"
      "io_sent io3 @ contents (writeBuffer c3) = io_sent io @ ?text"
      "io_fin io3 \<longleftrightarrow> io_fin io \<or> wants_close ?req" "readBuffer c3 = b2"
      "conn_io.more io3 = conn_io.more io"
    using onRequest_ok [OF page len, of ?c a as] assms(14,15,18) room by auto
  then show ?thesis
    using b2 server_more [OF r(5)] by auto
qed

lemma file_reply_read:
  "length body \<le> 2 ^ 29 \<Longrightarrow> read_head (concat (response_parts (file_response close body))) =
    Some (head_lines (file_response close body), body)"
  using response_text [of "file_response close body"] read_head_lines [OF head_lines_clean [OF file_response_clean]]
  by simp

text \<open>
  C14: a file is served. A level-triggered connection waits for a request with nothing
  buffered in either direction; one read delivers a rendered request without body (any
  method but POST, any headers) whose path stands for a file that can be read, and whatever
  follows it. Then the
  bytes that leave and wait to leave are exactly one response that a client splits into a
  200 status line, the headers and the whole content of that file; the sending side is shut
  down if and only if the request asks for it; users and database connections are untouched.
  The connection is ready for the next request, but one that came with the same read is not
  looked at: it stays unread, to the byte, until the client sends more.
\<close>

theorem http_file_served:
  fixes io :: "'w server_io_scheme"
  assumes "line_ok m path query" and "\<forall>h \<in> set hs. header_ok h" and "method_of m \<noteq> POST"
    and "conn_mode c = 1" and "buf_ok (readBuffer c)" and "contents (readBuffer c) = []"
    and "conn_context c = Some new_context"
    and "int (length (render_request m path query v11 hs @ rest)) < writableBytes (readBuffer c)"
    and "\<not> is_cgi path" and "file_path (env_cwd env) (static_page path) = Inr file"
    and "env_open env file = Some (map Data cs @ [Data []])"
    and "\<forall>s \<in> set cs. s \<noteq> [] \<and> length s \<le> 2048" and "length (concat cs) \<le> 2 ^ 29"
    and "out_ok c io" and "contents (writeBuffer c) = []"
    and "readIndex (writeBuffer c) = 0" and "0 < buf_size (writeBuffer c)" and "io_writes io = a # as"
  shows "\<exists>c' io'. handleRead (onMessage env) now [Data (render_request m path query v11 hs @ rest)] c io =
      Inr (c', io') \<and>
    (\<exists>out. io_sent io' @ contents (writeBuffer c') = io_sent io @ out \<and>
      read_head out = Some (head_lines (file_response
        (wants_close (sent_request m path query v11 hs [])) (concat cs)), concat cs)) \<and>
    (io_fin io' \<longleftrightarrow> io_fin io \<or> wants_close (sent_request m path query v11 hs [])) \<and>
    conn_context c' = Some new_context \<and> contents (readBuffer c') = rest \<and>
    users io' = users io \<and> sql io' = sql io"
proof -
  let ?text = "concat (response_parts (file_response (wants_close (sent_request m path query v11 hs [])) (concat cs)))"
  have "read_head ?text = Some (head_lines (file_response (wants_close (sent_request m path query v11 hs [])) (concat cs)), concat cs)"
    by (rule file_reply_read [OF assms(13)])
  then show ?thesis using file_reply [OF assms, where now = now] by auto
qed

theorem http_file_served_witness:
  "\<exists>c io c' io' out.
     connectEstablished (onConnection (new_connection 0 7 1 ''peer'' 0 None None))
       (fresh_server [Wrote 9] []) = (c, io) \<and>
     handleRead (onMessage \<lparr>env_cwd = ''/srv'', env_open = (\<lambda>f. if f = ''/srv/root/log.html''
           then Some [Data ''hi'', Data []] else None), env_query = (\<lambda>_ _. True)\<rparr>)
       (Timestamp 5) [Data (render_request ''GET'' ''/1'' [] True [] @ ''GET /0'')] c io = Inr (c', io') \<and>
     io_sent io' @ contents (writeBuffer c') = out \<and>
     map_option snd (read_head out) = Some ''hi'' \<and> \<not> io_fin io' \<and> contents (readBuffer c') = ''GET /0''"
proof -
  let ?env = "\<lparr>env_cwd = ''/srv'', env_open = (\<lambda>f. if f = ''/srv/root/log.html''
           then Some [Data ''hi'', Data []] else None), env_query = (\<lambda>_ _. True)\<rparr> :: http_env"
  obtain c io where c: "connectEstablished (onConnection (new_connection 0 7 1 ''peer'' 0 None None))
        (fresh_server [Wrote 9] []) = (c, io)" "out_ok c io" "conn_mode c = 1" "io_sent io = []"
      "io_writes io = [Wrote 9]" "writeBuffer c = buf_new 1024" "readBuffer c = buf_new 1024"
      "conn_context c = Some new_context" "\<not> io_fin io"
    by (rule fresh_http_connection)
  have len: "length (render_request ''GET'' ''/1'' [] True [] @ ''GET /0'') = 25"
    by code_simp
  have line: "line_ok ''GET'' ''/1'' []" by (simp add: line_ok_def)
  have path: "file_path (env_cwd ?env) (static_page ''/1'') = Inr ''/srv/root/log.html''"
    by (simp add: file_path_def static_page_def)
  have close: "\<not> wants_close (sent_request ''GET'' ''/1'' [] True [] [])"
    by (simp add: wants_close_def sent_request_def getHeader_def)
  have "\<exists>c' io'. handleRead (onMessage ?env) (Timestamp 5)
        [Data (render_request ''GET'' ''/1'' [] True [] @ ''GET /0'')] c io = Inr (c', io') \<and>
    (\<exists>out. io_sent io' @ contents (writeBuffer c') = io_sent io @ out \<and>
      read_head out = Some (head_lines (file_response
        (wants_close (sent_request ''GET'' ''/1'' [] True [] [])) (concat [''hi''])), concat [''hi''])) \<and>
    (io_fin io' \<longleftrightarrow> io_fin io \<or> wants_close (sent_request ''GET'' ''/1'' [] True [] [])) \<and>
    conn_context c' = Some new_context \<and> contents (readBuffer c') = ''GET /0'' \<and>
    users io' = users io \<and> sql io' = sql io"
    by (rule http_file_served [OF line _ _ c(3) _ _ c(8) _ _ path _ _ _ c(2) _ _ _ c(5)])
      (simp_all only: len, simp_all add: c method_of_def is_cgi_def writableBytes_new,
        simp_all add: buf_new_def buf_size_def)
  with c(1,4,9) close show ?thesis by auto
qed

text \<open>
  A file that cannot be opened is answered with status 200, message \<open>ok\<close> and an empty
  body: the client cannot tell it from an empty file, the status 404 of the enumeration is
  never used.
\<close>

lemma http_missing_file:
  assumes "\<not> is_cgi (req_path req)" and "file_path (env_cwd env) (static_page (req_path req)) = Inr file"
    and "env_open env file = None"
  shows "\<exists>resp. defaultHttpCallback env req (new_response close) io = Inr (resp, io) \<and>
    statusCode resp = k200Ok \<and> statusMessage resp = ''ok'' \<and> resp_body resp = []"
  using choose_file_static [OF assms(1,2), of io] assms(3)
  by (simp add: defaultHttpCallback_def serve_file_def setStatusCode_def setStatusMessage_def
    addRespHeader_def new_response_def)

text \<open>
  A file whose \<open>read\<close> fails, such as a directory, ends in a \<open>std::length_error\<close> that
  nothing catches: the count of -1 becomes the length of a string. The client chooses the
  path.
\<close>

lemma http_read_error:
  assumes "\<not> is_cgi (req_path req)" and "file_path (env_cwd env) (static_page (req_path req)) = Inr file"
    and "env_open env file = Some (map Data cs @ Read_Failed e # as)"
    and "\<forall>s \<in> set cs. s \<noteq> [] \<and> length s \<le> 2048"
  shows "onRequest env req c io = Inl Length_Error"
  using choose_file_static [OF assms(1,2), of io] assms(3) read_file_error [OF assms(4), of e as "[]"]
  by (simp add: onRequest_def defaultHttpCallback_def serve_file_def)

lemma http_read_error_witness:
  "onRequest \<lparr>env_cwd = ''/srv'', env_open = (\<lambda>_. Some [Read_Failed EOTHER]), env_query = (\<lambda>_ _. True)\<rparr>
      (setPath ''/'' new_request) (new_connection 0 7 1 ''peer'' 0 None None) (fresh_server [] []) =
    Inl Length_Error"
proof -
  have path: "file_path ''/srv'' (static_page ''/'') = Inr ''/srv/root/judge.html''"
    by (simp add: static_page_def file_path_def)
  have "Some [Read_Failed EOTHER] = Some (map Data [] @ Read_Failed EOTHER # [])" by simp
  with path show ?thesis
    by (intro http_read_error [of _ _ _ "[]" EOTHER "[]"]) (simp_all add: is_cgi_def setPath_def)
qed

text \<open>
  C33: a form without an ampersand in its bytes 5 to 104 drives the copying loop out of its
  bounds: it writes behind the 100 bytes of \<open>name\<close> if the body is that long, and otherwise
  reads behind the body.
\<close>

theorem http_form_overrun:
  assumes "is_cgi (req_path req)" and "length (env_cwd env) < 200"
    and "CHR ''&'' \<notin> set (drop 5 (take 105 (req_body req)))" and "4 \<le> length (req_body req)"
  shows "onRequest env req c io =
    Inl (if 105 \<le> length (req_body req) then Overrun else Bad_Range)"
proof -
  have "\<forall>k. 5 \<le> k \<and> k < 105 \<and> k < length (req_body req) \<longrightarrow> req_body req ! k \<noteq> CHR ''&''"
  proof (intro allI impI)
    fix k
    assume k: "5 \<le> k \<and> k < 105 \<and> k < length (req_body req)"
    then have "req_body req ! k = drop 5 (take 105 (req_body req)) ! (k - 5)" by simp
    moreover have "k - 5 < length (drop 5 (take 105 (req_body req)))" using k by auto
    ultimately show "req_body req ! k \<noteq> CHR ''&''" using assms(3) by (metis nth_mem)
  qed
  then have "copy_until (CHR ''&'') (req_body req) 5 [] =
      Inl (if 105 \<le> length (req_body req) then Overrun else Bad_Range)"
    using assms(4) by (intro copy_until_runs_over) simp_all
  then have "cgi_page env (req_path req) (req_body req) io =
      Inl (if 105 \<le> length (req_body req) then Overrun else Bad_Range)"
    by (simp add: cgi_page_def read_form_def)
  then show ?thesis
    using choose_file_cgi [OF assms(1,2), of io] by (simp add: onRequest_def defaultHttpCallback_def)
qed

theorem http_form_overrun_witness:
  "onRequest \<lparr>env_cwd = ''/srv'', env_open = (\<lambda>_. None), env_query = (\<lambda>_ _. True)\<rparr>
      (setPath ''/2CGISQL.cgi'' (appendBody ''user=me'' new_request))
      (new_connection 0 7 1 ''peer'' 0 None None) (fresh_server [] []) = Inl Bad_Range"
proof -
  let ?req = "setPath ''/2CGISQL.cgi'' (appendBody ''user=me'' new_request)"
  have req: "req_path ?req = ''/2CGISQL.cgi''" "req_body ?req = ''user=me''"
    by (simp_all add: setPath_def appendBody_def new_request_def)
  show ?thesis
    by (subst http_form_overrun) (simp_all add: req is_cgi_def)
qed

lemma cgi_page_ok:
  fixes io :: "'w server_io_scheme"
  assumes "form_ok name password" and "is_cgi path" and "pool_ok (sql io)"
    and "\<forall>con t. env_query env con t" and "length (env_cwd env) < 150"
  shows "\<exists>p. cgi_page env path (form_text name password) io =
      Inr (env_cwd env @ fst (cgi_outcome path name password (users io)),
        io\<lparr>users := snd (cgi_outcome path name password (users io)), sql := p\<rparr>) \<and>
    pool_ok p \<and> mset (connList p) = mset (connList (sql io))"
proof -
  obtain t where t: "insert_text name password = Inr t"
    using insert_text_fits [OF assms(1)] by blast
  obtain con p1 r p2 where pool: "GetConnection (sql io) = Inr (con, p1)"
      "ReleaseConnection con p1 = Inr (r, p2)" "pool_ok p2" "mset (connList p2) = mset (connList (sql io))"
    using pool_use [OF assms(3)] by blast
  have str: "c_str name = name" "c_str password = password"
    using assms(1) by (simp_all add: form_ok_def c_str_id)
  obtain page us where out: "cgi_outcome path name password (users io) = (page, us)" by fastforce
  have "length page \<le> 24"
    using out by (auto simp: cgi_outcome_def split: if_splits)
  then have fits: "file_path (env_cwd env) page = Inr (env_cwd env @ page)"
    using assms(5) by (simp add: file_path_def)
  have choice: "(if path = ''/3CGISQL.cgi''
      then if smap_find (users io) name = None
        then if env_query env con t
          then (''/root/log.html'', smap_insert name password (users io))
          else (''/root/registerError.html'', users io)
        else (''/root/registerError.html'', users io)
      else if smap_find (users io) name = Some password
        then (''/root/welcome.html'', users io)
        else (''/root/logError.html'', users io)) = (page, us)"
    unfolding out [symmetric] using assms(4) by (simp add: cgi_outcome_def)
  have "cgi_page env path (form_text name password) io =
      Inr (env_cwd env @ page, io\<lparr>users := us, sql := p2\<rparr>)"
    by (simp only: cgi_page_def raii_enter_def raii_leave_def read_form_text [OF assms(1)] res_bind.simps prod.case Let_def str t
      pool(1,2) choice fits)
  with pool(3,4) out show ?thesis by auto
qed



text \<open>
  A request line that the parser refuses is answered at once with status 400, and the
  sending side is shut down. The line is not consumed: it stays unread, and the connection
  stays open for reading.
\<close>

lemma http_bad_request:
  assumes "conn_mode c = 1" and "buf_ok (readBuffer c)" and "contents (readBuffer c) = []"
    and "conn_context c = Some new_context"
    and "CR \<notin> set line" and "\<not> fst (processRequestLine line new_context)"
    and "int (length (line @ crlf @ t)) < writableBytes (readBuffer c)"
    and "out_ok c io" and "contents (writeBuffer c) = []"
    and "readIndex (writeBuffer c) = 0" and "0 < buf_size (writeBuffer c)" and "io_writes io = a # as"
  shows "\<exists>c' io'. handleRead (onMessage env) now [Data (line @ crlf @ t)] c io = Inr (c', io') \<and>
    io_sent io' @ contents (writeBuffer c') = io_sent io @ bad_request \<and> io_fin io' \<and>
    contents (readBuffer c') = line @ crlf @ t \<and> conn_state c' = kshutdown"
proof -
  let ?s = "line @ crlf @ t"
  obtain b where b: "read_in ?s (readBuffer c) = Inr b" "buf_ok b" "contents b = ?s"
    using read_in_ok [OF assms(2,7)] assms(3) by auto
  let ?c = "c\<lparr>visited := now, readBuffer := b\<rparr>"
  have read: "handleRead (onMessage env) now [Data ?s] c io = onMessage env ?c io"
    using b(1) assms(1) by (simp add: handleRead_def handleRead_LT_def)
  obtain c1 where c1: "processRequestLine line new_context = (False, c1)"
    using assms(6) by (cases "processRequestLine line new_context") auto
  have "spec_iter new_context ?s True = Inr (False, False, c1, ?s)"
    using search_crlf_line [OF search_crlf_None [OF assms(5)], of t] c1
    by (simp add: spec_iter_def new_context_def)
  then have "spec_parse new_context (contents b) True = Inr (False, c1, ?s)"
    unfolding b(3) by (rule spec_parse_stop)
  then obtain b1 where b1: "parseRequest new_context b = Inr (False, c1, b1)" "contents b1 = ?s"
    using unread_parseRequest [OF b(2), of new_context] by (auto simp: unread_Inr)
  have "parseState c1 = parseState new_context"
    using parseState_processRequestLine [of line new_context] c1 by simp
  then have got: "\<not> gotAll c1" by (simp add: gotAll_def new_context_def)
  let ?d = "?c\<lparr>readBuffer := b1, conn_context := Some c1\<rparr>"
  have "length bad_request \<le> 2 ^ 30" by (simp add: bad_request_def)
  from write_side_room [OF assms(8-11) this] obtain c2 io2 where s: "send bad_request ?d io = Inr (c2, io2)"
      "outgoing c2 io2 = outgoing ?d io @ bad_request"
    using send_direct [of ?d io bad_request a as] assms(8,9,12) by auto
  have "onMessage env ?c io = Inr (shutdownWrite c2 io2)"
    using assms(4) b1(1) s(1) got by (simp add: onMessage_def case_prod_beta)
  moreover have "outgoing ?d io = io_sent io"
    using assms(9) by (simp add: outgoing_def)
  ultimately show ?thesis
    using read s(2) send_frame [OF s(1)] b1(2) by (simp add: shutdownWrite_def outgoing_def)
qed

lemma http_bad_request_witness:
  "\<exists>c io c' io'.
     connectEstablished (onConnection (new_connection 0 7 1 ''peer'' 0 None None))
       (fresh_server [Wrote 9] []) = (c, io) \<and>
     handleRead (onMessage \<lparr>env_cwd = ''/srv'', env_open = (\<lambda>_. None),
       env_query = (\<lambda>_ _. True)\<rparr>) (Timestamp 5) [Data (''GET / HTTP/2.0'' @ crlf @ [])] c io = Inr (c', io') \<and>
     io_sent io' @ contents (writeBuffer c') = bad_request \<and> io_fin io'"
proof -
  obtain c io where c: "connectEstablished (onConnection (new_connection 0 7 1 ''peer'' 0 None None))
        (fresh_server [Wrote 9] []) = (c, io)" "out_ok c io" "conn_mode c = 1" "io_sent io = []"
      "io_writes io = [Wrote 9]" "writeBuffer c = buf_new 1024" "readBuffer c = buf_new 1024"
      "conn_context c = Some new_context" "\<not> io_fin io"
    by (rule fresh_http_connection)
  have "\<not> fst (processRequestLine ''GET / HTTP/2.0'' new_context)"
    by code_simp
  then have "\<exists>c' io'. handleRead (onMessage \<lparr>env_cwd = ''/srv'', env_open = (\<lambda>_. None),
        env_query = (\<lambda>_ _. True)\<rparr>) (Timestamp 5) [Data (''GET / HTTP/2.0'' @ crlf @ [])] c io =
      Inr (c', io') \<and> io_sent io' @ contents (writeBuffer c') = io_sent io @ bad_request \<and> io_fin io' \<and>
      contents (readBuffer c') = ''GET / HTTP/2.0'' @ crlf @ [] \<and> conn_state c' = kshutdown"
    by (rule http_bad_request [rotated 5]) (simp_all add: c writableBytes_new,
      simp_all add: buf_new_def buf_size_def)
  with c(1,4) show ?thesis by auto
qed

end
