(* ===== verification/ConnFrame.thy ===== *)
theory ConnFrame
  imports HttpServer
begin

text \<open>
  What a handler of a connection can touch. A run of the send, write and message handlers keeps
  the connection registered, leaves the registrations of all other descriptors alone, keeps the
  identity, the descriptor and the timer of the connection, and only adds to what has been
  sent. \<open>keeps\<close> states this as a relation that can be chained, so that the frame of a handler
  follows from those of its calls.
\<close>

definition keeps :: "'x tcp_connection \<Rightarrow> 'w conn_io_scheme \<Rightarrow> 'x tcp_connection \<Rightarrow>
    'w conn_io_scheme \<Rightarrow> bool" where
  "keeps c io c' io' \<longleftrightarrow>
     connID c' = connID c \<and> conn_fd c' = conn_fd c \<and> conn_timer c' = conn_timer c \<and>
     conn_mode c' = conn_mode c \<and> chan_fd (conn_channel c') = chan_fd (conn_channel c) \<and>
     chan_id (conn_channel c') = chan_id (conn_channel c) \<and>
     chan_events (conn_channel c') AND readEvent = chan_events (conn_channel c) AND readEvent \<and>
     io_removals io' = io_removals io \<and> io_closed io' = io_closed io \<and>
     (\<exists>w. io_sent io' = io_sent io @ w) \<and>
     (registered c io \<longrightarrow> registered c' io' \<and>
       (\<forall>fd. fd \<noteq> chan_fd (conn_channel c) \<longrightarrow>
         watching (io_poll io') fd = watching (io_poll io) fd \<and>
         smap_find (ep_channels (io_poll io')) fd = smap_find (ep_channels (io_poll io)) fd))"

lemma updateChannel_events: "updateChannel c ep = (c', ep') \<Longrightarrow> chan_events c' = chan_events c \<and>
    has_read c' = has_read c \<and> has_write c' = has_write c"
  by (auto simp: updateChannel_def Let_def split: if_splits)

lemma keeps_refl [simp]: "keeps c io c io"
  by (simp add: keeps_def)

lemma keeps_trans: "keeps c io c1 io1 \<Longrightarrow> keeps c1 io1 c2 io2 \<Longrightarrow> keeps c io c2 io2"
  by (auto simp: keeps_def)

lemma keeps_conn [simp]:
  "keeps c io (c1\<lparr>writeBuffer := b\<rparr>) io1 = keeps c io c1 io1"
  "keeps c io (c1\<lparr>readBuffer := b\<rparr>) io1 = keeps c io c1 io1"
  "keeps c io (c1\<lparr>visited := t\<rparr>) io1 = keeps c io c1 io1"
  "keeps c io (c1\<lparr>conn_state := st\<rparr>) io1 = keeps c io c1 io1"
  "keeps c io (c1\<lparr>conn_context := x\<rparr>) io1 = keeps c io c1 io1"
  "keeps c io c1 (io1\<lparr>io_writes := as\<rparr>) = keeps c io c1 io1"
  "keeps c io c1 (io1\<lparr>io_fin := f\<rparr>) = keeps c io c1 io1"
  by (simp_all add: keeps_def registered_def)

lemma keeps_from [simp]:
  "keeps (c\<lparr>writeBuffer := b\<rparr>) io c1 io1 = keeps c io c1 io1"
  "keeps (c\<lparr>readBuffer := b\<rparr>) io c1 io1 = keeps c io c1 io1"
  "keeps (c\<lparr>visited := t\<rparr>) io c1 io1 = keeps c io c1 io1"
  "keeps (c\<lparr>conn_context := x\<rparr>) io c1 io1 = keeps c io c1 io1"
  by (simp_all add: keeps_def registered_def)

lemma keeps_sent:
  "keeps c io c (io\<lparr>io_sent := io_sent io @ w\<rparr>)"
  "keeps c io c (io\<lparr>io_writes := as, io_sent := io_sent io @ w\<rparr>)"
  by (simp_all add: keeps_def registered_def)

lemma keeps_on_channel:
  assumes "on_channel (update_mask f) c io = (c', io')" and "\<And>m. f m AND readEvent = m AND readEvent"
  shows "keeps c io c' io'"
proof -
  obtain ch ep where up: "update_mask f (conn_channel c) (io_poll io) = (ch, ep)" by fastforce
  then have eq: "c' = c\<lparr>conn_channel := ch\<rparr>" "io' = io\<lparr>io_poll := ep\<rparr>"
    using assms(1) by (auto simp: on_channel_def)
  let ?c = "conn_channel c"
  have same: "chan_fd ch = chan_fd ?c \<and> chan_id ch = chan_id ?c \<and> chan_events ch = f (chan_events ?c)"
    using up by (auto simp: update_mask_def updateChannel_def Let_def split: if_splits)
  moreover have "registered c' io' \<and> (\<forall>fd. fd \<noteq> chan_fd ?c \<longrightarrow>
      watching ep fd = watching (io_poll io) fd \<and>
      smap_find (ep_channels ep) fd = smap_find (ep_channels (io_poll io)) fd)" if "registered c io"
  proof -
    have "epoll_ok (io_poll io)" "chan_ok ?c (io_poll io)"
      using that by (simp_all add: registered_def)
    with up updateChannel_registers [of "io_poll io" "?c\<lparr>chan_events := f (chan_events ?c)\<rparr>" ch ep]
    show ?thesis by (auto simp: eq registered_def update_mask_def)
  qed
  ultimately show ?thesis by (simp add: keeps_def eq assms(2))
qed

lemma keeps_enableWriting:
  assumes "on_channel enableWriting c io = (c', io')"
  shows "keeps c io c' io'"
  by (rule keeps_on_channel [OF assms [unfolded enable_as_update]])
    (rule bit_eqI, auto simp: bit_and_iff bit_or_iff bit_readEvent bit_writeEvent)

lemma keeps_disableWriting:
  assumes "on_channel disableWriting c io = (c', io')"
  shows "keeps c io c' io'"
  by (rule keeps_on_channel [OF assms [unfolded enable_as_update]])
    (rule bit_eqI, auto simp: bit_and_iff bit_not_iff bit_readEvent bit_writeEvent)

lemma keeps_sys_write: "sys_write s io = Inr (r, io') \<Longrightarrow> keeps c io c io'"
  by (auto simp: sys_write_def Let_def keeps_sent split: list.splits write_res.splits)

lemma keeps_write_buffer: "write_buffer c io = Inr (r, io') \<Longrightarrow> keeps c io c io'"
  by (auto simp: write_buffer_def res_simps intro: keeps_sys_write)

lemma keeps_consume [simp]: "keeps c io (consume n c1) io1 = keeps c io c1 io1"
  by (simp add: consume_def)

lemma keeps_from_consume [simp]: "keeps (consume n c) io c1 io1 = keeps c io c1 io1"
  by (simp add: consume_def)

lemma keeps_handleWrite_LT:
  assumes "handleWrite_LT c io = Inr (c', io')"
  shows "keeps c io c' io'"
proof -
  obtain r io1 where w: "write_buffer c io = Inr (r, io1)"
    using assms by (auto simp: handleWrite_LT_def res_simps)
  note k = keeps_write_buffer [OF w]
  show ?thesis
  proof (cases "\<exists>n. r = Inr n \<and> n > 0 \<and> int n = readableBytes (writeBuffer c)")
    case True
    then obtain n where n: "r = Inr n" "n > 0" "int n = readableBytes (writeBuffer c)" by blast
    obtain c2 io2 where off: "on_channel disableWriting c io1 = (c2, io2)" by fastforce
    then have "c' = consume (int n) c2" and "io' = io2"
      using assms w n by (auto simp: handleWrite_LT_def)
    with keeps_trans [OF k keeps_disableWriting [OF off]] show ?thesis by simp
  next
    case False
    then show ?thesis
      using assms w k by (auto simp: handleWrite_LT_def split: sum.splits if_splits)
  qed
qed

lemma keeps_write_loop: "write_loop fuel n c io = Inr (c', io') \<Longrightarrow> keeps c io c' io'"
proof (induction fuel arbitrary: n c io)
  case 0
  then show ?case by simp
next
  case (Suc fuel)
  obtain r io1 where w: "write_buffer c io = Inr (r, io1)"
    using Suc.prems by (auto simp: res_simps)
  note k = keeps_write_buffer [OF w]
  show ?case
  proof (cases "r = Inl EAGAIN")
    case True
    with Suc.prems w have "on_channel enableWriting c io1 = (c', io')" by simp
    from keeps_trans [OF k keeps_enableWriting [OF this]] show ?thesis .
  next
    case False
    define m where "m = (case r of Inl e \<Rightarrow> - 1 | Inr k \<Rightarrow> int k)"
    have "(if n - m = 0 then Inr (consume m c, io1)
        else write_loop fuel (n - m) (consume m c) io1) = Inr (c', io')"
      using Suc.prems w False by (cases r) (auto simp: m_def Let_def split: if_splits)
    with Suc.IH [of "n - m" "consume m c" io1] k show ?thesis
      by (auto split: if_splits intro: keeps_trans)
  qed
qed

lemma keeps_handleWrite: "handleWrite c io = Inr (c', io') \<Longrightarrow> keeps c io c' io'"
  by (auto simp: handleWrite_def split: if_splits intro: keeps_handleWrite_LT keeps_write_loop)

lemma keeps_send:
  assumes "send s c io = Inr (c', io')"
  shows "keeps c io c' io'"
proof -
  let ?first = "if readableBytes (writeBuffer c) = 0
    then res_map (\<lambda>(r, io1). (case r of Inl e \<Rightarrow> 0 | Inr n \<Rightarrow> n, io1)) (sys_write s io)
    else Inr (0, io)"
  obtain n io1 where first: "?first = Inr (n, io1)"
    using assms by (cases ?first) (auto simp: send_def)
  then have k: "keeps c io c io1"
    by (auto simp: res_simps split: if_splits intro: keeps_sys_write)
  show ?thesis
  proof (cases "n < length s")
    case True
    then obtain wb where "on_channel enableWriting (c\<lparr>writeBuffer := wb\<rparr>) io1 = (c', io')"
      using assms first by (auto simp: send_def res_simps)
    from keeps_enableWriting [OF this] have "keeps c io1 c' io'" by simp
    with k show ?thesis by (rule keeps_trans)
  next
    case False
    with assms first k show ?thesis by (simp add: send_def)
  qed
qed

lemma keeps_shutdownWrite: "shutdownWrite c io = (c', io') \<Longrightarrow> keeps c io c' io'"
  by (auto simp: shutdownWrite_def)

subsection \<open>The message handlers\<close>

lemma keeps_server_io [simp]:
  fixes io io1 :: "'w server_io_scheme"
  shows "keeps c io c1 (io1\<lparr>users := us\<rparr>) = keeps c io c1 io1"
    and "keeps c io c1 (io1\<lparr>sql := p\<rparr>) = keeps c io c1 io1"
  by (simp_all add: keeps_def registered_def)

lemma keeps_defaultHttpCallback:
  fixes io io' :: "'w server_io_scheme"
  assumes "defaultHttpCallback env req resp io = Inr (r, io')"
  shows "keeps c io c io'"
proof -
  obtain name where f: "choose_file env req io = Inr (name, io')"
    using assms by (auto simp: defaultHttpCallback_def res_simps)
  show ?thesis
  proof (cases "is_cgi (req_path req)")
    case True
    then have "cgi_page env (req_path req) (req_body req) io = Inr (name, io')"
      using f by (auto simp: choose_file_def is_cgi_def Let_def split: if_splits)
    then show ?thesis
      by (auto simp: cgi_page_def res_simps Let_def case_prod_beta)
  next
    case False
    then show ?thesis
      using f by (auto simp: choose_file_def is_cgi_def Let_def res_simps split: if_splits)
  qed
qed

lemma keeps_onRequest:
  fixes io io' :: "'w server_io_scheme"
  assumes "onRequest env req c io = Inr (c', io')"
  shows "keeps c io c' io'"
proof -
  obtain resp io1 s c2 io2 where "defaultHttpCallback env req (new_response (wants_close req)) io = Inr (resp, io1)"
      and "send s c io1 = Inr (c2, io2)"
      and "(if closeConnection resp then shutdownWrite c2 io2 else (c2, io2)) = (c', io')"
    using assms by (auto simp: onRequest_def res_simps)
  then have "keeps c io c2 io2" and "c2 = c' \<and> io2 = io' \<or> shutdownWrite c2 io2 = (c', io')"
    by (auto split: if_splits intro: keeps_trans keeps_defaultHttpCallback keeps_send)
  then show ?thesis by (auto intro: keeps_trans keeps_shutdownWrite)
qed

lemma keeps_onMessage:
  fixes io io' :: "'w server_io_scheme"
  assumes "onMessage env c io = Inr (c', io')"
  shows "keeps c io c' io'"
proof -
  obtain ctx ok ctx1 b1 where parse: "conn_context c = Some ctx" "parseRequest ctx (readBuffer c) = Inr (ok, ctx1, b1)"
    using assms by (auto simp: onMessage_def res_simps split: option.splits)
  let ?c1 = "c\<lparr>readBuffer := b1, conn_context := Some ctx1\<rparr>"
  let ?first = "if ok then Inr (?c1, io)
      else res_map (\<lambda>(c2, io2). shutdownWrite c2 io2) (send bad_request ?c1 io)"
  have all: "res_bind ?first (\<lambda>(c2, io2). if gotAll ctx1
      then res_bind (onRequest env (ctx_request ctx1) c2 io2) (\<lambda>(c3, io3).
        Inr (c3\<lparr>conn_context := Some (ctx_reset ctx1)\<rparr>, io3))
      else Inr (c2, io2)) = Inr (c', io')"
    using assms unfolding onMessage_def parse(1) option.case parse(2) res_bind.simps(2) prod.case Let_def .
  then obtain c2 io2 where two: "?first = Inr (c2, io2)"
    by (cases ?first) auto
  with all have three: "(if gotAll ctx1
      then res_bind (onRequest env (ctx_request ctx1) c2 io2) (\<lambda>(c3, io3).
        Inr (c3\<lparr>conn_context := Some (ctx_reset ctx1)\<rparr>, io3))
      else Inr (c2, io2)) = Inr (c', io')"
    by simp
  have "keeps ?c1 io c2 io2"
  proof (cases ok)
    case False
    with two obtain c3 io3 where "send bad_request ?c1 io = Inr (c3, io3)" "shutdownWrite c3 io3 = (c2, io2)"
      by (auto simp: res_simps)
    from keeps_trans [OF keeps_send [OF this(1)] keeps_shutdownWrite [OF this(2)]] show ?thesis .
  qed (use two in simp)
  moreover have "keeps c2 io2 c' io'"
    using three by (auto simp: res_simps split: if_splits intro: keeps_onRequest)
  ultimately have "keeps ?c1 io c' io'" by (rule keeps_trans)
  then show ?thesis by simp
qed

subsection \<open>Reading\<close>

text \<open>
  \<open>handleRead\<close> either runs the callback on the connection, or ends in \<open>handleClose\<close>.
\<close>

definition read_outcome :: "'x tcp_connection \<Rightarrow> 'w conn_io_scheme \<Rightarrow> 'x tcp_connection \<Rightarrow>
    'w conn_io_scheme \<Rightarrow> bool" where
  "read_outcome c io c' io' \<longleftrightarrow>
     keeps c io c' io' \<or> (\<exists>c1. keeps c io c1 io \<and> (c', io') = handleClose c1 io)"

lemma read_outcome_from [simp]:
  "read_outcome (c\<lparr>readBuffer := b\<rparr>) io c' io' = read_outcome c io c' io'"
  "read_outcome (c\<lparr>visited := t\<rparr>) io c' io' = read_outcome c io c' io'"
  by (simp_all add: read_outcome_def)

lemma handleRead_LT_outcome:
  assumes "handleRead_LT cb answer c io = Inr (c', io')"
    and "\<And>c io c' io'. cb c io = Inr (c', io') \<Longrightarrow> keeps c io c' io'"
  shows "read_outcome c io c' io'"
proof (cases answer)
  case (Data s)
  then show ?thesis
    using assms(1) assms(2) [of "c\<lparr>readBuffer := b\<rparr>" io c' io' for b]
    by (auto simp: handleRead_LT_def read_outcome_def res_simps intro: exI [of _ c] split: if_splits)
next
  case (Read_Failed e)
  then show ?thesis
    using assms(1) assms(2) [of "c\<lparr>readBuffer := b\<rparr>" io c' io' for b]
    by (auto simp: handleRead_LT_def read_outcome_def res_simps)
qed

lemma handleRead_ET_outcome:
  assumes "handleRead_ET cb answers c io = Inr (c', io')"
    and "\<And>c io c' io'. cb c io = Inr (c', io') \<Longrightarrow> keeps c io c' io'"
  shows "read_outcome c io c' io'"
  using assms
proof (induction cb answers c io rule: handleRead_ET.induct)
  case (2 cb s as c io)
  show ?case
  proof (cases "s = []")
    case True
    with 2(2) show ?thesis by (auto simp: read_outcome_def intro!: exI [of _ c])
  next
    case False
    with 2(2) obtain b where b: "read_in s (readBuffer c) = Inr b"
        "handleRead_ET cb as (c\<lparr>readBuffer := b\<rparr>) io = Inr (c', io')"
      by (auto simp: res_simps)
    from 2(1) [OF False b 2(3)] show ?thesis by simp
  qed
next
  case (3 cb as c io)
  from 3(1) have "cb c io = Inr (c', io')" by simp
  from 3(2) [OF this] show ?case by (simp add: read_outcome_def)
next
  case (4 cb as c io)
  from 4(2) obtain b where "resize_if_full (- 1) (readBuffer c) = Inr b"
      "handleRead_ET cb as (c\<lparr>readBuffer := addWriteIndex (- 1) b\<rparr>) io = Inr (c', io')"
    by (auto simp: res_simps)
  from 4(1) [OF this 4(3)] show ?case by simp
qed simp

lemma handleRead_outcome:
  assumes "handleRead cb now answers c io = Inr (c', io')"
    and "\<And>c io c' io'. cb c io = Inr (c', io') \<Longrightarrow> keeps c io c' io'"
  shows "read_outcome c io c' io'"
  using assms(1) handleRead_LT_outcome [OF _ assms(2)] handleRead_ET_outcome [OF _ assms(2)]
  by (fastforce simp: handleRead_def Let_def split: if_splits list.splits)

end
