(* ===== verification/ThreadPool.thy ===== *)
theory ThreadPool
  imports Prelude
begin

text \<open>
  \<open>net/EventLoopThreadPool.h\<close> and \<open>net/EventLoopThreadPool.cc\<close>: the pool of loop threads.
  The address of the loop in thread \<open>k\<close> is the number \<open>k\<close>. \<open>start\<close> creates the threads one
  after the other and waits for each to enter its loop into the vector. In \<open>threadFunc\<close> the
  entry is made under the mutex and the signal is sent after it; in \<open>start\<close> the test and the
  wait are one step, since the mutex is held between them. \<open>Thread::start\<close> is taken to
  return here; theory \<open>ThreadStart\<close> is about it.
\<close>

record thread_pool =
  base_loop :: nat
  num :: nat
  currentLoop :: int
  entered :: nat
  loops :: "nat option list"

definition new_thread_pool :: "nat \<Rightarrow> nat \<Rightarrow> thread_pool" where
  "new_thread_pool base n = \<lparr>base_loop = base, num = n, currentLoop = - 1, entered = 0,
     loops = replicate n None\<rparr>"

definition getNextLoop :: "thread_pool \<Rightarrow> nat option \<times> thread_pool" where
  "getNextLoop p =
     (if num p = 0 then (Some (base_loop p), p)
      else let cur = (currentLoop p + 1) mod int (num p)
           in (loops p ! nat cur, p\<lparr>currentLoop := cur\<rparr>))"

text \<open>The entry that \<open>threadFunc\<close> makes under the mutex.\<close>

definition enter_loop :: "nat \<Rightarrow> thread_pool \<Rightarrow> thread_pool" where
  "enter_loop k p = p\<lparr>loops := (loops p)[entered p := Some k], entered := entered p + 1\<rparr>"

subsection \<open>Starting the pool\<close>

datatype start_pc = At_Create | At_Test | At_Wait | Finished
datatype kid = Starting | Entered | Looping

record pool_start =
  ps_pool :: thread_pool
  ps_i :: nat
  ps_pc :: start_pc
  ps_kids :: "kid list"

definition new_pool_start :: "nat \<Rightarrow> nat \<Rightarrow> pool_start" where
  "new_pool_start base n = \<lparr>ps_pool = new_thread_pool base n, ps_i = 0, ps_pc = At_Create, ps_kids = []\<rparr>"

inductive start_step :: "pool_start \<Rightarrow> pool_start \<Rightarrow> bool" where
  create: "ps_pc w = At_Create \<Longrightarrow> ps_i w < num (ps_pool w) \<Longrightarrow>
    start_step w (w\<lparr>ps_kids := ps_kids w @ [Starting], ps_pc := At_Test\<rparr>)"
| finish: "ps_pc w = At_Create \<Longrightarrow> \<not> ps_i w < num (ps_pool w) \<Longrightarrow> start_step w (w\<lparr>ps_pc := Finished\<rparr>)"
| test_null: "ps_pc w = At_Test \<Longrightarrow> loops (ps_pool w) ! ps_i w = None \<Longrightarrow>
    start_step w (w\<lparr>ps_pc := At_Wait\<rparr>)"
| test_set: "ps_pc w = At_Test \<Longrightarrow> loops (ps_pool w) ! ps_i w \<noteq> None \<Longrightarrow>
    start_step w (w\<lparr>ps_i := ps_i w + 1, ps_pc := At_Create\<rparr>)"
| enter: "k < length (ps_kids w) \<Longrightarrow> ps_kids w ! k = Starting \<Longrightarrow>
    start_step w (w\<lparr>ps_pool := enter_loop k (ps_pool w), ps_kids := (ps_kids w)[k := Entered]\<rparr>)"
| signal: "k < length (ps_kids w) \<Longrightarrow> ps_kids w ! k = Entered \<Longrightarrow>
    start_step w (w\<lparr>ps_kids := (ps_kids w)[k := Looping],
      ps_pc := (if ps_pc w = At_Wait then At_Test else ps_pc w)\<rparr>)"

text \<open>
  All threads but the newest have entered their loop, the vector is filled in thread order,
  and while \<open>start\<close> waits the newest thread has its signal still to send.
\<close>

definition start_inv :: "nat \<Rightarrow> pool_start \<Rightarrow> bool" where
  "start_inv n w \<longleftrightarrow> num (ps_pool w) = n \<and> ps_i w \<le> n \<and>
     (ps_pc w = At_Create \<longrightarrow> length (ps_kids w) = ps_i w) \<and>
     (ps_pc w = Finished \<longrightarrow> length (ps_kids w) = ps_i w \<and> ps_i w = n) \<and>
     (ps_pc w = At_Test \<or> ps_pc w = At_Wait \<longrightarrow> length (ps_kids w) = ps_i w + 1 \<and> ps_i w < n) \<and>
     (\<forall>k < ps_i w. ps_kids w ! k \<noteq> Starting) \<and>
     entered (ps_pool w) =
       (if ps_i w < length (ps_kids w) \<and> ps_kids w ! ps_i w \<noteq> Starting then ps_i w + 1 else ps_i w) \<and>
     loops (ps_pool w) =
       map Some [0..<entered (ps_pool w)] @ replicate (n - entered (ps_pool w)) None \<and>
     (ps_pc w = At_Wait \<longrightarrow> ps_kids w ! ps_i w \<noteq> Looping)"

lemma start_inv_new: "start_inv n (new_pool_start base n)"
  by (simp add: start_inv_def new_pool_start_def new_thread_pool_def)

lemma enter_next:
  "(map Some [0..<i] @ None # replicate m None)[i := Some i] = map Some [0..<Suc i] @ replicate m None"
  by (simp add: list_update_append)

lemma loops_entry:
  "i < n \<Longrightarrow> j \<le> n \<Longrightarrow> (map Some [0..<j] @ replicate (n - j) None) ! i = (if i < j then Some i else None)"
  by (auto simp: nth_append)

lemma start_inv_step:
  assumes "start_step w w'" and "start_inv n w"
  shows "start_inv n w'"
  using assms(1)
proof (cases rule: start_step.cases)
  case create
  with assms(2) show ?thesis by (auto simp: start_inv_def nth_append)
next
  case finish
  with assms(2) show ?thesis by (auto simp: start_inv_def)
next
  case test_null
  with assms(2) show ?thesis by (auto simp: start_inv_def loops_entry split: if_splits)
next
  case test_set
  with assms(2) show ?thesis
    by (auto simp: start_inv_def loops_entry less_Suc_eq split: if_splits)
next
  case (enter k)
  then have k: "k = ps_i w" and i: "ps_i w < n" "length (ps_kids w) = ps_i w + 1"
      "entered (ps_pool w) = ps_i w"
    using assms(2) by (cases "ps_pc w"; auto simp: start_inv_def not_less_eq less_Suc_eq)+
  have "n - ps_i w = Suc (n - Suc (ps_i w))" using i(1) by simp
  then show ?thesis
    using enter assms(2) i unfolding k
    by (auto simp: start_inv_def enter_loop_def enter_next simp del: upt_Suc)
next
  case (signal k)
  then show ?thesis
    using assms(2) by (cases "ps_pc w") (auto simp: start_inv_def nth_list_update)
qed

interpretation start_runs: step_invariant start_step "start_inv n" for n
  by unfold_locales (rule start_inv_step)

fun kid_weight :: "kid \<Rightarrow> nat" where
  "kid_weight Starting = 5"
| "kid_weight Entered = 3"
| "kid_weight Looping = 0"

fun pc_weight :: "start_pc \<Rightarrow> nat" where
  "pc_weight At_Create = 8"
| "pc_weight At_Test = 2"
| "pc_weight At_Wait = 1"
| "pc_weight Finished = 0"

definition start_weight :: "pool_start \<Rightarrow> nat" where
  "start_weight w = 10 * (num (ps_pool w) - ps_i w) + pc_weight (ps_pc w) +
     sum_list (map kid_weight (ps_kids w))"

lemma sum_list_kids:
  "k < length ks \<Longrightarrow> sum_list (map kid_weight (ks[k := x])) + kid_weight (ks ! k) =
    sum_list (map kid_weight ks) + kid_weight x"
  by (induction ks arbitrary: k) (auto simp: nth_Cons split: nat.split)

lemma start_weight_step:
  assumes "start_step w w'" and "start_inv n w"
  shows "start_weight w' < start_weight w"
  using assms(1)
proof (cases rule: start_step.cases)
  case (enter k)
  then show ?thesis
    using sum_list_kids [of k "ps_kids w" Entered] by (simp add: start_weight_def enter_loop_def)
next
  case (signal k)
  then show ?thesis
    using sum_list_kids [of k "ps_kids w" Looping]
    by (cases "ps_pc w") (simp_all add: start_weight_def)
qed (use assms(2) in \<open>auto simp: start_weight_def start_inv_def\<close>)

lemma start_weight_run:
  "(start_step ^^ m) w w' \<Longrightarrow> start_inv n w \<Longrightarrow> m + start_weight w' \<le> start_weight w"
proof (induction m arbitrary: w')
  case (Suc m)
  then obtain y where y: "(start_step ^^ m) w y" "start_step y w'" by auto
  with Suc start_weight_step [OF y(2) start_runs.run_n [OF y(1)]] show ?case by fastforce
qed simp

lemma start_progress:
  assumes "start_inv n w" and "ps_pc w \<noteq> Finished"
  shows "\<exists>w'. start_step w w'"
proof (cases "ps_pc w")
  case At_Create
  then show ?thesis using start_step.create start_step.finish by blast
next
  case At_Test
  then show ?thesis using start_step.test_null start_step.test_set by blast
next
  case At_Wait
  with assms(1) have "ps_i w < length (ps_kids w)" "ps_kids w ! ps_i w \<noteq> Looping"
    by (auto simp: start_inv_def)
  then show ?thesis
    using start_step.enter [of "ps_i w" w] start_step.signal [of "ps_i w" w]
    by (cases "ps_kids w ! ps_i w") auto
qed (use assms(2) in simp)



subsection \<open>Round robin\<close>

lemma next_loops:
  assumes "0 < num p" and "currentLoop p = - 1"
  shows "currentLoop (((snd \<circ> getNextLoop) ^^ k) p) = (if k = 0 then - 1 else int ((k - 1) mod num p)) \<and>
    num (((snd \<circ> getNextLoop) ^^ k) p) = num p \<and> loops (((snd \<circ> getNextLoop) ^^ k) p) = loops p"
proof (induction k)
  case 0
  with assms show ?case by simp
next
  case (Suc k)
  have "(int ((k - 1) mod num p) + 1) mod int (num p) = int (k mod num p)" if "0 < k"
    using that by (metis (no_types, lifting) One_nat_def Suc_pred mod_Suc_eq of_nat_Suc zmod_int add.commute)
  with Suc assms show ?case
    by (cases k) (auto simp: getNextLoop_def Let_def)
qed

text \<open>
  Connections are spread evenly. On a pool of \<open>n > 0\<close> started threads, the call number
  \<open>k\<close> of \<open>getNextLoop\<close>, counted from 0, returns the loop of thread \<open>k mod n\<close>: it is never
  NULL, and \<open>n\<close> calls in a row return every loop once.
\<close>

lemma getNextLoop_round_robin:
  assumes "0 < n" and "loops p = map Some [0..<n]" and "num p = n" and "currentLoop p = - 1"
  shows "fst (getNextLoop (((snd \<circ> getNextLoop) ^^ k) p)) = Some (k mod n)"
proof -
  have p: "0 < num p" using assms(1,3) by simp
  let ?q = "((snd \<circ> getNextLoop) ^^ k) p"
  have q: "num ?q = n" "loops ?q = map Some [0..<n]"
    using next_loops [OF p assms(4), of k] assms(2,3) by simp_all
  have "currentLoop (((snd \<circ> getNextLoop) ^^ Suc k) p) = int (k mod n)"
    using next_loops [OF p assms(4), of "Suc k"] assms(3) by simp
  then have "(currentLoop ?q + 1) mod int n = int (k mod n)"
    using assms(1) q(1) by (simp add: getNextLoop_def Let_def)
  then show ?thesis
    using assms(1) q by (simp add: getNextLoop_def Let_def)
qed

lemma getNextLoop_round_robin_witness:
  "fst (getNextLoop (((snd \<circ> getNextLoop) ^^ 7) ((new_thread_pool 9 3)\<lparr>loops := map Some [0..<3]\<rparr>))) = Some (7 mod 3)"
  by (rule getNextLoop_round_robin) (simp_all add: new_thread_pool_def)

end
