(* ===== verification/Sockets.thy ===== *)
theory Sockets
  imports CText "HOL-Library.Word"
begin

unbundle bit_operations_syntax

text \<open>
  \<open>net/socketops.h\<close> and \<open>net/socketops.cc\<close>: flags and options of descriptors, and socket
  addresses. The kernel's table of open descriptors is a map; \<open>fcntl\<close> and \<open>setsockopt\<close> do what
  \<open>fcntl(2)\<close> and \<open>socket(7)\<close> document: a call on a descriptor that is not open returns -1 and
  changes nothing, \<open>F_SETFL\<close> changes only some of the status flags, \<open>F_SETFD\<close> only
  \<open>FD_CLOEXEC\<close>. \<open>inet_pton\<close> is an argument.
\<close>

subsection \<open>Descriptors\<close>

type_synonym flags = "32 word"

definition O_RDWR :: flags where "O_RDWR = 2"
definition O_NONBLOCK :: flags where "O_NONBLOCK = 0x800"
definition FD_CLOEXEC :: flags where "FD_CLOEXEC = 1"

text \<open>\<open>O_APPEND\<close>, \<open>O_NONBLOCK\<close>, \<open>O_ASYNC\<close>, \<open>O_DIRECT\<close> and \<open>O_NOATIME\<close>.\<close>

definition settable :: flags where "settable = 0x400 OR 0x800 OR 0x2000 OR 0x4000 OR 0x40000"

record descriptor =
  fd_status :: flags
  fd_flags :: flags
  fd_reuseaddr :: bool
  fd_reuseport :: bool

type_synonym descriptors = "int \<Rightarrow> descriptor option"

definition new_socket :: descriptor where
  "new_socket = \<lparr>fd_status = O_RDWR, fd_flags = 0, fd_reuseaddr = False, fd_reuseport = False\<rparr>"

definition getfl :: "int \<Rightarrow> descriptors \<Rightarrow> flags" where
  "getfl fd k = (case k fd of None \<Rightarrow> - 1 | Some d \<Rightarrow> fd_status d)"

definition setfl :: "int \<Rightarrow> flags \<Rightarrow> descriptors \<Rightarrow> descriptors" where
  "setfl fd v k =
     (case k fd of
        None \<Rightarrow> k
      | Some d \<Rightarrow> k(fd \<mapsto> d\<lparr>fd_status := (fd_status d AND NOT settable) OR (v AND settable)\<rparr>))"

definition getfd :: "int \<Rightarrow> descriptors \<Rightarrow> flags" where
  "getfd fd k = (case k fd of None \<Rightarrow> - 1 | Some d \<Rightarrow> fd_flags d)"

definition setfd :: "int \<Rightarrow> flags \<Rightarrow> descriptors \<Rightarrow> descriptors" where
  "setfd fd v k = (case k fd of None \<Rightarrow> k | Some d \<Rightarrow> k(fd \<mapsto> d\<lparr>fd_flags := v AND FD_CLOEXEC\<rparr>))"

definition setNonBlock :: "int \<Rightarrow> descriptors \<Rightarrow> descriptors" where
  "setNonBlock fd k = (let flags = getfl fd k in setfl fd (flags OR O_NONBLOCK) k)"

definition setCloseOnExec :: "int \<Rightarrow> descriptors \<Rightarrow> descriptors" where
  "setCloseOnExec fd k = (let flags = getfd fd k in setfd fd (flags OR FD_CLOEXEC) k)"

definition setReuseAddr :: "int \<Rightarrow> descriptors \<Rightarrow> descriptors" where
  "setReuseAddr fd k = (case k fd of None \<Rightarrow> k | Some d \<Rightarrow> k(fd \<mapsto> d\<lparr>fd_reuseaddr := True\<rparr>))"

definition setReusePort :: "int \<Rightarrow> descriptors \<Rightarrow> descriptors" where
  "setReusePort fd k = (case k fd of None \<Rightarrow> k | Some d \<Rightarrow> k(fd \<mapsto> d\<lparr>fd_reuseport := True\<rparr>))"

text \<open>A descriptor that the kernel returns from \<open>socket\<close> or \<open>accept\<close>; -1 if there is none.\<close>

definition open_socket :: "int \<Rightarrow> descriptors \<Rightarrow> descriptors" where
  "open_socket fd k = (if fd < 0 then k else k(fd \<mapsto> new_socket))"

definition createNonBlockSocket :: "int \<Rightarrow> descriptors \<Rightarrow> int \<times> descriptors" where
  "createNonBlockSocket answer k = (answer, setCloseOnExec answer (setNonBlock answer (open_socket answer k)))"

lemma setNonBlock_open:
  "k fd = Some d \<Longrightarrow> setNonBlock fd k = k(fd \<mapsto> d\<lparr>fd_status := fd_status d OR O_NONBLOCK\<rparr>)"
proof -
  assume d: "k fd = Some d"
  have "(v AND NOT settable) OR ((v OR O_NONBLOCK) AND settable) = v OR O_NONBLOCK" for v :: flags
  proof (rule bit_word_eqI)
    fix n assume "n < LENGTH(32)"
    have "O_NONBLOCK AND settable = O_NONBLOCK"
      by (simp add: O_NONBLOCK_def settable_def)
    then have "bit O_NONBLOCK n \<Longrightarrow> bit settable n"
      by (metis bit_and_iff)
    then show "bit ((v AND NOT settable) OR ((v OR O_NONBLOCK) AND settable)) n = bit (v OR O_NONBLOCK) n"
      using \<open>n < LENGTH(32)\<close> by (auto simp: bit_or_iff bit_and_iff bit_not_iff)
  qed
  with d show ?thesis by (simp add: setNonBlock_def setfl_def getfl_def Let_def)
qed

lemma setCloseOnExec_open:
  assumes "k fd = Some d"
  shows "\<exists>v. setCloseOnExec fd k = k(fd \<mapsto> d\<lparr>fd_flags := v\<rparr>) \<and> v AND FD_CLOEXEC = FD_CLOEXEC"
proof -
  have "((fd_flags d OR FD_CLOEXEC) AND FD_CLOEXEC) AND FD_CLOEXEC = FD_CLOEXEC"
    by (simp add: and.assoc)
  then show ?thesis using assms by (auto simp: setCloseOnExec_def setfd_def getfd_def Let_def)
qed

lemma flags_closed:
  "k fd = None \<Longrightarrow> setNonBlock fd k = k \<and> setCloseOnExec fd k = k \<and> setReuseAddr fd k = k \<and> setReusePort fd k = k"
  by (simp add: setNonBlock_def setCloseOnExec_def setfl_def setfd_def setReuseAddr_def setReusePort_def Let_def)

lemma createNonBlockSocket_ok:
  assumes "createNonBlockSocket answer k = (fd, k')" and "0 \<le> answer"
  shows "fd = answer \<and> (\<exists>d. k' = k(fd \<mapsto> d) \<and> fd_status d AND O_NONBLOCK \<noteq> 0 \<and> fd_flags d AND FD_CLOEXEC \<noteq> 0)"
proof -
  let ?k = "k(fd \<mapsto> new_socket\<lparr>fd_status := O_RDWR OR O_NONBLOCK\<rparr>)"
  have fd: "fd = answer" and k': "k' = setCloseOnExec fd ?k"
    using assms setNonBlock_open [of "k(fd \<mapsto> new_socket)" fd new_socket]
    by (auto simp: createNonBlockSocket_def open_socket_def new_socket_def)
  obtain v where v: "setCloseOnExec fd ?k = ?k(fd \<mapsto> new_socket\<lparr>fd_status := O_RDWR OR O_NONBLOCK, fd_flags := v\<rparr>)"
      "v AND FD_CLOEXEC = FD_CLOEXEC"
    using setCloseOnExec_open [of ?k fd] by auto
  have "(O_RDWR OR O_NONBLOCK) AND O_NONBLOCK \<noteq> 0" "FD_CLOEXEC \<noteq> 0"
    by (simp_all add: O_RDWR_def O_NONBLOCK_def FD_CLOEXEC_def)
  with v show ?thesis
    by (intro conjI exI [of _ "new_socket\<lparr>fd_status := O_RDWR OR O_NONBLOCK, fd_flags := v\<rparr>"])
      (simp_all add: fd k')
qed

subsection \<open>Addresses\<close>

type_synonym ip_address = "8 word \<times> 8 word \<times> 8 word \<times> 8 word"   \<comment> \<open>in memory order\<close>

record sockaddr_in =
  sin_family :: "16 word"
  sin_port :: "16 word"        \<comment> \<open>in network order, as a number of the host\<close>
  sin_addr :: ip_address

definition AF_INET :: "16 word" where "AF_INET = 2"

definition INADDR_ANY :: ip_address where "INADDR_ANY = (0, 0, 0, 0)"

text \<open>All bytes zero, after \<open>memset\<close>.\<close>

definition zero_addr :: sockaddr_in where
  "zero_addr = \<lparr>sin_family = 0, sin_port = 0, sin_addr = (0, 0, 0, 0)\<rparr>"

text \<open>The host stores the low byte first, so the two orders differ by a swap.\<close>

definition htons :: "16 word \<Rightarrow> 16 word" where
  "htons x = push_bit 8 x OR drop_bit 8 x"

definition ntohs :: "16 word \<Rightarrow> 16 word" where
  "ntohs x = push_bit 8 x OR drop_bit 8 x"

definition fillSockaddr_in :: "(string \<Rightarrow> ip_address option) \<Rightarrow> string \<Rightarrow> int \<Rightarrow> sockaddr_in" where
  "fillSockaddr_in inet_pton ip port =
     (let addr = zero_addr\<lparr>sin_family := AF_INET, sin_port := htons (word_of_int port)\<rparr>
      in if ip \<noteq> []
         then (case inet_pton ip of None \<Rightarrow> addr | Some a \<Rightarrow> addr\<lparr>sin_addr := a\<rparr>)
         else addr\<lparr>sin_addr := INADDR_ANY\<rparr>)"

lemma ntohs_htons [simp]: "ntohs (htons x) = x"
proof (rule bit_word_eqI)
  fix n assume n: "n < LENGTH(16)"
  then show "bit (ntohs (htons x)) n = bit x n"
    by (auto simp: ntohs_def htons_def bit_or_iff bit_push_bit_iff bit_drop_bit_eq dest: bit_imp_le_length)
qed

end
