(* ===== verification/TcpServer.thy ===== *)
theory TcpServer
  imports TcpConnection ThreadPool Sockets
begin

text \<open>
  \<open>net/TcpServer.h\<close> and \<open>net/TcpServer.cc\<close>: accepting connections, the table of connections,
  and their timers. A \<open>shared_ptr<Timer>\<close> is a number into the heap of timers. Tasks that the
  server queues in an event loop are listed with the loop's number, in order; what the loops
  do with them is theory \<open>EventLoop\<close>. The table holds each connection as the server set it up;
  what its I/O loop does to it is theory \<open>TcpConnection\<close>. The answers of the socket calls are
  arguments; \<open>conn_hold_seconds\<close> is a \<open>double\<close> that is set from an \<open>int\<close>.
\<close>

datatype srv_task = Establish int | Remove int | Add_Timer nat

record 'x tcp_server =
  srv_mode :: int
  nextConnId :: int
  srv_pool :: thread_pool
  conns :: "(int, 'x tcp_connection) smap"    \<comment> \<open>\<open>conn_\<close>\<close>
  conn_hold_seconds :: int
  timerq :: timer_queue
  timer_heap :: "nat \<Rightarrow> timer"
  next_timer :: nat
  srv_tasks :: "(nat \<times> srv_task) list"
  idlefd :: int
  srv_closed :: "int list"
  srv_fds :: descriptors       \<comment> \<open>the descriptors as they were opened\<close>

text \<open>The constructor: an address that cannot be converted or bound fails an assertion.\<close>

definition new_server ::
    "descriptors \<Rightarrow> bool \<Rightarrow> bool \<Rightarrow> thread_pool \<Rightarrow> timer_queue \<Rightarrow> int \<Rightarrow> int \<Rightarrow> int \<Rightarrow>
      'x tcp_server result" where
  "new_server fds address_ok bound p tq mode hold idle =
     (if address_ok \<and> bound
      then Inr \<lparr>srv_mode = mode, nextConnId = 0, srv_pool = p, conns = [], conn_hold_seconds = hold,
        timerq = tq, timer_heap = (\<lambda>_. new_timer (Timestamp 0) 0), next_timer = 0, srv_tasks = [],
        idlefd = idle, srv_closed = [], srv_fds = fds\<rparr>
      else Inl Assert_Failed)"

text \<open>The address the constructor binds, and the constructor with the calls that lead to it.\<close>

definition listen_address :: "(string \<Rightarrow> ip_address option) \<Rightarrow> string \<Rightarrow> int \<Rightarrow> sockaddr_in option" where
  "listen_address inet_pton ip port =
     (let addr = zero_addr\<lparr>sin_family := AF_INET, sin_port := htons (word_of_int port)\<rparr>
      in if ip \<noteq> [] then map_option (\<lambda>a. addr\<lparr>sin_addr := a\<rparr>) (inet_pton ip)
         else Some (addr\<lparr>sin_addr := INADDR_ANY\<rparr>))"

definition construct_server ::
    "(string \<Rightarrow> ip_address option) \<Rightarrow> (sockaddr_in \<Rightarrow> bool) \<Rightarrow> int \<Rightarrow> string \<Rightarrow> int \<Rightarrow> thread_pool \<Rightarrow>
      timer_queue \<Rightarrow> int \<Rightarrow> int \<Rightarrow> int \<Rightarrow> 'x tcp_server result" where
  "construct_server inet_pton bind_ok sockfd ip port p tq mode hold idle =
     (let fds = setReuseAddr sockfd (setReusePort sockfd (open_socket sockfd Map.empty));
          addr = listen_address inet_pton ip port
      in new_server fds (addr \<noteq> None) (addr \<noteq> None \<and> bind_ok (the addr)) p tq mode hold idle)"

text \<open>\<open>inet_ntop\<close> of the four bytes of the address, and the port.\<close>

definition ipPortToString :: "sockaddr_in \<Rightarrow> string" where
  "ipPortToString addr =
     (case sin_addr addr of (a, b, c, d) \<Rightarrow>
       dec_nat (unat a) @ ''.'' @ dec_nat (unat b) @ ''.'' @ dec_nat (unat c) @ ''.'' @ dec_nat (unat d) @
       '':'' @ dec_nat (unat (ntohs (sin_port addr))))"

definition queueInLoop :: "nat \<Rightarrow> srv_task \<Rightarrow> 'x tcp_server \<Rightarrow> 'x tcp_server" where
  "queueInLoop loop t s = s\<lparr>srv_tasks := srv_tasks s @ [(loop, t)]\<rparr>"

definition set_conn_hold_seconds :: "int \<Rightarrow> 'x tcp_server \<Rightarrow> 'x tcp_server" where
  "set_conn_hold_seconds seconds s = s\<lparr>conn_hold_seconds := seconds\<rparr>"

definition main_loop :: "'x tcp_server \<Rightarrow> nat" where
  "main_loop s = base_loop (srv_pool s)"

text \<open>\<open>TimerQueue::addTimer\<close> leaves the insertion to the loop of the timer queue.\<close>

definition addTimer :: "nat \<Rightarrow> 'x tcp_server \<Rightarrow> 'x tcp_server" where
  [simp]: "addTimer r s = queueInLoop (main_loop s) (Add_Timer r) s"

text \<open>
  An accepted descriptor. The address length given to \<open>accept\<close> is 0, so the kernel stores no
  address and the structure keeps its zero bytes.
\<close>

definition accepted ::
    "('x tcp_connection \<Rightarrow> 'x tcp_connection) \<Rightarrow> 'x \<Rightarrow> timestamp \<Rightarrow> int \<Rightarrow> 'x tcp_server \<Rightarrow>
      'x tcp_server result" where
  "accepted connectionCallback ctx now fd s =
     (let fds = setCloseOnExec fd (setNonBlock fd (open_socket fd (srv_fds s)));
          ipPort = ipPortToString zero_addr;
          (loop, p) = getNextLoop (srv_pool s);
          s1 = s\<lparr>srv_pool := p, srv_fds := fds\<rparr>
      in case loop of
           None \<Rightarrow> Inl Assert_Failed
         | Some l \<Rightarrow>
             let timed = conn_hold_seconds s \<ge> 0;
                 us = conn_hold_seconds s * 1000 * 1000;
                 r = next_timer s;
                 s2 = (if timed
                       then s1\<lparr>timer_heap := (timer_heap s1)(r := new_timer (addTime us now) us),
                         next_timer := r + 1\<rparr>
                       else s1);
                 ident = nextConnId s;
                 conn = new_connection ident fd (srv_mode s) ipPort ident
                   (if timed then Some r else None) ctx;
                 s3 = s2\<lparr>conns := smap_assign ident (connectionCallback conn) (conns s2),
                   nextConnId := ident + 1\<rparr>;
                 s4 = queueInLoop l (Establish ident) s3
             in Inr (if timed
                     then addTimer r
                       (s4\<lparr>timer_heap := (timer_heap s4)
                         (r := setTimerFunc ident (bindTcpConnection ident (timer_heap s4 r)))\<rparr>)
                     else s4))"

text \<open>
  \<open>newConnection\<close>: \<open>answer\<close> is the first \<open>accept\<close>; when it fails, the test \<open>errno=EMFILE\<close> is an
  assignment whose value is not zero, so the spare descriptor is always given up for one more
  \<open>accept\<close>, with answer \<open>second\<close>, and opened again as \<open>reopened\<close>.
\<close>

definition newConnection ::
    "('x tcp_connection \<Rightarrow> 'x tcp_connection) \<Rightarrow> 'x \<Rightarrow> timestamp \<Rightarrow> int \<Rightarrow> int \<Rightarrow> int \<Rightarrow>
      'x tcp_server \<Rightarrow> 'x tcp_server result" where
  "newConnection connectionCallback ctx now answer second reopened s =
     (if answer \<ge> 0 then accepted connectionCallback ctx now answer s
      else Inr (s\<lparr>srv_closed := srv_closed s @ [idlefd s, second], idlefd := reopened\<rparr>))"

definition removeConnection :: "int \<Rightarrow> 'x tcp_server \<Rightarrow> 'x tcp_server" where
  "removeConnection ident s = queueInLoop (main_loop s) (Remove ident) s"

definition removeConnectionInLoop ::
    "'x tcp_connection \<Rightarrow> 'x tcp_server \<Rightarrow> ('x tcp_connection \<times> 'x tcp_server) result" where
  "removeConnectionInLoop conn s =
     res_bind
       (if conn_hold_seconds s > 0
        then (case getTimer conn of
                None \<Rightarrow> Inl Null_Pointer
              | Some r \<Rightarrow> Inr (s\<lparr>timerq := deleteTimer (expiration (timer_heap s r)) (timerq s)\<rparr>))
        else Inr s)
       (\<lambda>s1. Inr (stopTimer conn, s1\<lparr>conns := smap_erase (getID conn) (conns s1)\<rparr>))"

text \<open>The task that \<open>TimerQueue::addTimer\<close> queues.\<close>

definition run_add_timer :: "nat \<Rightarrow> 'x tcp_server \<Rightarrow> 'x tcp_server" where
  "run_add_timer r s = s\<lparr>timerq := addTimerInLoop (timer_heap s) r (timerq s)\<rparr>"

text \<open>\<open>start\<close> after the pool has started: \<open>listen\<close> must succeed.\<close>

definition server_start :: "int \<Rightarrow> channel \<Rightarrow> epoll \<Rightarrow> (channel \<times> epoll) result" where
  "server_start n c ep = (let r = enableReading c ep in if n = 0 then Inr r else Inl Assert_Failed)"

definition server_destroy :: "'x tcp_server \<Rightarrow> unit result" where
  "server_destroy s = (if conns s = [] then Inr () else Inl Assert_Failed)"

subsection \<open>The table of connections\<close>

definition server_ok :: "'x tcp_server \<Rightarrow> bool" where
  "server_ok s \<longleftrightarrow> smap_ok (conns s) \<and> tq_ok (timerq s) \<and>
     (\<forall>i c. smap_find (conns s) i = Some c \<longrightarrow> connID c = i \<and> i < nextConnId s)"

lemmas server_ops = accepted_def queueInLoop_def removeConnectionInLoop_def run_add_timer_def

lemma accepted_ok:
  assumes "server_ok s" and "fst (getNextLoop (srv_pool s)) = Some l" and "\<forall>c. connID (cb c) = connID c"
  shows "\<exists>s' c. accepted cb ctx now fd s = Inr s' \<and> server_ok s' \<and> nextConnId s' = nextConnId s + 1 \<and>
    conns s' = smap_assign (nextConnId s) (cb c) (conns s) \<and>
    smap_find (conns s') = (smap_find (conns s))(nextConnId s \<mapsto> cb c) \<and>
    c = new_connection (nextConnId s) fd (srv_mode s) ''0.0.0.0:0'' (nextConnId s)
      (if conn_hold_seconds s \<ge> 0 then Some (next_timer s) else None) ctx \<and>
    timerq s' = timerq s \<and> conn_hold_seconds s' = conn_hold_seconds s \<and>
    (l, Establish (nextConnId s)) \<in> set (srv_tasks s') \<and>
    (conn_hold_seconds s \<ge> 0 \<longrightarrow> expiration (timer_heap s' (next_timer s)) =
      addTime (conn_hold_seconds s * 1000 * 1000) now)"
proof -
  let ?c = "new_connection (nextConnId s) fd (srv_mode s) ''0.0.0.0:0'' (nextConnId s)
      (if conn_hold_seconds s \<ge> 0 then Some (next_timer s) else None) ctx"
  obtain p where nxt: "getNextLoop (srv_pool s) = (Some l, p)"
    using assms(2) by (cases "getNextLoop (srv_pool s)") auto
  have peer: "ipPortToString zero_addr = ''0.0.0.0:0''"
    by code_simp
  have find: "smap_find (smap_assign (nextConnId s) (cb ?c) (conns s)) =
      (smap_find (conns s))(nextConnId s \<mapsto> cb ?c)"
    using assms(1) by (simp add: server_ok_def smap.find_assign)
  obtain s' where s': "accepted cb ctx now fd s = Inr s'"
      "conns s' = smap_assign (nextConnId s) (cb ?c) (conns s)" "nextConnId s' = nextConnId s + 1"
      "timerq s' = timerq s" "conn_hold_seconds s' = conn_hold_seconds s"
      "(l, Establish (nextConnId s)) \<in> set (srv_tasks s')"
      "conn_hold_seconds s \<ge> 0 \<longrightarrow> expiration (timer_heap s' (next_timer s)) =
        addTime (conn_hold_seconds s * 1000 * 1000) now"
    by (cases "0 \<le> conn_hold_seconds s")
      (simp_all add: accepted_def nxt peer Let_def queueInLoop_def expiration_def new_timer_def
        setTimerFunc_def bindTcpConnection_def)
  have "connID ?c = nextConnId s" by (simp add: new_connection_def)
  with assms(1,3) s' find have "server_ok s'"
    by (auto simp: server_ok_def smap.ok_assign intro: less_imp_le)
  with s' find show ?thesis by (intro exI [of _ s'] exI [of _ ?c]) simp
qed

lemma removeConnectionInLoop_ok:
  assumes "server_ok s" and "conn_hold_seconds s > 0 \<Longrightarrow> conn_timer c = Some r"
  shows "\<exists>s'. removeConnectionInLoop c s = Inr (stopTimer c, s') \<and> server_ok s' \<and>
    nextConnId s' = nextConnId s \<and>
    smap_find (conns s') = (smap_find (conns s))(connID c := None) \<and>
    timerq s' = (if conn_hold_seconds s > 0 then deleteTimer (expiration (timer_heap s r)) (timerq s)
      else timerq s) \<and> timer_heap s' = timer_heap s \<and> conn_hold_seconds s' = conn_hold_seconds s"
  using assms
  by (cases "conn_hold_seconds s > 0")
    (auto simp: removeConnectionInLoop_def server_ok_def smap.find_erase smap.ok_erase tq_ok_delete)

text \<open>What the server does over time: it accepts descriptors and removes connections.\<close>

datatype srv_event = Accept int timestamp | Drop int

fun srv_run :: "('x tcp_connection \<Rightarrow> 'x tcp_connection) \<Rightarrow> 'x \<Rightarrow> srv_event list \<Rightarrow> 'x tcp_server \<Rightarrow>
    'x tcp_server result" where
  "srv_run cb ctx [] s = Inr s"
| "srv_run cb ctx (Accept fd now # es) s =
     res_bind (newConnection cb ctx now fd 0 0 s) (srv_run cb ctx es)"
| "srv_run cb ctx (Drop ident # es) s =
     (case smap_find (conns s) ident of
        None \<Rightarrow> srv_run cb ctx es s
      | Some c \<Rightarrow> res_bind (removeConnectionInLoop c s) (\<lambda>(_, s'). srv_run cb ctx es s'))"

text \<open>The table one expects: numbers in the order of the accepts, without the dropped ones.\<close>

fun expected :: "srv_event list \<Rightarrow> int \<Rightarrow> (int \<Rightarrow> int option) \<Rightarrow> int \<Rightarrow> int option" where
  "expected [] n m = m"
| "expected (Accept fd now # es) n m = expected es (n + 1) (m(n \<mapsto> fd))"
| "expected (Drop ident # es) n m = expected es n (m(ident := None))"

definition pool_ready :: "thread_pool \<Rightarrow> bool" where
  "pool_ready p \<longleftrightarrow> num p = 0 \<or> (length (loops p) = num p \<and> None \<notin> set (loops p))"

lemma pool_ready_next:
  assumes "pool_ready p"
  shows "\<exists>l p'. getNextLoop p = (Some l, p') \<and> pool_ready p'"
proof (cases "num p = 0")
  case True
  then show ?thesis using assms by (simp add: getNextLoop_def)
next
  case False
  let ?cur = "(currentLoop p + 1) mod int (num p)"
  have "nat ?cur < num p" using False by (simp add: nat_less_iff)
  then have "loops p ! nat ?cur \<in> set (loops p)" using assms False by (simp add: pool_ready_def)
  then obtain l where "loops p ! nat ?cur = Some l"
    using assms False unfolding pool_ready_def by (metis option.exhaust)
  then show ?thesis using assms False by (simp add: getNextLoop_def Let_def pool_ready_def)
qed

lemma accepted_pool:
  "accepted cb ctx now fd s = Inr s' \<Longrightarrow> srv_pool s' = snd (getNextLoop (srv_pool s))"
  by (auto simp: accepted_def Let_def queueInLoop_def split: prod.splits option.splits if_splits)

lemma removed_pool: "removeConnectionInLoop c s = Inr (c', s') \<Longrightarrow> srv_pool s' = srv_pool s"
  by (auto simp: removeConnectionInLoop_def res_simps split: if_splits option.splits)

definition timers_set :: "'x tcp_server \<Rightarrow> bool" where
  "timers_set s \<longleftrightarrow> (conn_hold_seconds s > 0 \<longrightarrow>
     (\<forall>i c. smap_find (conns s) i = Some c \<longrightarrow> conn_timer c \<noteq> None))"

lemma srv_run_ok:
  assumes "server_ok s" and "timers_set s" and "pool_ready (srv_pool s)"
    and "\<forall>c. connID (cb c) = connID c \<and> conn_fd (cb c) = conn_fd c \<and> conn_timer (cb c) = conn_timer c"
    and "\<forall>fd now. Accept fd now \<in> set es \<longrightarrow> 0 \<le> fd"
  shows "\<exists>s'. srv_run cb ctx es s = Inr s' \<and> server_ok s' \<and>
    (\<forall>i. map_option conn_fd (smap_find (conns s') i) =
      expected es (nextConnId s) (\<lambda>i. map_option conn_fd (smap_find (conns s) i)) i)"
  using assms(1-3,5)
proof (induction es arbitrary: s)
  case Nil
  then show ?case by simp
next
  case (Cons e es)
  show ?case
  proof (cases e)
    case (Accept fd now)
    have "fst (getNextLoop (srv_pool s)) = Some (the (fst (getNextLoop (srv_pool s))))"
      using pool_ready_next [OF Cons.prems(3)] by auto
    then obtain s1 c where s1: "accepted cb ctx now fd s = Inr s1" "server_ok s1"
        "nextConnId s1 = nextConnId s + 1"
        "smap_find (conns s1) = (smap_find (conns s))(nextConnId s \<mapsto> cb c)"
        "c = new_connection (nextConnId s) fd (srv_mode s) ''0.0.0.0:0'' (nextConnId s)
          (if conn_hold_seconds s \<ge> 0 then Some (next_timer s) else None) ctx"
        "conn_hold_seconds s1 = conn_hold_seconds s"
      using accepted_ok [OF Cons.prems(1), of _ cb ctx now fd] assms(4) by blast
    have c: "conn_fd (cb c) = fd" "conn_hold_seconds s > 0 \<Longrightarrow> conn_timer (cb c) \<noteq> None"
      using assms(4) s1(5) by (simp_all add: new_connection_def)
    have "timers_set s1" using Cons.prems(2) c(2) s1(4,6) by (auto simp: timers_set_def)
    moreover have "pool_ready (srv_pool s1)"
      using accepted_pool [OF s1(1)] pool_ready_next [OF Cons.prems(3)] by auto
    moreover have "(\<lambda>i. map_option conn_fd (smap_find (conns s1) i)) =
        (\<lambda>i. map_option conn_fd (smap_find (conns s) i))(nextConnId s \<mapsto> fd)"
      using c(1) by (auto simp: s1(4))
    ultimately show ?thesis
      using Cons.IH [OF s1(2)] Cons.prems(4) s1(1,3) Accept by (auto simp: newConnection_def)
  next
    case (Drop ident)
    show ?thesis
    proof (cases "smap_find (conns s) ident")
      case None
      then have "(\<lambda>i. map_option conn_fd (smap_find (conns s) i))(ident := None) =
          (\<lambda>i. map_option conn_fd (smap_find (conns s) i))" by auto
      with Cons.IH [OF Cons.prems(1-3)] Cons.prems(4) Drop None show ?thesis by auto
    next
      case (Some c)
      have "connID c = ident" using Cons.prems(1) Some by (auto simp: server_ok_def)
      moreover have "conn_hold_seconds s > 0 \<Longrightarrow> conn_timer c = Some (the (conn_timer c))"
        using Cons.prems(2) Some by (auto simp: timers_set_def)
      ultimately obtain s1 where s1: "removeConnectionInLoop c s = Inr (stopTimer c, s1)" "server_ok s1"
          "nextConnId s1 = nextConnId s" "smap_find (conns s1) = (smap_find (conns s))(ident := None)"
          "conn_hold_seconds s1 = conn_hold_seconds s"
        using removeConnectionInLoop_ok [OF Cons.prems(1), of c "the (conn_timer c)"] by auto
      have "timers_set s1" using Cons.prems(2) s1(4,5) by (auto simp: timers_set_def)
      moreover have "(\<lambda>i. map_option conn_fd (smap_find (conns s1) i)) =
          (\<lambda>i. map_option conn_fd (smap_find (conns s) i))(ident := None)"
        by (auto simp: s1(4))
      ultimately show ?thesis
        using Cons.IH [OF s1(2)] removed_pool [OF s1(1)] Cons.prems(3,4) s1(1,3) Drop Some
        by auto
    qed
  qed
qed



text \<open>
  The life of a connection's timer. A connection accepted at a time \<open>now\<close> with a hold
  time gets a timer for \<open>now\<close> plus the hold time. If no other timer has that time, removing
  the connection after the timer has been added takes exactly this timer out again, unless
  the hold time is zero: then it stays in the queue.
\<close>

lemma server_timer_life:
  assumes "server_ok s" and "pool_ready (srv_pool s)" and "conn_hold_seconds s \<ge> 0"
    and "\<forall>c. connID (cb c) = connID c \<and> conn_timer (cb c) = conn_timer c"
    and "smap_find (timers (timerq s)) (addTime (conn_hold_seconds s * 1000 * 1000) now) = None"
    and "newConnection cb ctx now fd 0 0 s = Inr s1" and "0 \<le> fd"
    and "s2 = run_add_timer (next_timer s) s1"
  shows "smap_find (timers (timerq s2)) =
      (smap_find (timers (timerq s)))(addTime (conn_hold_seconds s * 1000 * 1000) now \<mapsto> next_timer s) \<and>
    (\<exists>c s3. smap_find (conns s2) (nextConnId s) = Some c \<and>
      removeConnectionInLoop c s2 = Inr (stopTimer c, s3) \<and>
      smap_find (conns s3) = (smap_find (conns s2))(nextConnId s := None) \<and>
      smap_find (timers (timerq s3)) =
        smap_find (timers (timerq (if conn_hold_seconds s > 0 then s else s2))))"
proof -
  let ?t = "addTime (conn_hold_seconds s * 1000 * 1000) now" and ?r = "next_timer s"
  obtain l p where "getNextLoop (srv_pool s) = (Some l, p)"
    using pool_ready_next [OF assms(2)] by blast
  then have "fst (getNextLoop (srv_pool s)) = Some l" by simp
  then obtain c where s1: "server_ok s1" "smap_find (conns s1) = (smap_find (conns s))(nextConnId s \<mapsto> cb c)"
      "connID c = nextConnId s" "conn_timer c = Some ?r" "timerq s1 = timerq s"
      "conn_hold_seconds s1 = conn_hold_seconds s" "expiration (timer_heap s1 ?r) = ?t"
    using accepted_ok [OF assms(1), of l cb ctx now fd] assms(3,4,6,7)
    by (auto simp: newConnection_def new_connection_def)
  have tq: "tq_ok (timerq s)" using assms(1) by (simp add: server_ok_def)
  have s2: "conns s2 = conns s1" "timer_heap s2 = timer_heap s1"
      "conn_hold_seconds s2 = conn_hold_seconds s" "timerq s2 = addTimerInLoop (timer_heap s1) ?r (timerq s)"
    unfolding assms(8) run_add_timer_def by (simp_all add: s1(5,6))
  have ok2: "server_ok s2"
    using s1(1,5) tq_ok_add [OF tq] unfolding assms(8) run_add_timer_def by (simp add: server_ok_def)
  have ins: "timers (timerq s2) = smap_insert ?t ?r (timers (timerq s))"
    by (simp add: s2(4) addTimerInLoop_def s1(7))
  have added: "smap_find (timers (timerq s2)) = (smap_find (timers (timerq s)))(?t \<mapsto> ?r)"
    using tq assms(5) by (simp add: ins smap.find_insert_new tq_ok_def)
  obtain s3 where s3: "removeConnectionInLoop (cb c) s2 = Inr (stopTimer (cb c), s3)"
      "smap_find (conns s3) = (smap_find (conns s2))(nextConnId s := None)"
      "timerq s3 = (if conn_hold_seconds s > 0 then deleteTimer ?t (timerq s2) else timerq s2)"
    using removeConnectionInLoop_ok [OF ok2, of "cb c" ?r] assms(4)
    unfolding s2(2,3) s1(7) by (auto simp: s1(3,4))
  have "smap_find (timers (deleteTimer ?t (timerq s2))) = smap_find (timers (timerq s))"
    using added smap.find_erase_insert [of "timers (timerq s)" ?t ?r] tq assms(5)
    by (simp add: deleteTimer_def ins tq_ok_def)
  moreover have "smap_find (conns s2) (nextConnId s) = Some (cb c)"
    by (simp add: s2(1) s1(2))
  ultimately show ?thesis using added s3 by auto
qed

lemma server_timer_life_witness:
  "\<exists>s s1. new_server Map.empty True True (new_thread_pool 9 0) \<lparr>timers = [], check_per_seconds = 3, armed = []\<rparr> 1 10 4 = Inr s \<and>
    newConnection (\<lambda>c. c) () (Timestamp 5) 7 0 0 s = Inr s1 \<and>
    smap_find (timers (timerq (run_add_timer 0 s1))) (Timestamp 10000005) = Some 0"
proof -
  let ?tq = "\<lparr>timers = [], check_per_seconds = 3, armed = []\<rparr> :: timer_queue"
  obtain s :: "unit tcp_server" where s: "new_server Map.empty True True (new_thread_pool 9 0) ?tq 1 10 4 = Inr s"
      "server_ok s" "pool_ready (srv_pool s)" "conn_hold_seconds s = 10" "timers (timerq s) = []"
      "next_timer s = 0"
    by (simp add: new_server_def server_ok_def pool_ready_def new_thread_pool_def tq_ok_def)
  obtain l p where "getNextLoop (srv_pool s) = (Some l, p)"
    using pool_ready_next [OF s(3)] by blast
  then obtain s1 where s1: "newConnection (\<lambda>c. c) () (Timestamp 5) 7 0 0 s = Inr s1"
    using accepted_ok [OF s(2), of l "\<lambda>c. c" "()" "Timestamp 5" 7] by (auto simp: newConnection_def)
  have t: "addTime (conn_hold_seconds s * 1000 * 1000) (Timestamp 5) = Timestamp 10000005"
    by (simp add: s(4) addTime_def wrap64_def)
  have "smap_find (timers (timerq (run_add_timer (next_timer s) s1))) =
      (smap_find (timers (timerq s)))(addTime (conn_hold_seconds s * 1000 * 1000) (Timestamp 5) \<mapsto> next_timer s)"
    using server_timer_life [OF s(2,3) _ _ _ s1 _ refl] s(4,5) by simp
  then have "smap_find (timers (timerq (run_add_timer 0 s1))) = [Timestamp 10000005 \<mapsto> 0]"
    unfolding t s(5,6) by simp
  then show ?thesis using s(1) s1 by auto
qed

end
