(* ===== verification/Reactor.thy ===== *)
theory Reactor
  imports ConnFrame TcpServer
begin

text \<open>
  The running server: \<open>net/TcpServer.cc\<close>, \<open>net/TcpConnection.cc\<close>, \<open>net/TimerQueue.cc\<close>,
  \<open>net/Epoll.cc\<close> and \<open>http/HttpServer.cc\<close> put together. The state has the server with its
  table of connections as they are now, the poller of each loop, and for each connection what
  has been sent. A step is the acceptance of a connection, the next task of a loop, the call of
  a read or write handler for an event, or a tick of the timer queue. The loops run at the same
  time, so steps of different loops may follow each other in any order; a handler or task is
  one step. A step that ends in a fault is no step: what can fail is the subject of the
  theories of the components.

  Each poller also watches its loop's own descriptors: every loop has the descriptor that wakes it
  up, and the main loop has the timer descriptor and the listening socket. A connection is
  accepted, and the timer queue ticks, when \<open>epoll_wait\<close> reports one of the latter and the channel
  calls its read callback. The wake-up descriptor's callback only empties its counter, which is in
  theory \<open>EventLoop\<close>.
\<close>

subsection \<open>The descriptors of the loops\<close>

record loop_fds =
  lf_wakeup :: "nat \<Rightarrow> int"      \<comment> \<open>\<open>wakeupFd\<close> of each loop\<close>
  lf_timer :: int
  lf_listen :: int

text \<open>
  \<open>EventLoop::EventLoop\<close>, \<open>TimerQueue::TimerQueue\<close> and \<open>TcpServer::TcpServer\<close> with \<open>start\<close> make a
  channel for their descriptor in the same way: they set its read callback and enable reading.
\<close>

definition own_channel :: "int \<Rightarrow> channel" where
  "own_channel fd = setHandleRead (new_channel (- 1 - fd) fd)"

definition wakeup_channel :: "int \<Rightarrow> epoll \<Rightarrow> channel \<times> epoll" where
  "wakeup_channel fd ep = enableReading (own_channel fd) ep"

definition timer_channel :: "int \<Rightarrow> epoll \<Rightarrow> channel \<times> epoll" where
  "timer_channel fd ep = enableReading (own_channel fd) ep"

definition listen_channel :: "int \<Rightarrow> channel" where
  "listen_channel fd = own_channel fd"

text \<open>The poller of a loop of the pool, and that of the main loop once the server has started.\<close>

definition pool_loop_poll :: "loop_fds \<Rightarrow> nat \<Rightarrow> channel list \<times> epoll" where
  "pool_loop_poll fds l = (let (w, ep) = wakeup_channel (lf_wakeup fds l) new_epoll in ([w], ep))"

definition main_loop_poll :: "loop_fds \<Rightarrow> nat \<Rightarrow> channel list \<times> epoll" where
  "main_loop_poll fds l =
     (let (w, ep1) = wakeup_channel (lf_wakeup fds l) new_epoll;
          (t, ep2) = timer_channel (lf_timer fds) ep1;
          (a, ep3) = enableReading (listen_channel (lf_listen fds)) ep2
      in ([w, t, a], ep3))"

definition loop_poll :: "loop_fds \<Rightarrow> thread_pool \<Rightarrow> nat \<Rightarrow> channel list \<times> epoll" where
  "loop_poll fds p l =
     (if l = base_loop p then main_loop_poll fds l
      else if Some l \<in> set (loops p) then pool_loop_poll fds l
      else ([], new_epoll))"

subsection \<open>State\<close>

record system =
  sy_srv :: "http_context option tcp_server"
  sy_home :: "int \<Rightarrow> nat"          \<comment> \<open>the loop of each connection\<close>
  sy_poll :: "nat \<Rightarrow> epoll"        \<comment> \<open>the poller of each loop\<close>
  sy_sent :: "int \<Rightarrow> string"
  sy_fin :: "int \<Rightarrow> bool"
  sy_users :: "(string, string) smap"
  sy_sql :: sql_pool
  sy_accepted :: "(int \<times> int) list"  \<comment> \<open>identifiers and descriptors, in order\<close>
  sy_closed :: "(int \<times> int) list"    \<comment> \<open>the same for destroyed connections\<close>
  sy_fds :: loop_fds
  sy_own :: "nat \<Rightarrow> channel list"     \<comment> \<open>the loops' own channels\<close>

abbreviation sy_conn :: "system \<Rightarrow> int \<Rightarrow> http_connection option" where
  "sy_conn s \<equiv> smap_find (conns (sy_srv s))"

definition new_system ::
    "loop_fds \<Rightarrow> http_context option tcp_server \<Rightarrow> (string, string) smap \<Rightarrow> sql_pool \<Rightarrow> system" where
  "new_system lfs srv us p = \<lparr>sy_srv = srv, sy_home = (\<lambda>_. 0), sy_poll = snd \<circ> loop_poll lfs (srv_pool srv),
     sy_sent = (\<lambda>_. []), sy_fin = (\<lambda>_. False), sy_users = us, sy_sql = p, sy_accepted = [], sy_closed = [],
     sy_fds = lfs, sy_own = fst \<circ> loop_poll lfs (srv_pool srv)\<rparr>"

subsection \<open>Handlers\<close>

text \<open>What a handler of connection \<open>ident\<close> works on, and where its results go.\<close>

definition handler_io :: "write_res list \<Rightarrow> int \<Rightarrow> system \<Rightarrow> server_io" where
  "handler_io answers ident s = \<lparr>io_poll = sy_poll s (sy_home s ident), io_writes = answers,
     io_sent = sy_sent s ident, io_fin = sy_fin s ident, io_removals = [], io_closed = [],
     users = sy_users s, sql = sy_sql s\<rparr>"

definition put_back :: "int \<Rightarrow> http_connection \<Rightarrow> server_io \<Rightarrow> system \<Rightarrow> system" where
  "put_back ident c io s = s\<lparr>
     sy_srv := fold removeConnection (io_removals io)
       ((sy_srv s)\<lparr>conns := smap_assign ident c (conns (sy_srv s))\<rparr>),
     sy_poll := (sy_poll s)(sy_home s ident := io_poll io),
     sy_sent := (sy_sent s)(ident := io_sent io), sy_fin := (sy_fin s)(ident := io_fin io),
     sy_users := users io, sy_sql := sql io\<rparr>"

definition on_conn :: "(http_connection \<Rightarrow> server_io \<Rightarrow> (http_connection \<times> server_io) result) \<Rightarrow>
    write_res list \<Rightarrow> int \<Rightarrow> system \<Rightarrow> system result" where
  "on_conn handler answers ident s =
     (case sy_conn s ident of
        None \<Rightarrow> Inl Null_Pointer
      | Some c \<Rightarrow> res_map (\<lambda>(c', io'). put_back ident c' io' s) (handler c (handler_io answers ident s)))"

definition sys_read :: "http_env \<Rightarrow> timestamp \<Rightarrow> read_res list \<Rightarrow> write_res list \<Rightarrow> int \<Rightarrow> system \<Rightarrow>
    system result" where
  "sys_read env now reads = on_conn (handleRead (onMessage env) now reads)"

definition sys_write_event :: "write_res list \<Rightarrow> int \<Rightarrow> system \<Rightarrow> system result" where
  "sys_write_event = on_conn handleWrite"

subsection \<open>Accepting, tasks and timers\<close>

definition sys_accept :: "timestamp \<Rightarrow> int \<Rightarrow> int \<Rightarrow> int \<Rightarrow> system \<Rightarrow> system result" where
  "sys_accept now fd second reopened s =
     res_map (\<lambda>srv. if fd \<ge> 0
         then let ident = nextConnId (sy_srv s)
              in s\<lparr>sy_srv := srv,
                sy_home := (sy_home s)(ident := the (fst (getNextLoop (srv_pool (sy_srv s))))),
                sy_sent := (sy_sent s)(ident := []), sy_fin := (sy_fin s)(ident := False),
                sy_accepted := sy_accepted s @ [(ident, fd)]\<rparr>
         else s\<lparr>sy_srv := srv\<rparr>)
       (newConnection onConnection None now fd second reopened (sy_srv s))"

text \<open>
  A removal drops the last reference to the connection, so its destructor closes the
  descriptor.
\<close>

definition sys_remove :: "int \<Rightarrow> system \<Rightarrow> system result" where
  "sys_remove ident s =
     (case sy_conn s ident of
        None \<Rightarrow> Inl Null_Pointer
      | Some c \<Rightarrow> res_map (\<lambda>(c', srv). s\<lparr>sy_srv := srv,
            sy_closed := sy_closed s @ map (Pair ident) (io_closed (conn_destroy c' (handler_io [] ident s)))\<rparr>)
          (removeConnectionInLoop c (sy_srv s)))"

definition sys_establish :: "int \<Rightarrow> system \<Rightarrow> system result" where
  "sys_establish = on_conn (\<lambda>c io. Inr (connectEstablished c io)) []"

fun sys_task :: "srv_task \<Rightarrow> system \<Rightarrow> system result" where
  "sys_task (Establish ident) s = sys_establish ident s"
| "sys_task (Remove ident) s = sys_remove ident s"
| "sys_task (Add_Timer r) s = Inr (s\<lparr>sy_srv := run_add_timer r (sy_srv s)\<rparr>)"

text \<open>Loop \<open>l\<close> takes its oldest task and runs it.\<close>

definition next_task :: "nat \<Rightarrow> system \<Rightarrow> srv_task option" where
  "next_task l s = map_option snd (find (\<lambda>(k, _). k = l) (srv_tasks (sy_srv s)))"

definition take_task :: "nat \<Rightarrow> srv_task \<Rightarrow> system \<Rightarrow> system" where
  "take_task l t s = s\<lparr>sy_srv := (sy_srv s)\<lparr>srv_tasks := remove1 (l, t) (srv_tasks (sy_srv s))\<rparr>\<rparr>"

text \<open>The callback of a timer, and the tick of the timer queue.\<close>

definition run_timer :: "timestamp \<Rightarrow> nat \<Rightarrow> system \<Rightarrow> system" where
  "run_timer now r s =
     (case timer_run (\<lambda>ident. sy_conn s ident \<noteq> None) (timer_heap (sy_srv s) r) of
        None \<Rightarrow> s
      | Some ident \<Rightarrow> (case sy_conn s ident of
            None \<Rightarrow> s
          | Some c \<Rightarrow>
              let (c', io', heap, added) = handleTimer now c (handler_io [] ident s) (timer_heap (sy_srv s));
                  s1 = put_back ident c' io' s
              in s1\<lparr>sy_srv := fold (\<lambda>r. queueInLoop (main_loop (sy_srv s)) (Add_Timer r)) added
                   ((sy_srv s1)\<lparr>timer_heap := heap\<rparr>)\<rparr>))"

definition sys_tick :: "timestamp \<Rightarrow> timestamp \<Rightarrow> system \<Rightarrow> system result" where
  "sys_tick now now2 s =
     res_map (\<lambda>(tq, s'). s'\<lparr>sy_srv := (sy_srv s')\<lparr>timerq := tq\<rparr>\<rparr>)
       (tq_handleRead (run_timer now2) now now2 (timerq (sy_srv s)) s)"

subsection \<open>Steps\<close>

text \<open>
  The kernel gives out a descriptor that is not open. \<open>epoll_wait\<close> reports events for a watched
  descriptor: those of its mask, and errors and hang-ups. The events are set on the channel,
  and its \<open>handleEvent\<close> decides what is called.
\<close>

definition reported :: "system \<Rightarrow> nat \<Rightarrow> int \<Rightarrow> mask \<Rightarrow> bool" where
  "reported s l fd revents =
     (case watching (sy_poll s l) fd of
        None \<Rightarrow> False
      | Some m \<Rightarrow> revents AND NOT (m OR EPOLLERR OR EPOLLHUP) = 0)"

definition own_event :: "system \<Rightarrow> nat \<Rightarrow> int \<Rightarrow> mask \<Rightarrow> bool" where
  "own_event s l fd revents \<longleftrightarrow> reported s l fd revents \<and>
     list_ex (\<lambda>ch. chan_fd ch = fd \<and> handleEvent (setREvent revents ch) = Call_Read) (sy_own s l)"

definition conn_event :: "system \<Rightarrow> int \<Rightarrow> mask \<Rightarrow> dispatch \<Rightarrow> bool" where
  "conn_event s ident revents d =
     (case sy_conn s ident of
        None \<Rightarrow> False
      | Some c \<Rightarrow> reported s (sy_home s ident) (conn_fd c) revents \<and>
          handleEvent (setREvent revents (conn_channel c)) = d)"

definition open_fds :: "system \<Rightarrow> int set" where
  "open_fds s = (conn_fd \<circ> snd) ` set (conns (sy_srv s)) \<union> (\<Union>l. chan_fd ` set (sy_own s l))"

inductive sys_step :: "http_env \<Rightarrow> system \<Rightarrow> system \<Rightarrow> bool" for env where
  accept: "own_event s (main_loop (sy_srv s)) (lf_listen (sy_fds s)) revents \<Longrightarrow> fd \<notin> open_fds s \<Longrightarrow>
    sys_accept now fd second reopened s = Inr s' \<Longrightarrow> sys_step env s s'"
| task: "next_task l s = Some t \<Longrightarrow> sys_task t (take_task l t s) = Inr s' \<Longrightarrow> sys_step env s s'"
| readable: "conn_event s ident revents Call_Read \<Longrightarrow> sys_read env now reads writes ident s = Inr s' \<Longrightarrow>
    sys_step env s s'"
| writable: "conn_event s ident revents Call_Write \<Longrightarrow> sys_write_event writes ident s = Inr s' \<Longrightarrow>
    sys_step env s s'"
| tick: "own_event s (main_loop (sy_srv s)) (lf_timer (sy_fds s)) revents \<Longrightarrow>
    sys_tick now now2 s = Inr s' \<Longrightarrow> sys_step env s s'"

end
