(* ===== verification/HttpSession.thy ===== *)
theory HttpSession
  imports HttpServer
begin

text \<open>
  The server over a whole connection: a client sends request after request for files, the
  network cuts each into any pieces, and each is answered in order. This puts together the
  handler of theory \<open>TcpConnection\<close>, the parser, the page logic and the response writer.
\<close>

subsection \<open>Reads\<close>

text \<open>One call of \<open>handleRead\<close> for each piece that arrives, with its time.\<close>

fun feed :: "http_env \<Rightarrow> (timestamp \<times> string) list \<Rightarrow> http_connection \<Rightarrow> 'w server_io_scheme \<Rightarrow>
    (http_connection \<times> 'w server_io_scheme) result" where
  "feed env [] c io = Inr (c, io)"
| "feed env ((now, s) # reads) c io =
     res_bind (handleRead (onMessage env) now [Data s] c io) (\<lambda>(c1, io1). feed env reads c1 io1)"

lemma feed_part:
  assumes "conn_mode c = 1" and "conn_context c = Some ctx" and "buf_ok (readBuffer c)" and "s \<noteq> []"
    and "writeIndex (readBuffer c) + int (length s) < buf_size (readBuffer c)"
    and "spec_parse ctx (contents (readBuffer c) @ s) True = Inr (True, c1, u)" and "\<not> gotAll c1"
  shows "\<exists>b. handleRead (onMessage env) now [Data s] c io =
      Inr (c\<lparr>visited := now, readBuffer := b, conn_context := Some c1\<rparr>, io) \<and> buf_ok b \<and>
    contents b = u \<and> writeIndex b \<le> writeIndex (readBuffer c) + int (length s) \<and>
    buf_size b = buf_size (readBuffer c)"
proof -
  obtain b where b: "read_in s (readBuffer c) = Inr b" "buf_ok b" "contents b = contents (readBuffer c) @ s"
      "buf_size b = buf_size (readBuffer c)"
      "writeIndex b = writeIndex (readBuffer c) + int (length s)"
    using read_in_ok [OF assms(3), of s] assms(5) by (auto simp: writableBytes_def)
  have read: "handleRead (onMessage env) now [Data s] c io =
      onMessage env (c\<lparr>visited := now, readBuffer := b\<rparr>) io"
    using b(1) assms(1,4) by (simp add: handleRead_def handleRead_LT_def)
  obtain b1 where b1: "parseRequest ctx b = Inr (True, c1, b1)" "contents b1 = u"
    using unread_parseRequest [OF b(2), of ctx] assms(6) b(3) by (auto simp: unread_Inr)
  then have "onMessage env (c\<lparr>visited := now, readBuffer := b\<rparr>) io =
      Inr (c\<lparr>visited := now, readBuffer := b1, conn_context := Some c1\<rparr>, io)"
    using assms(2,7) by (simp add: onMessage_def)
  moreover have "buf_ok b1 \<and> buf_data b1 = buf_data b \<and> writeIndex b1 \<le> writeIndex b"
    using parse_loop_frame [OF b1(1) [unfolded parseRequest_def] b(2)] by blast
  ultimately show ?thesis
    using read b1(2) b(4,5) by (intro exI [of _ b1]) (simp add: buf_size_def)
qed

lemma feed_last:
  assumes "conn_mode c = 1" and "conn_context c = Some ctx" and "buf_ok (readBuffer c)" and "s \<noteq> []"
    and "writeIndex (readBuffer c) + int (length s) < buf_size (readBuffer c)"
    and "spec_parse ctx (contents (readBuffer c) @ s) True = Inr (True, fin, [])" and "gotAll fin"
  shows "\<exists>b. handleRead (onMessage env) now [Data s] c io =
      res_bind (onRequest env (ctx_request fin)
          (c\<lparr>visited := now, readBuffer := b, conn_context := Some fin\<rparr>) io)
        (\<lambda>(c3, io3). Inr (c3\<lparr>conn_context := Some (ctx_reset fin)\<rparr>, io3)) \<and>
    buf_ok b \<and> writeIndex b = 0 \<and> buf_size b = buf_size (readBuffer c)"
proof -
  obtain b where b: "read_in s (readBuffer c) = Inr b" "buf_ok b" "contents b = contents (readBuffer c) @ s"
      "buf_size b = buf_size (readBuffer c)"
    using read_in_ok [OF assms(3), of s] assms(5) by (auto simp: writableBytes_def)
  have read: "handleRead (onMessage env) now [Data s] c io =
      onMessage env (c\<lparr>visited := now, readBuffer := b\<rparr>) io"
    using b(1) assms(1,4) by (simp add: handleRead_def handleRead_LT_def)
  have "buf_rest b"
    using b(3) assms(4) contents_Nil_iff [OF b(2)] by (simp add: buf_rest_def)
  then obtain b1 where "contents b1 = []" "buf_ok b1" "buf_rest b1" "buf_size b1 = buf_size b"
      "onMessage env (c\<lparr>visited := now, readBuffer := b\<rparr>) io =
        res_bind (onRequest env (ctx_request fin)
          (c\<lparr>visited := now, readBuffer := b1, conn_context := Some fin\<rparr>) io)
        (\<lambda>(c3, io3). Inr (c3\<lparr>conn_context := Some (ctx_reset fin)\<rparr>, io3))"
    using onMessage_complete [of "c\<lparr>visited := now, readBuffer := b\<rparr>" ctx fin "[]" env io]
      assms(2,6,7) b(2,3) by auto
  then show ?thesis
    using read b(4) by (intro exI [of _ b1]) (simp add: buf_rest_def contents_Nil_iff)
qed

text \<open>However a request is cut, the last piece leads to one call of \<open>onRequest\<close>.\<close>

lemma feed_request:
  assumes "conn_mode c = 1" and "conn_context c = Some ctx" and "buf_ok (readBuffer c)"
    and "reads \<noteq> []" and "[] \<notin> snd ` set reads"
    and "writeIndex (readBuffer c) + int (length (concat (map snd reads))) < buf_size (readBuffer c)"
    and "mid_request ctx (contents (readBuffer c) @ concat (map snd reads))"
    and "spec_parse ctx (contents (readBuffer c) @ concat (map snd reads)) True = Inr (True, fin, [])"
    and "gotAll fin"
  shows "\<exists>b now. feed env reads c io =
      res_bind (onRequest env (ctx_request fin)
          (c\<lparr>visited := now, readBuffer := b, conn_context := Some fin\<rparr>) io)
        (\<lambda>(c3, io3). Inr (c3\<lparr>conn_context := Some (ctx_reset fin)\<rparr>, io3)) \<and>
    buf_ok b \<and> writeIndex b = 0 \<and> buf_size b = buf_size (readBuffer c)"
  using assms
proof (induction reads arbitrary: c ctx)
  case Nil
  then show ?case by simp
next
  case (Cons r reads)
  obtain now s where r: "r = (now, s)" by (cases r)
  have s: "s \<noteq> []" using Cons.prems(5) by (auto simp: r)
  show ?case
  proof (cases "reads = []")
    case True
    have feed: "feed env (r # reads) c io = handleRead (onMessage env) now [Data s] c io"
      by (cases "handleRead (onMessage env) now [Data s] c io") (auto simp: r True)
    show ?thesis
      unfolding feed using feed_last [OF Cons.prems(1-3) s, of fin env now io] Cons.prems(6,8,9)
      by (auto simp: r True)
  next
    case False
    let ?t = "concat (map snd reads)"
    have t: "?t \<noteq> []" using False Cons.prems(5) by (cases reads) auto
    obtain c1 u where part: "spec_parse ctx (contents (readBuffer c) @ s) True = Inr (True, c1, u)"
        "\<not> gotAll c1" "mid_request c1 (u @ ?t)" "spec_parse c1 (u @ ?t) True = Inr (True, fin, [])"
      using mid_request_piece [of ctx "contents (readBuffer c) @ s" ?t fin] Cons.prems(7,8) t
      by (auto simp: r)
    obtain b where b: "handleRead (onMessage env) now [Data s] c io =
          Inr (c\<lparr>visited := now, readBuffer := b, conn_context := Some c1\<rparr>, io)" "buf_ok b"
        "contents b = u" "writeIndex b \<le> writeIndex (readBuffer c) + int (length s)"
        "buf_size b = buf_size (readBuffer c)"
      using feed_part [OF Cons.prems(1-3) s _ part(1,2), of env now io] Cons.prems(6) by (auto simp: r)
    let ?c = "c\<lparr>visited := now, readBuffer := b, conn_context := Some c1\<rparr>"
    have "\<exists>b' now'. feed env reads ?c io =
        res_bind (onRequest env (ctx_request fin)
            (?c\<lparr>visited := now', readBuffer := b', conn_context := Some fin\<rparr>) io)
          (\<lambda>(c3, io3). Inr (c3\<lparr>conn_context := Some (ctx_reset fin)\<rparr>, io3)) \<and>
      buf_ok b' \<and> writeIndex b' = 0 \<and> buf_size b' = buf_size (readBuffer ?c)"
      by (rule Cons.IH [of ?c c1])
        (use Cons.prems False b part in \<open>simp_all add: r\<close>)
    then show ?thesis using b(1,5) by (simp add: r)
  qed
qed

subsection \<open>A session of requests\<close>

text \<open>
  A connection between two requests: nothing unread, nothing unsent, and the whole read
  buffer free.
\<close>

definition idle :: "http_connection \<Rightarrow> 'w server_io_scheme \<Rightarrow> bool" where
  "idle c io \<longleftrightarrow> conn_mode c = 1 \<and> conn_context c = Some new_context \<and> out_ok c io \<and>
     contents (writeBuffer c) = [] \<and> buf_ok (readBuffer c) \<and> writeIndex (readBuffer c) = 0"

text \<open>
  One request of a client, the reads in which it arrives, and the pieces in which its file is
  read.
\<close>

record exchange =
  ex_method :: string
  ex_path :: string
  ex_query :: string
  ex_v11 :: bool
  ex_headers :: "(string \<times> string) list"
  ex_reads :: "(timestamp \<times> string) list"
  ex_file :: "string list"

definition ex_text :: "exchange \<Rightarrow> string" where
  "ex_text e = render_request (ex_method e) (ex_path e) (ex_query e) (ex_v11 e) (ex_headers e)"

definition ex_request :: "exchange \<Rightarrow> http_request" where
  "ex_request e = sent_request (ex_method e) (ex_path e) (ex_query e) (ex_v11 e) (ex_headers e) []"

definition ex_reply :: "exchange \<Rightarrow> http_response" where
  "ex_reply e = file_response (wants_close (ex_request e)) (concat (ex_file e))"

definition exchange_ok :: "http_env \<Rightarrow> int \<Rightarrow> exchange \<Rightarrow> bool" where
  "exchange_ok env room e \<longleftrightarrow> concat (map snd (ex_reads e)) = ex_text e \<and> [] \<notin> snd ` set (ex_reads e) \<and>
     line_ok (ex_method e) (ex_path e) (ex_query e) \<and>
     (\<forall>h \<in> set (ex_headers e). header_ok h) \<and> method_of (ex_method e) \<noteq> POST \<and>
     int (length (ex_text e)) < room \<and> \<not> is_cgi (ex_path e) \<and>
     (\<exists>file. file_path (env_cwd env) (static_page (ex_path e)) = Inr file \<and>
       env_open env file = Some (map Data (ex_file e) @ [Data []])) \<and>
     (\<forall>s \<in> set (ex_file e). s \<noteq> [] \<and> length s \<le> 2048) \<and> length (concat (ex_file e)) \<le> 2 ^ 29"

fun session :: "http_env \<Rightarrow> exchange list \<Rightarrow> http_connection \<Rightarrow> 'w server_io_scheme \<Rightarrow>
    (http_connection \<times> 'w server_io_scheme) result" where
  "session env [] c io = Inr (c, io)"
| "session env (e # es) c io =
     res_bind (feed env (ex_reads e) c io)
       (\<lambda>(c1, io1). session env es c1 io1)"

lemma onRequest_whole:
  assumes "defaultHttpCallback env req (new_response (wants_close req)) io = Inr (resp, io)"
    and "\<not> closeConnection resp" and "length (concat (response_parts resp)) \<le> 2 ^ 30"
    and "readableBytes (writeBuffer c) = 0" and "io_writes io = Wrote n # as"
    and "length (concat (response_parts resp)) \<le> n"
  shows "onRequest env req c io =
    Inr (c, io\<lparr>io_writes := as, io_sent := io_sent io @ concat (response_parts resp)\<rparr>)"
proof -
  obtain b where b: "appendToBuffer resp (buf_new 1024) = Inr b" "buf_ok b"
      "contents b = concat (response_parts resp)"
    using appendToBuffer_text [of "buf_new 1024" resp] buf_room_new [OF assms(3)] by auto
  then have "read_range b (readIndex b) (readIndex b + readableBytes b) =
      Inr (concat (response_parts resp))"
    using read_range_contents [OF b(2)] by (simp add: readableBytes_def)
  then show ?thesis
    using assms(2) b(1) send_whole [OF assms(4,5,6)] by (simp add: onRequest_def assms(1))
qed

lemma exchange_reply:
  assumes "exchange_ok env room e"
  shows "read_head (concat (response_parts (ex_reply e))) = Some (head_lines (ex_reply e), concat (ex_file e))"
proof -
  have body: "resp_body (ex_reply e) = concat (ex_file e)" by (simp add: ex_reply_def)
  then have "length (resp_body (ex_reply e)) < 10 ^ 13" using assms by (simp add: exchange_ok_def)
  moreover have "response_clean (ex_reply e)" unfolding ex_reply_def by (rule file_response_clean)
  ultimately show ?thesis
    unfolding body [symmetric] by (simp only: response_text read_head_lines [OF head_lines_clean])
qed

lemma exchange_parses:
  assumes "exchange_ok env room e"
  shows "mid_request new_context (ex_text e)"
    and "spec_parse new_context (ex_text e) True =
      Inr (True, \<lparr>ctx_request = ex_request e, parseState = kGotAll\<rparr>, [])"
    and "ex_text e \<noteq> []"
proof -
  note ok = assms [unfolded exchange_ok_def]
  show "mid_request new_context (ex_text e)"
    using ok unfolding mid_request_def ex_text_def by (intro disjI2 conjI refl exI) simp_all
  show "spec_parse new_context (ex_text e) True =
      Inr (True, \<lparr>ctx_request = ex_request e, parseState = kGotAll\<rparr>, [])"
    using spec_parse_request [of "ex_method e" "ex_path e" "ex_query e" "ex_headers e" "ex_v11 e" "[]"] ok
    by (simp add: ex_text_def ex_request_def spec_parse_gotAll)
  show "ex_text e \<noteq> []" by (simp add: ex_text_def render_request_def)
qed

lemma exchange_page:
  assumes "exchange_ok env room e"
  shows "defaultHttpCallback env (ex_request e) (new_response (wants_close (ex_request e))) io =
    Inr (ex_reply e, io)"
proof -
  note ok = assms [unfolded exchange_ok_def]
  from ok obtain f where "file_path (env_cwd env) (static_page (ex_path e)) = Inr f"
      "env_open env f = Some (map Data (ex_file e) @ [Data []])"
    by blast
  with ok show ?thesis
    unfolding ex_reply_def
    by (intro defaultHttpCallback_static) (simp_all add: ex_request_def sent_request_simps)
qed

lemma exchange_step:
  assumes "idle c io" and "exchange_ok env (buf_size (readBuffer c)) e" and "\<not> wants_close (ex_request e)"
    and "io_writes io = Wrote n # as" and "length (concat (response_parts (ex_reply e))) \<le> n"
  shows "\<exists>c'. feed env (ex_reads e) c io =
      Inr (c', io\<lparr>io_writes := as, io_sent := io_sent io @ concat (response_parts (ex_reply e))\<rparr>) \<and>
    idle c' (io\<lparr>io_writes := as, io_sent := io_sent io @ concat (response_parts (ex_reply e))\<rparr>) \<and>
    buf_size (readBuffer c') = buf_size (readBuffer c)"
proof -
  note idle = assms(1) [unfolded idle_def] and ok = assms(2) [unfolded exchange_ok_def]
  let ?fin = "\<lparr>ctx_request = ex_request e, parseState = kGotAll\<rparr>"
  have start: "contents (readBuffer c) = []"
    using idle by (auto simp: contents_Nil_iff buf_empty_def buf_ok_def)
  have "ex_reads e \<noteq> []"
    using exchange_parses(3) [OF assms(2)] ok by auto
  then obtain b now where b: "feed env (ex_reads e) c io =
        res_bind (onRequest env (ctx_request ?fin)
            (c\<lparr>visited := now, readBuffer := b, conn_context := Some ?fin\<rparr>) io)
          (\<lambda>(c3, io3). Inr (c3\<lparr>conn_context := Some (ctx_reset ?fin)\<rparr>, io3))"
      "buf_ok b" "writeIndex b = 0" "buf_size b = buf_size (readBuffer c)"
    using feed_request [of c new_context "ex_reads e" ?fin env io] exchange_parses [OF assms(2)] idle ok start
    by (auto simp: gotAll_def)
  let ?c = "c\<lparr>visited := now, readBuffer := b, conn_context := Some ?fin\<rparr>"
  have "onRequest env (ex_request e) ?c io =
      Inr (?c, io\<lparr>io_writes := as, io_sent := io_sent io @ concat (response_parts (ex_reply e))\<rparr>)"
    using idle file_response_length [of "concat (ex_file e)" False] ok assms(3-5)
    by (intro onRequest_whole [OF exchange_page [OF assms(2)] _ _ _ assms(4)])
      (simp_all add: ex_reply_def out_ok_def readableBytes_contents)
  then show ?thesis
    using b idle by (simp add: ctx_reset_new idle_def out_ok_def registered_def wants_write_def)
qed

text \<open>
  A session. An idle level-triggered connection gets one request after the other, each cut
  into any reads, each for a file that can be read, none asking to close; the socket takes each
  response in one write. Then every request is answered, in order: the bytes that leave are
  one response for each request, which a client splits into the 200 status line, the headers
  and the content of its file. The connection is idle again at the end, the sending side is open,
  and users and database connections are untouched.
\<close>

lemma http_session:
  fixes io :: "'w server_io_scheme"
  assumes "idle c io"
    and "\<forall>e \<in> set es. exchange_ok env (buf_size (readBuffer c)) e \<and> \<not> wants_close (ex_request e)"
    and "io_writes io = map Wrote ns @ as"
    and "list_all2 (\<lambda>e n. length (concat (response_parts (ex_reply e))) \<le> n) es ns"
  shows "\<exists>c' io' outs. session env es c io = Inr (c', io') \<and> idle c' io' \<and>
    io_sent io' = io_sent io @ concat outs \<and>
    list_all2 (\<lambda>e out. read_head out = Some (head_lines (ex_reply e), concat (ex_file e))) es outs \<and>
    io_fin io' = io_fin io \<and> users io' = users io \<and> sql io' = sql io"
  using assms
proof (induction es arbitrary: c io ns)
  case Nil
  then show ?case by auto
next
  case (Cons e es)
  obtain n ns' where ns: "ns = n # ns'" "length (concat (response_parts (ex_reply e))) \<le> n"
      "list_all2 (\<lambda>e n. length (concat (response_parts (ex_reply e))) \<le> n) es ns'"
    using Cons.prems(4) by (auto simp: list_all2_Cons1)
  let ?out = "concat (response_parts (ex_reply e))"
  let ?io = "io\<lparr>io_writes := map Wrote ns' @ as, io_sent := io_sent io @ ?out\<rparr>"
  obtain c1 where c1: "feed env (ex_reads e) c io = Inr (c1, ?io)"
      "idle c1 ?io" "buf_size (readBuffer c1) = buf_size (readBuffer c)"
    using exchange_step [OF Cons.prems(1), of env e n "map Wrote ns' @ as"] Cons.prems(2,3) ns by auto
  obtain c' io' outs where rest: "session env es c1 ?io = Inr (c', io')" "idle c' io'"
      "io_sent io' = io_sent io @ ?out @ concat outs"
      "list_all2 (\<lambda>e out. read_head out = Some (head_lines (ex_reply e), concat (ex_file e))) es outs"
      "io_fin io' = io_fin io" "users io' = users io" "sql io' = sql io"
    using Cons.IH [OF c1(2), of ns'] Cons.prems(2) c1(3) ns(3) by auto
  have "read_head ?out = Some (head_lines (ex_reply e), concat (ex_file e))"
    using exchange_reply [of env _ e] Cons.prems(2) by auto
  with rest c1(1) show ?case
    by (intro exI [of _ c'] exI [of _ io'] exI [of _ "?out # outs"]) simp
qed

definition demo_env :: http_env where
  "demo_env = \<lparr>env_cwd = ''/srv'', env_open = (\<lambda>f.
     if f = ''/srv/root/judge.html'' then Some [Data ''ju'', Data ''dge'', Data []]
     else if f = ''/srv/root/log.html'' then Some [Data ''log'', Data []] else None),
     env_query = (\<lambda>_ _. True)\<rparr>"

text \<open>A request that arrives in two reads, the first of which has its first five bytes.\<close>

definition demo_exchange :: "string \<Rightarrow> string list \<Rightarrow> exchange" where
  "demo_exchange path pieces =
     (let s = render_request ''GET'' path [] True []
      in \<lparr>ex_method = ''GET'', ex_path = path, ex_query = [], ex_v11 = True, ex_headers = [],
        ex_reads = [(Timestamp 5, take 5 s), (Timestamp 6, drop 5 s)], ex_file = pieces\<rparr>)"

lemma demo_exchange_ok:
  "exchange_ok demo_env 1024 (demo_exchange ''/'' [''ju'', ''dge''])"
  "exchange_ok demo_env 1024 (demo_exchange ''/1'' [''log''])"
  "\<not> wants_close (ex_request (demo_exchange path pieces))"
proof -
  have "length (ex_text (demo_exchange ''/'' [''ju'', ''dge''])) = 18"
    and "length (ex_text (demo_exchange ''/1'' [''log''])) = 19"
    and "[] \<notin> snd ` set (ex_reads (demo_exchange ''/'' [''ju'', ''dge'']))"
    and "[] \<notin> snd ` set (ex_reads (demo_exchange ''/1'' [''log'']))"
    by code_simp+
  then show "exchange_ok demo_env 1024 (demo_exchange ''/'' [''ju'', ''dge''])"
    and "exchange_ok demo_env 1024 (demo_exchange ''/1'' [''log''])"
    unfolding exchange_ok_def
    by (simp_all add: demo_exchange_def ex_text_def demo_env_def line_ok_def method_of_def is_cgi_def
      file_path_def static_page_def Let_def)
  show "\<not> wants_close (ex_request (demo_exchange path pieces))"
    by (simp add: wants_close_def ex_request_def sent_request_def getHeader_def demo_exchange_def Let_def)
qed

lemma http_session_witness:
  "\<exists>c io c' io' out1 out2.
     connectEstablished (onConnection (new_connection 0 7 1 ''peer'' 0 None None))
       (fresh_server [Wrote 500, Wrote 500] []) = (c, io) \<and>
     session demo_env [demo_exchange ''/'' [''ju'', ''dge''], demo_exchange ''/1'' [''log'']] c io =
       Inr (c', io') \<and>
     io_sent io' = out1 @ out2 \<and> map_option snd (read_head out1) = Some ''judge'' \<and>
     map_option snd (read_head out2) = Some ''log''"
proof -
  let ?es = "[demo_exchange ''/'' [''ju'', ''dge''], demo_exchange ''/1'' [''log'']]"
  obtain c io where c: "connectEstablished (onConnection (new_connection 0 7 1 ''peer'' 0 None None))
        (fresh_server [Wrote 500, Wrote 500] []) = (c, io)" "out_ok c io" "conn_mode c = 1" "io_sent io = []"
      "io_writes io = [Wrote 500, Wrote 500]" "writeBuffer c = buf_new 1024" "readBuffer c = buf_new 1024"
      "conn_context c = Some new_context"
    by (rule fresh_http_connection)
  have "idle c io"
    using c by (simp add: idle_def, simp add: buf_new_def)
  moreover have "\<forall>e \<in> set ?es. exchange_ok demo_env (buf_size (readBuffer c)) e \<and>
      \<not> wants_close (ex_request e)"
    using demo_exchange_ok by (simp add: c(7) buf_size_def buf_new_def)
  moreover have "io_writes io = map Wrote [500, 500] @ []"
    by (simp add: c(5))
  moreover have "list_all2 (\<lambda>e n. length (concat (response_parts (ex_reply e))) \<le> n) ?es [500, 500]"
    by code_simp
  ultimately have "\<exists>c' io' outs. session demo_env ?es c io = Inr (c', io') \<and> idle c' io' \<and>
    io_sent io' = io_sent io @ concat outs \<and>
    list_all2 (\<lambda>e out. read_head out = Some (head_lines (ex_reply e), concat (ex_file e))) ?es outs \<and>
    io_fin io' = io_fin io \<and> users io' = users io \<and> sql io' = sql io"
    by (rule http_session)
  then obtain c' io' out1 out2 where "session demo_env ?es c io = Inr (c', io')"
      "io_sent io' = out1 @ out2" "map_option snd (read_head out1) = Some ''judge''"
      "map_option snd (read_head out2) = Some ''log''"
    using c(4) by (auto simp: list_all2_Cons1 demo_exchange_def Let_def)
  with c(1) show ?thesis by blast
qed

end
