(* ===== verification/Lifecycle.thy ===== *)
theory Lifecycle
  imports Reactor HttpSession
begin

text \<open>
  The invariant of the running server of theory \<open>Reactor\<close>: at which stage of its life each
  connection is, which tasks wait for it, where its descriptor is watched, and which
  descriptors have been closed. One lemma per kind of step shows that it is kept; the theorems
  are at the end. A loop can always run the tasks that wait for it.
\<close>

subsection \<open>The life of a connection\<close>

text \<open>
  The invariant over its parts: the table \<open>F\<close>, the tasks \<open>ts\<close>, the main loop \<open>m\<close>, the loop of
  each connection and the pollers. A connection in the table is new and has one task to
  establish it, or it is registered with the poller of its loop, or it is closed and has one
  task to remove it; there are no other such tasks, and the pollers watch nothing else.
\<close>

definition conn_ok :: "int \<Rightarrow> http_connection \<Rightarrow> bool" where
  "conn_ok ident c \<longleftrightarrow> connID c = ident \<and> 0 \<le> ident \<and> chan_fd (conn_channel c) = conn_fd c \<and>
     chan_id (conn_channel c) = ident \<and> chan_index (conn_channel c) \<in> {kNew, kAdded, kDeleted} \<and>
     (chan_index (conn_channel c) \<noteq> kNew \<longrightarrow> chan_events (conn_channel c) AND readEvent = readEvent)"

definition in_state :: "(int \<Rightarrow> http_connection option) \<Rightarrow> int \<Rightarrow> int \<Rightarrow> bool" where
  "in_state F ix ident \<longleftrightarrow> (\<exists>c. F ident = Some c \<and> chan_index (conn_channel c) = ix)"

definition tasks_ok :: "(int \<Rightarrow> http_connection option) \<Rightarrow> (nat \<times> srv_task) list \<Rightarrow> nat \<Rightarrow> (int \<Rightarrow> nat) \<Rightarrow> bool" where
  "tasks_ok F ts m home \<longleftrightarrow> (\<forall>l ident.
     count_list ts (l, Establish ident) = (if in_state F kNew ident \<and> l = home ident then 1 else 0) \<and>
     count_list ts (l, Remove ident) = (if in_state F kDeleted ident \<and> l = m then 1 else 0))"

text \<open>What a poller watches for its loop.\<close>

definition own_watch :: "channel list \<Rightarrow> int \<Rightarrow> mask option" where
  "own_watch chs = map_of (map (\<lambda>ch. (chan_fd ch, chan_events ch)) chs)"

lemma own_watch_None: "own_watch chs fd = None \<longleftrightarrow> fd \<notin> chan_fd ` set chs"
  by (auto simp: own_watch_def map_of_eq_None_iff image_image)

definition polls_ok ::
    "(int \<Rightarrow> http_connection option) \<Rightarrow> (int \<Rightarrow> nat) \<Rightarrow> (nat \<Rightarrow> epoll) \<Rightarrow> (nat \<Rightarrow> int \<Rightarrow> mask option) \<Rightarrow> bool" where
  "polls_ok F home poll own \<longleftrightarrow> (\<forall>l. epoll_ok (poll l)) \<and>
     (\<forall>ident c. F ident = Some c \<longrightarrow> chan_ok (conn_channel c) (poll (home ident)) \<and>
       watching (poll (home ident)) (conn_fd c) =
         (if chan_index (conn_channel c) = kAdded then Some (chan_events (conn_channel c)) else None)) \<and>
     (\<forall>l fd. watching (poll l) fd \<noteq> None \<longrightarrow>
       own l fd \<noteq> None \<or> (\<exists>ident c. F ident = Some c \<and> home ident = l \<and> conn_fd c = fd)) \<and>
     (\<forall>l fd. own l fd \<noteq> None \<longrightarrow> watching (poll l) fd = own l fd \<and>
       (\<forall>ident c. F ident = Some c \<longrightarrow> conn_fd c \<noteq> fd))"

definition fds_ok :: "(int \<Rightarrow> http_connection option) \<Rightarrow> bool" where
  "fds_ok F \<longleftrightarrow> (\<forall>i j c d. F i = Some c \<and> F j = Some d \<and> conn_fd c = conn_fd d \<longrightarrow> i = j)"

lemma count_list_remove1:
  "count_list (remove1 x xs) y = (if x = y then count_list xs y - 1 else count_list xs y)"
  by (induction xs) auto

lemma epoll_ok_watching:
  assumes "epoll_ok ep"
  shows "watching ep fd = None \<longleftrightarrow> smap_find (ep_channels ep) fd = None"
proof -
  obtain k where "replay (ep_ctls ep) = Some k"
      "\<forall>fd. smap_find (ep_channels ep) fd = map_option snd (k fd)"
    using assms by (rule epoll_okE)
  then show ?thesis by (simp add: watching_def)
qed

lemma in_state_update:
  "in_state (F(ident \<mapsto> c)) ix k = (if k = ident then chan_index (conn_channel c) = ix else in_state F ix k)"
  "in_state (F(ident := None)) ix k = (k \<noteq> ident \<and> in_state F ix k)"
  by (simp_all add: in_state_def)

text \<open>A connection of the table changes, together with the poller of its loop.\<close>

lemma polls_ok_update:
  assumes "polls_ok F home poll own" and "fds_ok F" and "F ident = Some c"
    and "conn_fd c' = conn_fd c" and "chan_fd (conn_channel c') = conn_fd c"
    and "epoll_ok ep" and "chan_ok (conn_channel c') ep"
    and "watching ep (conn_fd c) =
      (if chan_index (conn_channel c') = kAdded then Some (chan_events (conn_channel c')) else None)"
    and "\<forall>fd. fd \<noteq> conn_fd c \<longrightarrow> watching ep fd = watching (poll (home ident)) fd \<and>
      smap_find (ep_channels ep) fd = smap_find (ep_channels (poll (home ident))) fd"
    and "\<forall>i d. F i = Some d \<longrightarrow> chan_fd (conn_channel d) = conn_fd d"
  shows "polls_ok (F(ident \<mapsto> c')) home (poll(home ident := ep)) own"
proof -
  let ?F = "F(ident \<mapsto> c')" and ?poll = "poll(home ident := ep)"
  have other: "conn_fd d \<noteq> conn_fd c" if "F i = Some d" "i \<noteq> ident" for i d
    using assms(2,3) that by (auto simp: fds_ok_def)
  have "chan_ok (conn_channel d) (?poll (home i)) \<and> watching (?poll (home i)) (conn_fd d) =
      (if chan_index (conn_channel d) = kAdded then Some (chan_events (conn_channel d)) else None)"
    if "?F i = Some d" for i d
  proof (cases "i = ident")
    case True
    with that assms(4,5,7,8) show ?thesis by auto
  next
    case False
    then have d: "F i = Some d" using that by simp
    note fd = other [OF d False]
    have "chan_ok (conn_channel d) (poll (home i)) \<and> watching (poll (home i)) (conn_fd d) =
        (if chan_index (conn_channel d) = kAdded then Some (chan_events (conn_channel d)) else None)"
      using assms(1) d by (simp add: polls_ok_def)
    with fd assms(9,10) d show ?thesis
      by (auto simp: chan_ok_def)
  qed
  moreover have "own l fd \<noteq> None \<or> (\<exists>i d. ?F i = Some d \<and> home i = l \<and> conn_fd d = fd)"
    if "watching (?poll l) fd \<noteq> None" for l fd
  proof (cases "own l fd = None \<and> l = home ident \<and> fd = conn_fd c")
    case True
    then show ?thesis using assms(4) by auto
  next
    case other_fd: False
    show ?thesis
    proof (cases "own l fd = None")
      case True
      then have "watching (poll l) fd \<noteq> None"
        using other_fd that assms(9) by (auto split: if_splits)
      then obtain i d where i: "F i = Some d" "home i = l" "conn_fd d = fd"
        using assms(1) True unfolding polls_ok_def by blast
      with True other_fd assms(3) have "i \<noteq> ident" by auto
      with i show ?thesis by (intro disjI2 exI [of _ i] exI [of _ d]) simp
    qed simp
  qed
  moreover have "watching (?poll l) fd = own l fd \<and> (\<forall>i d. ?F i = Some d \<longrightarrow> conn_fd d \<noteq> fd)"
    if w: "own l fd \<noteq> None" for l fd
  proof -
    have "watching (poll l) fd = own l fd" "\<forall>i d. F i = Some d \<longrightarrow> conn_fd d \<noteq> fd"
      using assms(1) w unfolding polls_ok_def by blast+
    moreover from this assms(3) have "fd \<noteq> conn_fd c" by blast
    ultimately show ?thesis using assms(4,9) by auto
  qed
  ultimately show ?thesis
    using assms(1,6) unfolding polls_ok_def by (simp add: fun_upd_def)
qed

lemma fds_ok_update: "fds_ok F \<Longrightarrow> F ident = Some c \<Longrightarrow> conn_fd c' = conn_fd c \<Longrightarrow> fds_ok (F(ident \<mapsto> c'))"
  by (auto simp: fds_ok_def)

lemma fds_ok_remove: "fds_ok F \<Longrightarrow> fds_ok (F(ident := None))"
  by (auto simp: fds_ok_def)

lemma fds_ok_new:
  "fds_ok F \<Longrightarrow> \<forall>i c. F i = Some c \<longrightarrow> conn_fd c \<noteq> conn_fd d \<Longrightarrow> fds_ok (F(ident \<mapsto> d))"
  unfolding fds_ok_def by (metis fun_upd_apply option.inject)

lemma polls_ok_remove:
  assumes "polls_ok F home poll own" and "F ident = Some c" and "chan_index (conn_channel c) \<noteq> kAdded" and "fds_ok F"
  shows "polls_ok (F(ident := None)) home poll own"
proof -
  have off: "watching (poll (home ident)) (conn_fd c) = None"
    using assms(1-3) by (auto simp: polls_ok_def)
  have "own l fd \<noteq> None \<or> (\<exists>i d. (F(ident := None)) i = Some d \<and> home i = l \<and> conn_fd d = fd)"
    if w: "watching (poll l) fd \<noteq> None" for l fd
  proof (cases "own l fd = None")
    case True
    obtain i d where i: "F i = Some d" "home i = l" "conn_fd d = fd"
      using assms(1) w True unfolding polls_ok_def by blast
    with off w assms(2) have "i \<noteq> ident" by auto
    with i show ?thesis by (intro disjI2 exI [of _ i] exI [of _ d]) simp
  qed simp
  then show ?thesis using assms(1) by (auto simp: polls_ok_def)
qed

lemma polls_ok_new:
  assumes "polls_ok F home poll own" and "F ident = None" and "\<forall>i c. F i = Some c \<longrightarrow> conn_fd c \<noteq> conn_fd d"
    and "chan_index (conn_channel d) = kNew" and "chan_fd (conn_channel d) = conn_fd d"
    and "\<forall>l. own l (conn_fd d) = None"
  shows "polls_ok (F(ident \<mapsto> d)) (home(ident := l)) poll own"
proof -
  have off: "watching (poll l) (conn_fd d) = None" for l
    using assms(1,3,6) unfolding polls_ok_def by blast
  moreover have "epoll_ok (poll l)" for l
    using assms(1) by (simp add: polls_ok_def)
  ultimately have "smap_find (ep_channels (poll l)) (conn_fd d) = None" for l
    using epoll_ok_watching by blast
  then have "chan_ok (conn_channel d) (poll l)" for l
    using assms(4,5) by (simp add: chan_ok_def)
  moreover have "own k fd \<noteq> None \<or>
      (\<exists>i c. (F(ident \<mapsto> d)) i = Some c \<and> (home(ident := l)) i = k \<and> conn_fd c = fd)"
    if w: "watching (poll k) fd \<noteq> None" for k fd
  proof (cases "own k fd = None")
    case True
    obtain i c where i: "F i = Some c" "home i = k" "conn_fd c = fd"
      using assms(1) w True unfolding polls_ok_def by blast
    with assms(2) have "i \<noteq> ident" by auto
    with i show ?thesis by (intro disjI2 exI [of _ i] exI [of _ c]) simp
  qed simp
  ultimately show ?thesis
    using assms off by (auto simp: polls_ok_def)
qed


text \<open>How the tasks change with the table.\<close>

lemma tasks_ok_same:
  "tasks_ok F ts m home \<Longrightarrow> F ident = Some c \<Longrightarrow> chan_index (conn_channel c') = chan_index (conn_channel c) \<Longrightarrow>
    tasks_ok (F(ident \<mapsto> c')) ts m home"
  by (auto simp: tasks_ok_def in_state_update in_state_def)

lemma tasks_ok_establish:
  "tasks_ok F ts m home \<Longrightarrow> chan_index (conn_channel c') = kAdded \<Longrightarrow> in_state F kNew ident \<Longrightarrow>
    tasks_ok (F(ident \<mapsto> c')) (remove1 (home ident, Establish ident) ts) m home"
  by (auto simp: tasks_ok_def in_state_update in_state_def count_list_remove1)

lemma tasks_ok_close:
  "tasks_ok F ts m home \<Longrightarrow> in_state F kAdded ident \<Longrightarrow> chan_index (conn_channel c') = kDeleted \<Longrightarrow>
    tasks_ok (F(ident \<mapsto> c')) (ts @ [(m, Remove ident)]) m home"
  by (auto simp: tasks_ok_def in_state_update in_state_def)

lemma tasks_ok_remove:
  "tasks_ok F ts m home \<Longrightarrow> in_state F kDeleted ident \<Longrightarrow>
    tasks_ok (F(ident := None)) (remove1 (m, Remove ident) ts) m home"
  by (auto simp: tasks_ok_def in_state_update in_state_def count_list_remove1)

lemma tasks_ok_new:
  "tasks_ok F ts m home \<Longrightarrow> F ident = None \<Longrightarrow> chan_index (conn_channel d) = kNew \<Longrightarrow>
    tasks_ok (F(ident \<mapsto> d)) (ts @ [(l, Establish ident)]) m (home(ident := l))"
  by (auto simp: tasks_ok_def in_state_update in_state_def)

lemma tasks_ok_timer:
  "tasks_ok F (ts @ [(l, Add_Timer r)]) m home = tasks_ok F ts m home"
  "tasks_ok F (remove1 (l, Add_Timer r) ts) m home = tasks_ok F ts m home"
  by (simp_all add: tasks_ok_def count_list_remove1)

subsection \<open>The invariant of the system\<close>

definition closes_ok :: "(int \<Rightarrow> http_connection option) \<Rightarrow> int \<Rightarrow> (int \<times> int) list \<Rightarrow> (int \<times> int) list \<Rightarrow> bool" where
  "closes_ok F next_id acc cl \<longleftrightarrow> distinct (map fst acc) \<and> (\<forall>(i, fd) \<in> set acc. i < next_id) \<and>
     (\<forall>i c. F i = Some c \<longrightarrow> (i, conn_fd c) \<in> set acc) \<and>
     (\<forall>i fd. count_list cl (i, fd) = (if (i, fd) \<in> set acc \<and> F i = None then 1 else 0))"

text \<open>The main loop has the timer descriptor and the listening socket; all own channels are alike.\<close>

definition loops_ok :: "system \<Rightarrow> bool" where
  "loops_ok s \<longleftrightarrow> {lf_timer (sy_fds s), lf_listen (sy_fds s)} \<subseteq> chan_fd ` set (sy_own s (main_loop (sy_srv s))) \<and>
     (\<forall>l. \<forall>ch \<in> set (sy_own s l). has_read ch \<and> own_watch (sy_own s l) (chan_fd ch) = Some readEvent)"

definition sys_ok :: "system \<Rightarrow> bool" where
  "sys_ok s \<longleftrightarrow> smap_ok (conns (sy_srv s)) \<and> 0 \<le> nextConnId (sy_srv s) \<and>
     (\<forall>i c. sy_conn s i = Some c \<longrightarrow> conn_ok i c \<and> i < nextConnId (sy_srv s)) \<and>
     fds_ok (sy_conn s) \<and> timers_set (sy_srv s) \<and>
     tasks_ok (sy_conn s) (srv_tasks (sy_srv s)) (main_loop (sy_srv s)) (sy_home s) \<and>
     polls_ok (sy_conn s) (sy_home s) (sy_poll s) (own_watch \<circ> sy_own s) \<and>
     closes_ok (sy_conn s) (nextConnId (sy_srv s)) (sy_accepted s) (sy_closed s) \<and> loops_ok s"

lemma sys_ok_change:
  assumes "sys_ok s" and "sy_conn s ident = Some c" and "conn_ok ident c'"
    and "conn_fd c' = conn_fd c" and "conn_timer c' = conn_timer c"
    and "epoll_ok ep" and "chan_ok (conn_channel c') ep"
    and "watching ep (conn_fd c) =
      (if chan_index (conn_channel c') = kAdded then Some (chan_events (conn_channel c')) else None)"
    and "\<forall>fd. fd \<noteq> conn_fd c \<longrightarrow> watching ep fd = watching (sy_poll s (sy_home s ident)) fd \<and>
      smap_find (ep_channels ep) fd = smap_find (ep_channels (sy_poll s (sy_home s ident))) fd"
    and "tasks_ok ((sy_conn s)(ident \<mapsto> c')) (srv_tasks (sy_srv s')) (main_loop (sy_srv s)) (sy_home s)"
    and "conns (sy_srv s') = smap_assign ident c' (conns (sy_srv s))"
    and "nextConnId (sy_srv s') = nextConnId (sy_srv s)"
    and "conn_hold_seconds (sy_srv s') = conn_hold_seconds (sy_srv s)"
    and "main_loop (sy_srv s') = main_loop (sy_srv s)" and "sy_home s' = sy_home s"
    and "sy_poll s' = (sy_poll s)(sy_home s ident := ep)"
    and "sy_accepted s' = sy_accepted s" and "sy_closed s' = sy_closed s"
    and "sy_own s' = sy_own s" and "sy_fds s' = sy_fds s"
  shows "sys_ok s'"
proof -
  note ok = assms(1) [unfolded sys_ok_def]
  have F: "sy_conn s' = (sy_conn s)(ident \<mapsto> c')"
    by (simp add: assms(11) map_of_smap_assign)
  have "polls_ok (sy_conn s') (sy_home s') (sy_poll s') (own_watch \<circ> sy_own s')"
    unfolding F assms(15,16,19)
    by (rule polls_ok_update [where F = "sy_conn s" and home = "sy_home s" and own = "own_watch \<circ> sy_own s" and
        poll = "sy_poll s" and ident = ident, OF _ _ assms(2,4) _ assms(6-9)])
      (use ok assms(3,4) in \<open>auto simp: conn_ok_def\<close>)
  moreover have "fds_ok (sy_conn s')"
    unfolding F using ok assms(2,4) by (intro fds_ok_update) simp_all
  moreover have "timers_set (sy_srv s')"
    using ok assms(2,5,13) unfolding timers_set_def F by auto
  moreover have "closes_ok (sy_conn s') (nextConnId (sy_srv s')) (sy_accepted s') (sy_closed s')"
    using ok assms(2,4) unfolding F assms(12,17,18) closes_ok_def by auto
  moreover have "loops_ok s'" using ok by (simp add: loops_ok_def assms(14,19,20))
  ultimately show ?thesis
    using ok assms(2,3,10,11,12,14,15) F smap_ok_assign [of "conns (sy_srv s)"]
    by (auto simp: sys_ok_def)
qed


subsection \<open>Every step keeps it\<close>

lemma handler_io_simps [simp]:
  "io_poll (handler_io as ident s) = sy_poll s (sy_home s ident)"
  "io_removals (handler_io as ident s) = []"
  by (simp_all add: handler_io_def)

lemma put_back_simps [simp]:
  "sy_home (put_back ident c io s) = sy_home s"
  "sy_poll (put_back ident c io s) = (sy_poll s)(sy_home s ident := io_poll io)"
  "sy_accepted (put_back ident c io s) = sy_accepted s"
  "sy_closed (put_back ident c io s) = sy_closed s"
  "sy_own (put_back ident c io s) = sy_own s"
  "sy_fds (put_back ident c io s) = sy_fds s"
  by (simp_all add: put_back_def)

lemma put_back_srv:
  "io_removals io = [] \<Longrightarrow> sy_srv (put_back ident c io s) =
    (sy_srv s)\<lparr>conns := smap_assign ident c (conns (sy_srv s))\<rparr>"
  "io_removals io = [k] \<Longrightarrow> sy_srv (put_back ident c io s) =
    removeConnection k ((sy_srv s)\<lparr>conns := smap_assign ident c (conns (sy_srv s))\<rparr>)"
  by (simp_all add: put_back_def)

lemma main_loop_simps [simp]:
  "main_loop (srv\<lparr>conns := m\<rparr>) = main_loop srv"
  "main_loop (srv\<lparr>srv_tasks := ts\<rparr>) = main_loop srv"
  "main_loop (srv\<lparr>timerq := tq\<rparr>) = main_loop srv"
  "main_loop (srv\<lparr>timer_heap := h\<rparr>) = main_loop srv"
  by (simp_all add: main_loop_def)

text \<open>The connection of an event is registered.\<close>

lemma conn_event_registered:
  assumes "sys_ok s" and "conn_event s ident revents d"
  obtains c where "sy_conn s ident = Some c" and "conn_ok ident c"
    and "chan_index (conn_channel c) = kAdded" and "registered c (handler_io as ident s)"
proof -
  obtain c where c: "sy_conn s ident = Some c"
      "watching (sy_poll s (sy_home s ident)) (conn_fd c) \<noteq> None"
    using assms(2) by (auto simp: conn_event_def reported_def split: option.splits)
  have ok: "conn_ok ident c" and polls: "polls_ok (sy_conn s) (sy_home s) (sy_poll s) (own_watch \<circ> sy_own s)"
    using assms(1) c(1) by (auto simp: sys_ok_def)
  then have ix: "chan_index (conn_channel c) = kAdded"
    using c by (auto simp: polls_ok_def split: if_splits)
  then have "registered c (handler_io as ident s)"
    using polls c(1) ok by (simp add: polls_ok_def registered_def conn_ok_def)
  with c(1) ok ix show thesis by (rule that)
qed

text \<open>A handler that keeps its frame.\<close>

lemma sys_ok_keeps:
  assumes "sys_ok s" and "sy_conn s ident = Some c" and "chan_index (conn_channel c) = kAdded"
    and "registered c (handler_io as ident s)" and "keeps c (handler_io as ident s) c' io'"
  shows "sys_ok (put_back ident c' io' s)"
proof -
  note k = assms(5) [unfolded keeps_def]
  have reg: "registered c' io'" using k assms(4) by blast
  then have ix: "chan_index (conn_channel c') = kAdded" by (rule registered_added)
  have ok: "conn_ok ident c" using assms(1,2) by (auto simp: sys_ok_def)
  have srv: "sy_srv (put_back ident c' io' s) = (sy_srv s)\<lparr>conns := smap_assign ident c' (conns (sy_srv s))\<rparr>"
    using k by (simp add: put_back_srv)
  have "tasks_ok ((sy_conn s)(ident \<mapsto> c')) (srv_tasks (sy_srv s)) (main_loop (sy_srv s)) (sy_home s)"
    using assms(1-3) ix by (intro tasks_ok_same) (simp_all add: sys_ok_def)
  then show ?thesis
    using reg k ok ix assms(3,4)
    by (intro sys_ok_change [OF assms(1,2), where ep = "io_poll io'" and c' = c'])
      (simp_all add: srv conn_ok_def registered_def)
qed

text \<open>A handler that closes the connection.\<close>

lemma sys_ok_close:
  assumes "sys_ok s" and "sy_conn s ident = Some c" and "chan_index (conn_channel c) = kAdded"
    and "registered c (handler_io as ident s)" and "keeps c (handler_io as ident s) c1 (handler_io as ident s)"
    and "(c', io') = handleClose c1 (handler_io as ident s)"
  shows "sys_ok (put_back ident c' io' s)"
proof -
  note k = assms(5) [unfolded keeps_def]
  have ok: "conn_ok ident c" using assms(1,2) by (auto simp: sys_ok_def)
  have reg: "registered c1 (handler_io as ident s)" using k assms(4) by blast
  then have ix: "chan_index (conn_channel c1) = kAdded" by (rule registered_added)
  obtain ch ep where off: "disableAll (conn_channel c1) (sy_poll s (sy_home s ident)) = (ch, ep)"
    by fastforce
  then have eq: "c' = c1\<lparr>conn_channel := ch, conn_state := kdisconnected\<rparr>"
      "io_poll io' = ep" "io_removals io' = [connID c1]"
    using assms(6) by (simp_all add: handleClose_def on_channel_def)
  have del: "epoll_ok ep" "chan_ok ch ep" "ch = (conn_channel c1)\<lparr>chan_index := kDeleted\<rparr>"
      "watching ep = (watching (sy_poll s (sy_home s ident)))(conn_fd c := None)"
      "smap_find (ep_channels ep) = (smap_find (ep_channels (sy_poll s (sy_home s ident))))(conn_fd c := None)"
    using disableAll_unregisters [OF _ _ ix off] reg k ok by (auto simp: registered_def conn_ok_def)
  have id: "connID c1 = ident" using k ok by (simp add: conn_ok_def)
  have srv: "sy_srv (put_back ident c' io' s) =
      removeConnection ident ((sy_srv s)\<lparr>conns := smap_assign ident c' (conns (sy_srv s))\<rparr>)"
    using eq(3) id by (simp add: put_back_srv)
  have "tasks_ok ((sy_conn s)(ident \<mapsto> c')) (srv_tasks (sy_srv s) @ [(main_loop (sy_srv s), Remove ident)])
      (main_loop (sy_srv s)) (sy_home s)"
    using assms(1-3) eq(1) del(3)
    by (intro tasks_ok_close) (simp_all add: sys_ok_def in_state_def)
  moreover have "connID c' = ident" "conn_fd c' = conn_fd c" "conn_timer c' = conn_timer c"
      "conn_channel c' = ch" "chan_fd ch = conn_fd c" "chan_id ch = ident" "chan_index ch = kDeleted"
      "chan_events ch AND readEvent = readEvent"
    using k ok del(3) eq(1) assms(3) by (simp_all add: conn_ok_def)
  ultimately show ?thesis
    using ok del(1,2,4,5) eq(2)
    by (intro sys_ok_change [OF assms(1,2), where ep = ep and c' = c'])
      (simp_all add: srv conn_ok_def removeConnection_def queueInLoop_def)
qed

lemma sys_ok_read:
  assumes "sys_ok s" and "conn_event s ident revents Call_Read" and "sys_read env now reads writes ident s = Inr s'"
  shows "sys_ok s'"
proof -
  obtain c where c: "sy_conn s ident = Some c" "chan_index (conn_channel c) = kAdded"
      "registered c (handler_io writes ident s)"
    using conn_event_registered [OF assms(1,2)] by metis
  obtain c' io' where h: "handleRead (onMessage env) now reads c (handler_io writes ident s) = Inr (c', io')"
      "s' = put_back ident c' io' s"
    using assms(3) c(1) by (auto simp: sys_read_def on_conn_def res_simps)
  have "read_outcome c (handler_io writes ident s) c' io'"
    using h(1) by (rule handleRead_outcome) (rule keeps_onMessage)
  then show ?thesis
    unfolding h(2) read_outcome_def
    using sys_ok_keeps [OF assms(1) c] sys_ok_close [OF assms(1) c] by blast
qed

lemma sys_ok_write:
  assumes "sys_ok s" and "conn_event s ident revents Call_Write" and "sys_write_event writes ident s = Inr s'"
  shows "sys_ok s'"
proof -
  obtain c where c: "sy_conn s ident = Some c" "chan_index (conn_channel c) = kAdded"
      "registered c (handler_io writes ident s)"
    using conn_event_registered [OF assms(1,2)] by metis
  obtain c' io' where h: "handleWrite c (handler_io writes ident s) = Inr (c', io')"
      "s' = put_back ident c' io' s"
    using assms(3) c(1) by (auto simp: sys_write_event_def on_conn_def res_simps)
  show ?thesis
    unfolding h(2) using sys_ok_keeps [OF assms(1) c keeps_handleWrite [OF h(1)]] .
qed


text \<open>Registration of a connection that the poller does not know yet.\<close>

definition settled :: "http_connection \<Rightarrow> server_io \<Rightarrow> http_connection \<Rightarrow> server_io \<Rightarrow> bool" where
  "settled c io c' io' \<longleftrightarrow> registered c' io' \<and> (\<exists>ch. c' = c\<lparr>conn_channel := ch\<rparr>) \<and>
     (\<exists>ep. io' = io\<lparr>io_poll := ep\<rparr>) \<and> chan_fd (conn_channel c') = chan_fd (conn_channel c) \<and>
     chan_id (conn_channel c') = chan_id (conn_channel c) \<and>
     (\<forall>fd. fd \<noteq> chan_fd (conn_channel c) \<longrightarrow> watching (io_poll io') fd = watching (io_poll io) fd \<and>
       smap_find (ep_channels (io_poll io')) fd = smap_find (ep_channels (io_poll io)) fd)"

lemma settled_on_channel:
  assumes "epoll_ok (io_poll io)" and "chan_ok (conn_channel c) (io_poll io)"
    and "on_channel (update_mask f) c io = (c', io')"
  shows "settled c io c' io'"
proof -
  let ?c = "conn_channel c"
  obtain ch ep where up: "update_mask f ?c (io_poll io) = (ch, ep)" by fastforce
  then have eq: "c' = c\<lparr>conn_channel := ch\<rparr>" "io' = io\<lparr>io_poll := ep\<rparr>"
    using assms(3) by (auto simp: on_channel_def)
  with up assms updateChannel_registers [of "io_poll io" "?c\<lparr>chan_events := f (chan_events ?c)\<rparr>" ch ep]
  show ?thesis by (auto simp: settled_def registered_def update_mask_def)
qed

lemma settled_trans: "settled c io c1 io1 \<Longrightarrow> settled c1 io1 c2 io2 \<Longrightarrow> settled c io c2 io2"
  unfolding settled_def by fastforce

lemma settled_connectEstablished:
  assumes "epoll_ok (io_poll io)" and "chan_ok (conn_channel c) (io_poll io)"
    and "connectEstablished c io = (c', io')"
  shows "settled c io c' io'"
proof (cases "conn_mode c = 2")
  case True
  obtain c1 io1 where one: "on_channel enableET c io = (c1, io1)" by fastforce
  then have first: "settled c io c1 io1"
    using settled_on_channel [OF assms(1,2)] by (simp add: enable_as_update)
  have "on_channel enableReading c1 io1 = (c', io')"
    using assms(3) one True by (simp add: connectEstablished_def)
  moreover have "epoll_ok (io_poll io1)" "chan_ok (conn_channel c1) (io_poll io1)"
    using first by (simp_all add: settled_def registered_def)
  ultimately have "settled c1 io1 c' io'"
    using settled_on_channel [of io1 c1] by (simp add: enable_as_update)
  with first show ?thesis by (rule settled_trans)
next
  case False
  with assms(3) show ?thesis
    using settled_on_channel [OF assms(1,2)] by (simp add: connectEstablished_def enable_as_update)
qed

lemma connectEstablished_reads:
  assumes "connectEstablished c io = (c', io')"
  shows "chan_events (conn_channel c') AND readEvent = readEvent"
proof -
  obtain c1 io1 where "on_channel enableReading c1 io1 = (c', io')"
    using assms by (cases "conn_mode c = 2"; cases "on_channel enableET c io") (auto simp: connectEstablished_def)
  then have "chan_events (conn_channel c') = chan_events (conn_channel c1) OR readEvent"
    by (auto simp: on_channel_def enableReading_def dest: updateChannel_events split: prod.splits)
  then show ?thesis by (intro bit_eqI) (auto simp: bit_and_iff bit_or_iff)
qed

lemma next_task_in: "next_task l s = Some t \<Longrightarrow> (l, t) \<in> set (srv_tasks (sy_srv s))"
  by (auto simp: next_task_def find_Some_iff in_set_conv_nth)

lemma take_task_simps [simp]:
  "sy_home (take_task l t s) = sy_home s" "sy_poll (take_task l t s) = sy_poll s"
  "sy_accepted (take_task l t s) = sy_accepted s" "sy_closed (take_task l t s) = sy_closed s"
  "sy_own (take_task l t s) = sy_own s" "sy_fds (take_task l t s) = sy_fds s"
  "sy_srv (take_task l t s) = (sy_srv s)\<lparr>srv_tasks := remove1 (l, t) (srv_tasks (sy_srv s))\<rparr>"
  "handler_io as ident (take_task l t s) = handler_io as ident s"
  by (simp_all add: take_task_def handler_io_def)

lemma task_state:
  assumes "sys_ok s" and "next_task l s = Some t"
  shows "t = Establish ident \<Longrightarrow> in_state (sy_conn s) kNew ident \<and> l = sy_home s ident"
    and "t = Remove ident \<Longrightarrow> in_state (sy_conn s) kDeleted ident \<and> l = main_loop (sy_srv s)"
proof -
  have "count_list (srv_tasks (sy_srv s)) (l, t) \<noteq> 0"
    using next_task_in [OF assms(2)] by (simp add: count_list_0_iff)
  moreover have "tasks_ok (sy_conn s) (srv_tasks (sy_srv s)) (main_loop (sy_srv s)) (sy_home s)"
    using assms(1) by (simp add: sys_ok_def)
  ultimately show "t = Establish ident \<Longrightarrow> in_state (sy_conn s) kNew ident \<and> l = sy_home s ident"
    and "t = Remove ident \<Longrightarrow> in_state (sy_conn s) kDeleted ident \<and> l = main_loop (sy_srv s)"
    by (auto simp: tasks_ok_def split: if_splits)
qed

lemma sys_establish_ok:
  assumes "sys_ok s" and "next_task l s = Some (Establish ident)"
  shows "\<exists>s'. sys_establish ident (take_task l (Establish ident) s) = Inr s' \<and> sys_ok s' \<and>
    main_loop (sy_srv s') = main_loop (sy_srv s) \<and> sy_home s' = sy_home s \<and> sy_accepted s' = sy_accepted s \<and>
    srv_tasks (sy_srv s') = remove1 (l, Establish ident) (srv_tasks (sy_srv s)) \<and>
    (\<exists>c c'. sy_conn s ident = Some c \<and> chan_index (conn_channel c) = kNew \<and>
      sy_conn s' = (sy_conn s)(ident \<mapsto> c') \<and> chan_index (conn_channel c') = kAdded \<and> conn_fd c' = conn_fd c)"
proof -
  note st = task_state(1) [OF assms refl]
  then obtain c where c: "sy_conn s ident = Some c" "chan_index (conn_channel c) = kNew"
    by (auto simp: in_state_def)
  let ?io = "handler_io [] ident s"
  obtain c' io' where e: "connectEstablished c ?io = (c', io')" by fastforce
  have ok: "conn_ok ident c" and polls: "polls_ok (sy_conn s) (sy_home s) (sy_poll s) (own_watch \<circ> sy_own s)"
    using assms(1) c(1) by (auto simp: sys_ok_def)
  then have settled: "settled c ?io c' io'"
    using c(1) e by (intro settled_connectEstablished) (auto simp: polls_ok_def)
  then have reg: "registered c' io'" and keep: "connID c' = connID c" "conn_fd c' = conn_fd c"
      "conn_timer c' = conn_timer c" "chan_fd (conn_channel c') = chan_fd (conn_channel c)"
      "chan_id (conn_channel c') = chan_id (conn_channel c)" "io_removals io' = []"
    by (auto simp: settled_def)
  have ix: "chan_index (conn_channel c') = kAdded" using reg by (rule registered_added)
  let ?s = "put_back ident c' io' (take_task l (Establish ident) s)"
  have srv: "sy_srv ?s = (sy_srv s)\<lparr>srv_tasks := remove1 (l, Establish ident) (srv_tasks (sy_srv s)),
      conns := smap_assign ident c' (conns (sy_srv s))\<rparr>"
    using keep(6) by (simp add: put_back_srv)
  have "tasks_ok ((sy_conn s)(ident \<mapsto> c')) (remove1 (l, Establish ident) (srv_tasks (sy_srv s)))
      (main_loop (sy_srv s)) (sy_home s)"
    using assms(1) st ix tasks_ok_establish [of "sy_conn s"] by (simp add: sys_ok_def)
  then have "sys_ok ?s"
    using reg ok ix keep settled connectEstablished_reads [OF e]
    by (intro sys_ok_change [OF assms(1) c(1), where ep = "io_poll io'" and c' = c'])
      (simp_all add: srv conn_ok_def registered_def settled_def)
  then show ?thesis
    using e c ix keep(2) by (simp add: sys_establish_def on_conn_def srv map_of_smap_assign) blast
qed


lemma closes_ok_remove:
  assumes "closes_ok F n acc cl" and "F ident = Some c"
  shows "closes_ok (F(ident := None)) n acc (cl @ [(ident, conn_fd c)])"
proof -
  have mem: "(ident, conn_fd c) \<in> set acc" and dist: "distinct (map fst acc)"
    using assms by (auto simp: closes_ok_def)
  then have only: "fd = conn_fd c" if "(ident, fd) \<in> set acc" for fd
    using that eq_key_imp_eq_value by metis
  have "count_list (cl @ [(ident, conn_fd c)]) (i, fd) =
      (if (i, fd) \<in> set acc \<and> (F(ident := None)) i = None then 1 else 0)" for i fd
    using assms only mem by (auto simp: closes_ok_def)
  then show ?thesis using assms by (auto simp: closes_ok_def)
qed

lemma sys_remove_ok:
  assumes "sys_ok s" and "next_task l s = Some (Remove ident)"
  shows "\<exists>s' c. sy_conn s ident = Some c \<and> sys_remove ident (take_task l (Remove ident) s) = Inr s' \<and>
    sys_ok s' \<and> sy_conn s' = (sy_conn s)(ident := None) \<and>
    sy_closed s' = sy_closed s @ [(ident, conn_fd c)] \<and> chan_index (conn_channel c) = kDeleted \<and>
    sy_home s' = sy_home s \<and> sy_accepted s' = sy_accepted s \<and> main_loop (sy_srv s') = main_loop (sy_srv s) \<and>
    srv_tasks (sy_srv s') = remove1 (l, Remove ident) (srv_tasks (sy_srv s))"
proof -
  note st = task_state(2) [OF assms refl]
  then obtain c where c: "sy_conn s ident = Some c" "chan_index (conn_channel c) = kDeleted"
    by (auto simp: in_state_def)
  have ok: "conn_ok ident c" and ts: "timers_set (sy_srv s)"
    using assms(1) c(1) by (auto simp: sys_ok_def)
  have timer: "conn_hold_seconds (sy_srv s) > 0 \<Longrightarrow> \<exists>r. conn_timer c = Some r"
    using ts c(1) by (auto simp: timers_set_def)
  let ?t = "take_task l (Remove ident) s"
  obtain srv where srv: "removeConnectionInLoop c (sy_srv ?t) = Inr (stopTimer c, srv)"
      "conns srv = smap_erase ident (conns (sy_srv s))" "nextConnId srv = nextConnId (sy_srv s)"
      "conn_hold_seconds srv = conn_hold_seconds (sy_srv s)" "main_loop srv = main_loop (sy_srv s)"
      "srv_tasks srv = remove1 (l, Remove ident) (srv_tasks (sy_srv s))"
    using timer ok
    by (cases "conn_hold_seconds (sy_srv s) > 0")
      (auto simp: removeConnectionInLoop_def conn_ok_def main_loop_def)
  let ?s = "?t\<lparr>sy_srv := srv, sy_closed := sy_closed s @ [(ident, conn_fd c)]\<rparr>"
  have run: "sys_remove ident ?t = Inr ?s"
    using c(1) srv(1) by (simp add: sys_remove_def conn_destroy_def stopTimer_def handler_io_def)
  have F: "sy_conn ?s = (sy_conn s)(ident := None)"
    by (simp add: srv(2) map_of_smap_erase)
  have "tasks_ok (sy_conn ?s) (srv_tasks (sy_srv ?s)) (main_loop (sy_srv ?s)) (sy_home ?s)"
    unfolding F using assms(1) st tasks_ok_remove [of "sy_conn s"] by (simp add: sys_ok_def srv(5,6))
  moreover have "polls_ok (sy_conn ?s) (sy_home ?s) (sy_poll ?s) (own_watch \<circ> sy_own ?s)"
    unfolding F using assms(1) c polls_ok_remove [of "sy_conn s"] by (simp add: sys_ok_def)
  moreover have "closes_ok (sy_conn ?s) (nextConnId (sy_srv ?s)) (sy_accepted ?s) (sy_closed ?s)"
    unfolding F using assms(1) c(1) closes_ok_remove by (simp add: sys_ok_def srv(3))
  moreover have "fds_ok (sy_conn ?s)"
    unfolding F using assms(1) by (intro fds_ok_remove) (simp add: sys_ok_def)
  moreover have "timers_set srv"
    using ts srv(2,4) by (auto simp: timers_set_def map_of_smap_erase)
  ultimately have "sys_ok ?s"
    using assms(1) srv(2,3,5) F by (auto simp: sys_ok_def loops_ok_def smap_ok_erase split: if_splits)
  with run F c srv(5,6) show ?thesis by auto
qed

lemma sys_ok_timer_task:
  assumes "sys_ok s"
  shows "sys_ok (s\<lparr>sy_srv := run_add_timer r (sy_srv (take_task l (Add_Timer r) s))\<rparr>)"
  using assms by (simp add: sys_ok_def run_add_timer_def timers_set_def tasks_ok_timer main_loop_def loops_ok_def)

text \<open>
  Any task a loop takes can be run. It registers one new connection, removes one closed
  connection, or leaves the table alone.
\<close>

definition moves_on :: "(int \<Rightarrow> http_connection option) \<Rightarrow> (int \<Rightarrow> http_connection option) \<Rightarrow> bool" where
  "moves_on F F' \<longleftrightarrow> (\<forall>i c. F i = Some c \<longrightarrow>
     (if chan_index (conn_channel c) = kDeleted then F' i = Some c \<or> F' i = None
      else \<exists>c'. F' i = Some c' \<and> conn_fd c' = conn_fd c \<and> chan_index (conn_channel c') \<noteq> kDeleted)) \<and>
     (\<forall>i. F i = None \<longrightarrow> F' i = None)"

lemma moves_on_refl [simp]: "moves_on F F"
  by (simp add: moves_on_def)

lemma moves_on_trans: "moves_on F G \<Longrightarrow> moves_on G H \<Longrightarrow> moves_on F H"
  unfolding moves_on_def by (smt (verit) option.inject)

lemma sys_task_ok:
  assumes "sys_ok s" and "next_task l s = Some t"
  shows "\<exists>s'. sys_task t (take_task l t s) = Inr s' \<and> sys_ok s' \<and> moves_on (sy_conn s) (sy_conn s') \<and>
    main_loop (sy_srv s') = main_loop (sy_srv s) \<and> sy_home s' = sy_home s \<and> sy_accepted s' = sy_accepted s \<and>
    srv_tasks (sy_srv s') = remove1 (l, t) (srv_tasks (sy_srv s))"
proof (cases t)
  case (Establish ident)
  then show ?thesis
    using sys_establish_ok [of s l ident] assms by (fastforce simp: moves_on_def)
next
  case (Remove ident)
  then show ?thesis
    using sys_remove_ok [of s l ident] assms by (fastforce simp: moves_on_def)
next
  case (Add_Timer r)
  have "sys_task t (take_task l t s) = Inr (take_task l t s\<lparr>sy_srv := run_add_timer r (sy_srv (take_task l t s))\<rparr>)"
    by (simp add: Add_Timer)
  moreover have "sys_ok (take_task l t s\<lparr>sy_srv := run_add_timer r (sy_srv (take_task l t s))\<rparr>)"
    using sys_ok_timer_task [OF assms(1), of r l] by (simp add: Add_Timer sys_ok_def loops_ok_def)
  ultimately show ?thesis
    by (simp add: run_add_timer_def main_loop_def)
qed

text \<open>A timer runs: the connection may be shut down, or its timer is queued again.\<close>

lemma queue_timers:
  "fold (\<lambda>r. queueInLoop m (Add_Timer r)) rs srv =
    srv\<lparr>srv_tasks := srv_tasks srv @ map (\<lambda>r. (m, Add_Timer r)) rs\<rparr>"
  by (induction rs arbitrary: srv) (simp_all add: queueInLoop_def)

lemma sys_ok_queue_timers:
  "sys_ok (s\<lparr>sy_srv := (sy_srv s)\<lparr>srv_tasks := srv_tasks (sy_srv s) @ map (\<lambda>r. (m, Add_Timer r)) rs\<rparr>\<rparr>) = sys_ok s"
proof (induction rs rule: rev_induct)
  case (snoc r rs)
  then show ?case
    using tasks_ok_timer(1) [of _ "srv_tasks (sy_srv s) @ map (\<lambda>r. (m, Add_Timer r)) rs"]
    by (simp add: sys_ok_def timers_set_def loops_ok_def)
qed (simp add: sys_ok_def timers_set_def loops_ok_def)

lemma handleTimer_cases:
  assumes "handleTimer now c io heap = (c', io', heap', added)"
  shows "(c' = c \<or> c' = c\<lparr>conn_state := kshutdown\<rparr>) \<and> io_poll io' = io_poll io \<and> io_removals io' = io_removals io"
  using assms by (auto simp: handleTimer_def shutdownWrite_def Let_def split: option.splits if_splits)

lemma sys_ok_run_timer:
  assumes "sys_ok s"
  shows "sys_ok (run_timer now r s)"
proof (cases "timer_run (\<lambda>ident. sy_conn s ident \<noteq> None) (timer_heap (sy_srv s) r)")
  case None
  then show ?thesis using assms by (simp add: run_timer_def)
next
  case (Some ident)
  show ?thesis
  proof (cases "sy_conn s ident")
    case None
    with Some assms show ?thesis by (simp add: run_timer_def)
  next
    case c: (Some c)
    obtain c' io' heap added where h: "handleTimer now c (handler_io [] ident s) (timer_heap (sy_srv s)) =
        (c', io', heap, added)" by (metis prod_cases4)
    have same: "connID c' = connID c" "conn_fd c' = conn_fd c" "conn_timer c' = conn_timer c"
        "conn_channel c' = conn_channel c" "io_poll io' = sy_poll s (sy_home s ident)" "io_removals io' = []"
      using handleTimer_cases [OF h] by auto
    let ?s1 = "put_back ident c' io' s"
    let ?s = "?s1\<lparr>sy_srv := (sy_srv ?s1)\<lparr>timer_heap := heap\<rparr>\<rparr>"
    have run: "run_timer now r s = ?s\<lparr>sy_srv := (sy_srv ?s)\<lparr>srv_tasks :=
        srv_tasks (sy_srv ?s) @ map (\<lambda>r. (main_loop (sy_srv s), Add_Timer r)) added\<rparr>\<rparr>"
      using Some c h by (simp add: run_timer_def Let_def queue_timers)
    have ok: "conn_ok ident c" and polls: "polls_ok (sy_conn s) (sy_home s) (sy_poll s) (own_watch \<circ> sy_own s)"
      and tasks: "tasks_ok (sy_conn s) (srv_tasks (sy_srv s)) (main_loop (sy_srv s)) (sy_home s)"
      using assms c by (auto simp: sys_ok_def)
    have "tasks_ok ((sy_conn s)(ident \<mapsto> c')) (srv_tasks (sy_srv s)) (main_loop (sy_srv s)) (sy_home s)"
      using tasks c same by (intro tasks_ok_same) simp_all
    then have "sys_ok ?s"
      using ok polls c same
      by (intro sys_ok_change [OF assms c, where ep = "io_poll io'" and c' = c'])
        (auto simp: put_back_srv conn_ok_def polls_ok_def)
    then show ?thesis unfolding run sys_ok_queue_timers .
  qed
qed

lemma expire_loop_inv:
  "(\<And>r s. P s \<Longrightarrow> P (run r s)) \<Longrightarrow> P s \<Longrightarrow> P (snd (expire_loop run now ts s))"
  by (induction run now ts s rule: expire_loop.induct) auto

lemma sys_ok_tick:
  assumes "sys_ok s" and "sys_tick now now2 s = Inr s'"
  shows "sys_ok s'"
proof -
  obtain ts s1 where loop: "expire_loop (run_timer now2) now (timers (timerq (sy_srv s))) s = (ts, s1)"
    by fastforce
  then obtain tq where s': "s' = s1\<lparr>sy_srv := (sy_srv s1)\<lparr>timerq := tq\<rparr>\<rparr>"
    using assms(2) by (auto simp: sys_tick_def tq_handleRead_def res_simps)
  have "sys_ok s1"
    using expire_loop_inv [of sys_ok "run_timer now2" s] sys_ok_run_timer assms(1) loop
    by (metis snd_conv)
  then show ?thesis by (simp add: s' sys_ok_def timers_set_def loops_ok_def)
qed


text \<open>A connection is accepted.\<close>

lemma accepted_fields:
  assumes "accepted onConnection ctx now fd srv = Inr srv'"
  shows "\<exists>l d r. fst (getNextLoop (srv_pool srv)) = Some l \<and>
    conns srv' = smap_assign (nextConnId srv) d (conns srv) \<and> nextConnId srv' = nextConnId srv + 1 \<and>
    conn_hold_seconds srv' = conn_hold_seconds srv \<and> main_loop srv' = main_loop srv \<and>
    srv_tasks srv' = srv_tasks srv @ [(l, Establish (nextConnId srv))] @ map (Pair (main_loop srv)) r \<and>
    r \<in> range (map Add_Timer) \<and> connID d = nextConnId srv \<and> conn_fd d = fd \<and>
    chan_fd (conn_channel d) = fd \<and> chan_id (conn_channel d) = nextConnId srv \<and>
    chan_index (conn_channel d) = kNew \<and> (conn_hold_seconds srv > 0 \<longrightarrow> conn_timer d \<noteq> None)"
proof -
  obtain l p where nxt: "getNextLoop (srv_pool srv) = (Some l, p)"
    using assms by (auto simp: accepted_def Let_def split: prod.splits option.splits)
  have base: "base_loop p = base_loop (srv_pool srv)"
    using nxt by (auto simp: getNextLoop_def Let_def split: if_splits)
  let ?rs = "if conn_hold_seconds srv \<ge> 0 then [next_timer srv] else []"
  let ?d = "onConnection (new_connection (nextConnId srv) fd (srv_mode srv) (ipPortToString zero_addr)
    (nextConnId srv) (if conn_hold_seconds srv \<ge> 0 then Some (next_timer srv) else None) ctx)"
  have "conns srv' = smap_assign (nextConnId srv) ?d (conns srv) \<and> nextConnId srv' = nextConnId srv + 1 \<and>
      conn_hold_seconds srv' = conn_hold_seconds srv \<and> main_loop srv' = main_loop srv \<and>
      srv_tasks srv' = srv_tasks srv @ [(l, Establish (nextConnId srv))] @
        map (Pair (main_loop srv)) (map Add_Timer ?rs)"
    using assms base unfolding accepted_def nxt prod.case option.case Let_def
    by (cases "conn_hold_seconds srv \<ge> 0") (auto simp: queueInLoop_def main_loop_def)
  then show ?thesis
    using nxt by (intro exI [of _ l] exI [of _ ?d] exI [of _ "map Add_Timer ?rs"])
      (auto simp: onConnection_def new_connection_def new_channel_def)
qed

lemma tasks_ok_timers: "r \<in> range (map Add_Timer) \<Longrightarrow>
  tasks_ok F (ts @ map (Pair m) r) k home = tasks_ok F ts k home"
proof -
  have "tasks_ok F (ts @ map (Pair m) (map Add_Timer rs)) k home = tasks_ok F ts k home" for rs
  proof (induction rs rule: rev_induct)
    case (snoc x xs)
    then show ?case
      using tasks_ok_timer(1) [of F "ts @ map (Pair m) (map Add_Timer xs)" m x] by simp
  qed simp
  then show "r \<in> range (map Add_Timer) \<Longrightarrow> ?thesis" by auto
qed

lemma closes_ok_new:
  assumes "closes_ok F n acc cl" and "conn_fd d = fd" and "F n = None"
  shows "closes_ok (F(n \<mapsto> d)) (n + 1) (acc @ [(n, fd)]) cl"
proof -
  have "(n, x) \<notin> set acc" for x using assms(1) by (auto simp: closes_ok_def)
  then have "n \<notin> fst ` set acc" by auto
  with assms show ?thesis by (fastforce simp: closes_ok_def)
qed

lemma sys_ok_accept:
  assumes "sys_ok s" and "fd \<notin> open_fds s" and "sys_accept now fd second reopened s = Inr s'"
  shows "sys_ok s'"
proof (cases "fd \<ge> 0")
  case False
  then show ?thesis
    using assms by (auto simp: sys_accept_def newConnection_def sys_ok_def timers_set_def main_loop_def loops_ok_def)
next
  case True
  let ?id = "nextConnId (sy_srv s)"
  obtain srv where acc: "accepted onConnection None now fd (sy_srv s) = Inr srv"
      "s' = s\<lparr>sy_srv := srv, sy_home := (sy_home s)(?id := the (fst (getNextLoop (srv_pool (sy_srv s))))),
        sy_sent := (sy_sent s)(?id := []), sy_fin := (sy_fin s)(?id := False),
        sy_accepted := sy_accepted s @ [(?id, fd)]\<rparr>"
    using assms(3) True by (auto simp: sys_accept_def newConnection_def res_simps Let_def)
  obtain l d r where d: "fst (getNextLoop (srv_pool (sy_srv s))) = Some l"
      "conns srv = smap_assign ?id d (conns (sy_srv s))" "nextConnId srv = ?id + 1"
      "conn_hold_seconds srv = conn_hold_seconds (sy_srv s)" "main_loop srv = main_loop (sy_srv s)"
      "srv_tasks srv = srv_tasks (sy_srv s) @ [(l, Establish ?id)] @ map (Pair (main_loop (sy_srv s))) r"
      "r \<in> range (map Add_Timer)" "connID d = ?id" "conn_fd d = fd" "chan_fd (conn_channel d) = fd"
      "chan_id (conn_channel d) = ?id" "chan_index (conn_channel d) = kNew"
      "conn_hold_seconds (sy_srv s) > 0 \<longrightarrow> conn_timer d \<noteq> None"
    using accepted_fields [OF acc(1)] by blast
  note ok = assms(1) [unfolded sys_ok_def]
  have none: "sy_conn s ?id = None" using ok by (cases "sy_conn s ?id") auto
  have fresh: "\<forall>i c. sy_conn s i = Some c \<longrightarrow> conn_fd c \<noteq> conn_fd d"
    using assms(2) d(9) by (force simp: open_fds_def dest: map_of_SomeD)
  have own: "\<forall>l. (own_watch \<circ> sy_own s) l (conn_fd d) = None"
    using assms(2) d(9) by (force simp: open_fds_def own_watch_def map_of_eq_None_iff)
  have F: "sy_conn s' = (sy_conn s)(?id \<mapsto> d)"
    by (simp add: acc(2) d(2) map_of_smap_assign)
  have home: "sy_home s' = (sy_home s)(?id := l)" by (simp add: acc(2) d(1))
  have "tasks_ok (sy_conn s') (srv_tasks (sy_srv s')) (main_loop (sy_srv s')) (sy_home s')"
    unfolding F home using ok none d(12) tasks_ok_new [of "sy_conn s"]
    by (simp add: acc(2) d(5,6) tasks_ok_timers [OF d(7), of _ "srv_tasks (sy_srv s) @ [(l, Establish ?id)]",
      simplified])
  moreover have "polls_ok (sy_conn s') (sy_home s') (sy_poll s') (own_watch \<circ> sy_own s')"
    unfolding F home using ok none fresh own d(9,10,12) polls_ok_new [of "sy_conn s"] by (simp add: acc(2))
  moreover have "fds_ok (sy_conn s')"
    unfolding F using ok fresh by (intro fds_ok_new) simp_all
  moreover have "timers_set (sy_srv s')"
    using ok d(4,13) F unfolding timers_set_def by (auto simp: acc(2))
  moreover have "closes_ok (sy_conn s') (nextConnId (sy_srv s')) (sy_accepted s') (sy_closed s')"
    unfolding F using ok none d(9) closes_ok_new by (simp add: acc(2) d(3))
  moreover have "\<forall>i c. sy_conn s' i = Some c \<longrightarrow> conn_ok i c \<and> i < ?id + 1"
    unfolding F using ok d(8-12) by (auto simp: conn_ok_def intro: less_imp_le)
  ultimately show ?thesis
    using ok smap_ok_assign [of "conns (sy_srv s)"] by (auto simp: sys_ok_def loops_ok_def acc(2) d(2,3,5))
qed

lemma sys_ok_step: "sys_step env s s' \<Longrightarrow> sys_ok s \<Longrightarrow> sys_ok s'"
proof (induction rule: sys_step.induct)
  case (task l s t s')
  with sys_task_ok [of s l t] show ?case by auto
qed (auto intro: sys_ok_accept sys_ok_read sys_ok_write sys_ok_tick)

interpretation sys_runs: step_invariant "sys_step env" sys_ok for env
  by unfold_locales (rule sys_ok_step)

text \<open>The pollers after the start.\<close>

lemma own_registers:
  assumes "epoll_ok ep" and "watching ep fd = None" and "enableReading (own_channel fd) ep = (ch, ep')"
  shows "epoll_ok ep' \<and> ch = (own_channel fd)\<lparr>chan_events := readEvent, chan_index := kAdded\<rparr> \<and>
    watching ep' = (watching ep)(fd \<mapsto> readEvent)"
proof -
  have "chan_ok ((own_channel fd)\<lparr>chan_events := readEvent\<rparr>) ep"
    using assms(1,2) epoll_ok_watching by (simp add: chan_ok_def own_channel_def new_channel_def)
  from updateChannel_registers [OF assms(1) this, of ch ep'] assms(3) show ?thesis
    by (simp add: enableReading_def own_channel_def new_channel_def)
qed

definition own_fds_ok :: "loop_fds \<Rightarrow> thread_pool \<Rightarrow> bool" where
  "own_fds_ok lfs p \<longleftrightarrow> distinct [lf_wakeup lfs (base_loop p), lf_timer lfs, lf_listen lfs]"

lemma loop_poll_ok:
  assumes "own_fds_ok lfs p" and "loop_poll lfs p l = (chs, ep)"
  shows "epoll_ok ep \<and> watching ep = own_watch chs \<and>
    (\<forall>ch \<in> set chs. has_read ch \<and> own_watch chs (chan_fd ch) = Some readEvent) \<and>
    (l = base_loop p \<longrightarrow> {lf_timer lfs, lf_listen lfs} \<subseteq> chan_fd ` set chs)"
proof -
  have none: "watching new_epoll = Map.empty" by (simp add: fun_eq_iff watching_def new_epoll_def)
  obtain w ep1 where w: "enableReading (own_channel (lf_wakeup lfs l)) new_epoll = (w, ep1)" by fastforce
  obtain t ep2 where t: "enableReading (own_channel (lf_timer lfs)) ep1 = (t, ep2)" by fastforce
  obtain a ep3 where a: "enableReading (own_channel (lf_listen lfs)) ep2 = (a, ep3)" by fastforce
  have one: "epoll_ok ep1" "w = (own_channel (lf_wakeup lfs l))\<lparr>chan_events := readEvent, chan_index := kAdded\<rparr>"
      "watching ep1 = [lf_wakeup lfs l \<mapsto> readEvent]"
    using own_registers [OF _ _ w] by (simp_all add: none)
  show ?thesis
  proof (cases "l = base_loop p")
    case True
    with assms(1) have fds: "lf_timer lfs \<noteq> lf_wakeup lfs l" "lf_listen lfs \<noteq> lf_wakeup lfs l"
        "lf_listen lfs \<noteq> lf_timer lfs"
      by (auto simp: own_fds_ok_def)
    have two: "epoll_ok ep2" "t = (own_channel (lf_timer lfs))\<lparr>chan_events := readEvent, chan_index := kAdded\<rparr>"
        "watching ep2 = [lf_wakeup lfs l \<mapsto> readEvent, lf_timer lfs \<mapsto> readEvent]"
      using own_registers [OF one(1) _ t] fds by (simp_all add: one(3))
    have three: "epoll_ok ep3" "a = (own_channel (lf_listen lfs))\<lparr>chan_events := readEvent, chan_index := kAdded\<rparr>"
        "watching ep3 = [lf_wakeup lfs l \<mapsto> readEvent, lf_timer lfs \<mapsto> readEvent, lf_listen lfs \<mapsto> readEvent]"
      using own_registers [OF two(1) _ a] fds by (simp_all add: two(3))
    have "chs = [w, t, a] \<and> ep = ep3"
      using assms(2) True w t a
      by (simp add: loop_poll_def main_loop_poll_def wakeup_channel_def timer_channel_def listen_channel_def)
    with one(2) two(2) three fds show ?thesis
      by (auto simp: own_watch_def own_channel_def new_channel_def fun_eq_iff)
  next
    case False
    show ?thesis
    proof (cases "Some l \<in> set (loops p)")
      case True
      with False assms(2) w have "chs = [w] \<and> ep = ep1"
        by (simp add: loop_poll_def pool_loop_poll_def wakeup_channel_def)
      with False one show ?thesis by (auto simp: own_watch_def own_channel_def new_channel_def)
    next
      case none_here: False
      with False assms(2) have "chs = [] \<and> ep = new_epoll" by (simp add: loop_poll_def)
      with False none show ?thesis by (simp add: own_watch_def)
    qed
  qed
qed

lemma sys_ok_new:
  assumes "new_server fds True True p tq mode hold spare = Inr srv" and "own_fds_ok lfs p"
  shows "sys_ok (new_system lfs srv us pl)"
proof -
  let ?s = "new_system lfs srv us pl"
  have p: "srv_pool srv = p" using assms(1) by (auto simp: new_server_def)
  have poll: "epoll_ok (sy_poll ?s l) \<and> watching (sy_poll ?s l) = own_watch (sy_own ?s l) \<and>
      (\<forall>ch \<in> set (sy_own ?s l). has_read ch \<and> own_watch (sy_own ?s l) (chan_fd ch) = Some readEvent) \<and>
      (l = base_loop p \<longrightarrow> {lf_timer lfs, lf_listen lfs} \<subseteq> chan_fd ` set (sy_own ?s l))" for l
    using loop_poll_ok [OF assms(2) surjective_pairing, of l] by (simp add: new_system_def p)
  then have "loops_ok ?s"
    by (simp add: loops_ok_def new_system_def main_loop_def p)
  moreover have "polls_ok (sy_conn ?s) (sy_home ?s) (sy_poll ?s) (own_watch \<circ> sy_own ?s)"
    using assms(1) poll by (auto simp: polls_ok_def new_server_def new_system_def)
  ultimately show ?thesis
    using assms(1) by (auto simp: new_server_def new_system_def sys_ok_def fds_ok_def timers_set_def tasks_ok_def
      in_state_def closes_ok_def)
qed


subsection \<open>A loop runs its tasks\<close>

text \<open>
  One round of \<open>EventLoop::loop\<close> runs the tasks that were queued when it swapped them out:
  the \<open>n\<close> oldest tasks of the loop.
\<close>

fun run_batch :: "nat \<Rightarrow> nat \<Rightarrow> system \<Rightarrow> system result" where
  "run_batch 0 l s = Inr s"
| "run_batch (Suc n) l s =
     (case next_task l s of
        None \<Rightarrow> Inr s
      | Some t \<Rightarrow> res_bind (sys_task t (take_task l t s)) (run_batch n l))"

definition tasks_of :: "nat \<Rightarrow> system \<Rightarrow> srv_task list" where
  "tasks_of l s = map snd (filter (\<lambda>(k, _). k = l) (srv_tasks (sy_srv s)))"

lemma find_filter: "find P xs = (case filter P xs of [] \<Rightarrow> None | x # _ \<Rightarrow> Some x)"
  by (induction xs) auto

lemma next_task_hd: "next_task l s = (case tasks_of l s of [] \<Rightarrow> None | t # _ \<Rightarrow> Some t)"
  by (simp add: next_task_def tasks_of_def find_filter split: list.split)

lemma filter_remove1_first:
  "filter P xs = x # ys \<Longrightarrow> filter P (remove1 x xs) = ys"
proof (induction xs)
  case (Cons a xs)
  then have "P x" by (metis filter_eq_ConsD)
  with Cons show ?case by (auto split: if_splits)
qed simp

lemma tasks_of_taken:
  assumes "tasks_of l s = t # ts" and "srv_tasks (sy_srv s') = remove1 (l, t) (srv_tasks (sy_srv s))"
  shows "tasks_of l s' = ts"
proof -
  obtain x xs where x: "filter (\<lambda>(k, _). k = l) (srv_tasks (sy_srv s)) = x # xs" "snd x = t" "map snd xs = ts"
    using assms(1) by (auto simp: tasks_of_def)
  then have "x \<in> set (filter (\<lambda>(k, _). k = l) (srv_tasks (sy_srv s)))" by simp
  then have "x = (l, t)" using x(2) by auto
  with filter_remove1_first [OF x(1)] x(3) show ?thesis
    by (simp add: tasks_of_def assms(2))
qed

lemma run_batch_ok:
  assumes "sys_ok s"
  shows "\<exists>s'. run_batch (length (tasks_of l s)) l s = Inr s' \<and> (sys_step env)\<^sup>*\<^sup>* s s' \<and> sys_ok s' \<and>
    moves_on (sy_conn s) (sy_conn s') \<and> main_loop (sy_srv s') = main_loop (sy_srv s) \<and>
    sy_home s' = sy_home s \<and> sy_accepted s' = sy_accepted s \<and> tasks_of l s' = []"
  using assms
proof (induction "tasks_of l s" arbitrary: s)
  case Nil
  then show ?case by (metis length_0_conv moves_on_refl rtranclp.rtrancl_refl run_batch.simps(1))
next
  case (Cons t ts)
  have nxt: "next_task l s = Some t"
    using Cons.hyps(2) by (simp add: next_task_hd flip: Cons.hyps(2))
  obtain s1 where s1: "sys_task t (take_task l t s) = Inr s1" "sys_ok s1" "moves_on (sy_conn s) (sy_conn s1)"
      "main_loop (sy_srv s1) = main_loop (sy_srv s)" "sy_home s1 = sy_home s" "sy_accepted s1 = sy_accepted s"
      "srv_tasks (sy_srv s1) = remove1 (l, t) (srv_tasks (sy_srv s))"
    using sys_task_ok [OF Cons.prems nxt] by blast
  have ts: "ts = tasks_of l s1"
    using tasks_of_taken [OF Cons.hyps(2) [symmetric] s1(7)] by simp
  obtain s' where s': "run_batch (length (tasks_of l s1)) l s1 = Inr s'" "(sys_step env)\<^sup>*\<^sup>* s1 s'" "sys_ok s'"
      "moves_on (sy_conn s1) (sy_conn s')" "main_loop (sy_srv s') = main_loop (sy_srv s1)"
      "sy_home s' = sy_home s1" "sy_accepted s' = sy_accepted s1" "tasks_of l s' = []"
    using Cons.hyps(1) [OF ts s1(2)] by blast
  have "sys_step env s s1" using nxt s1(1) by (rule sys_step.task)
  with s'(2) have "(sys_step env)\<^sup>*\<^sup>* s s'" by (meson converse_rtranclp_into_rtranclp)
  moreover have "run_batch (length (tasks_of l s)) l s = Inr s'"
    using nxt s1(1) s'(1) by (simp add: ts flip: Cons.hyps(2))
  ultimately show ?case
    using s' s1 moves_on_trans [OF s1(3) s'(4)] by auto
qed

lemma no_tasks_left:
  assumes "sys_ok s" and "tasks_of l s = []" and "sy_conn s ident = Some c"
  shows "l = sy_home s ident \<Longrightarrow> chan_index (conn_channel c) \<noteq> kNew"
    and "l = main_loop (sy_srv s) \<Longrightarrow> chan_index (conn_channel c) \<noteq> kDeleted"
proof -
  have none: "count_list (srv_tasks (sy_srv s)) (l, t) = 0" for t
    using assms(2) by (intro count_notin) (auto simp: tasks_of_def filter_empty_conv)
  have tasks: "tasks_ok (sy_conn s) (srv_tasks (sy_srv s)) (main_loop (sy_srv s)) (sy_home s)"
    using assms(1) by (simp add: sys_ok_def)
  show "l = sy_home s ident \<Longrightarrow> chan_index (conn_channel c) \<noteq> kNew"
    using tasks none [of "Establish ident"] assms(3) unfolding tasks_ok_def in_state_def by (metis zero_neq_one)
  show "l = main_loop (sy_srv s) \<Longrightarrow> chan_index (conn_channel c) \<noteq> kDeleted"
    using tasks none [of "Remove ident"] assms(3) unfolding tasks_ok_def in_state_def by (metis zero_neq_one)
qed

subsection \<open>An example run\<close>

text \<open>
  A server with one loop accepts descriptor 7; the loop registers the connection, and the peer
  closes it.
\<close>

definition demo_server :: "http_context option tcp_server" where
  "demo_server = \<lparr>srv_mode = 1, nextConnId = 0, srv_pool = new_thread_pool 9 0, conns = [],
     conn_hold_seconds = 10, timerq = \<lparr>timers = [], check_per_seconds = 3, armed = []\<rparr>,
     timer_heap = (\<lambda>_. new_timer (Timestamp 0) 0), next_timer = 0, srv_tasks = [], idlefd = 4,
     srv_closed = [], srv_fds = Map.empty\<rparr>"

definition demo_fds :: loop_fds where
  "demo_fds = \<lparr>lf_wakeup = (\<lambda>l. 20 + int l), lf_timer = 18, lf_listen = 19\<rparr>"

lemma demo_fds_ok: "own_fds_ok demo_fds (new_thread_pool 9 n)"
  by (simp add: own_fds_ok_def demo_fds_def new_thread_pool_def)

definition demo_accepted :: "system result" where
  "demo_accepted = sys_accept (Timestamp 5) 7 0 0 (new_system demo_fds demo_server [] (new_pool 0))"

definition demo_registered :: "system result" where
  "demo_registered = res_bind demo_accepted (\<lambda>s. sys_task (Establish 0) (take_task 9 (Establish 0) s))"

definition demo_closing :: "system result" where
  "demo_closing = res_bind demo_registered (sys_read demo_env (Timestamp 6) [Data []] [] 0)"

lemma demo_server:
  "new_server Map.empty True True (new_thread_pool 9 0) \<lparr>timers = [], check_per_seconds = 3, armed = []\<rparr> 1 10 4 =
     Inr demo_server"
  by (simp add: new_server_def demo_server_def)

lemma demo_listens:
  "own_event (new_system demo_fds demo_server [] (new_pool 0)) (main_loop (sy_srv (new_system demo_fds demo_server [] (new_pool 0))))
     (lf_listen (sy_fds (new_system demo_fds demo_server [] (new_pool 0)))) EPOLLIN"
  "7 \<notin> open_fds (new_system demo_fds demo_server [] (new_pool 0))"
proof -
  show "own_event (new_system demo_fds demo_server [] (new_pool 0)) (main_loop (sy_srv (new_system demo_fds demo_server [] (new_pool 0))))
      (lf_listen (sy_fds (new_system demo_fds demo_server [] (new_pool 0)))) EPOLLIN"
    by code_simp
  have "7 \<notin> chan_fd ` set (fst (loop_poll demo_fds (srv_pool demo_server) 9))" by code_simp
  then have "7 \<notin> chan_fd ` set (fst (loop_poll demo_fds (srv_pool demo_server) l))" for l
    by (cases "l = 9") (simp_all add: loop_poll_def demo_server_def new_thread_pool_def)
  then show "7 \<notin> open_fds (new_system demo_fds demo_server [] (new_pool 0))"
    by (simp add: open_fds_def new_system_def demo_server_def)
qed

lemma demo_registered_reached:
  "\<exists>s c. demo_registered = Inr s \<and> (sys_step demo_env)\<^sup>*\<^sup>* (new_system demo_fds demo_server [] (new_pool 0)) s \<and>
     sy_conn s 0 = Some c \<and> chan_index (conn_channel c) = kAdded \<and> conn_context c = Some new_context \<and>
     readBuffer c = buf_new 1024 \<and> writeBuffer c = buf_new 1024 \<and> sy_sent s 0 = [] \<and>
     conn_event s 0 EPOLLIN Call_Read"
proof -
  let ?s0 = "new_system demo_fds demo_server [] (new_pool 0)"
  have "res_map (next_task 9) demo_accepted = Inr (Some (Establish 0))" by code_simp
  then obtain s1 where s1: "demo_accepted = Inr s1" "next_task 9 s1 = Some (Establish 0)"
    unfolding res_simps by blast
  have "res_map (\<lambda>s. (conn_event s 0 EPOLLIN Call_Read, sy_sent s 0, map_option (\<lambda>c. (chan_index (conn_channel c),
      conn_context c = Some new_context, readBuffer c = buf_new 1024, writeBuffer c = buf_new 1024)) (sy_conn s 0)))
      demo_registered = Inr (True, [], Some (kAdded, True, True, True))"
    by code_simp
  then obtain s2 c where s2: "demo_registered = Inr s2" "conn_event s2 0 EPOLLIN Call_Read" "sy_sent s2 0 = []"
      "sy_conn s2 0 = Some c" "chan_index (conn_channel c) = kAdded" "conn_context c = Some new_context"
      "readBuffer c = buf_new 1024" "writeBuffer c = buf_new 1024"
    by (auto simp: res_simps)
  have "sys_step demo_env ?s0 s1"
    using demo_listens s1(1) unfolding demo_accepted_def by (intro sys_step.accept)
  moreover have "sys_step demo_env s1 s2"
    using s1(2) s2(1) by (intro sys_step.task [where l = 9 and t = "Establish 0"]) (simp_all add: demo_registered_def s1(1))
  ultimately have "(sys_step demo_env)\<^sup>*\<^sup>* ?s0 s2"
    by (meson converse_rtranclp_into_rtranclp rtranclp.rtrancl_refl)
  with s2 show ?thesis by blast
qed

lemma demo_closing_reached:
  "\<exists>s c. demo_closing = Inr s \<and> (sys_step demo_env)\<^sup>*\<^sup>* (new_system demo_fds demo_server [] (new_pool 0)) s \<and>
     sy_conn s 0 = Some c \<and> conn_fd c = 7 \<and> chan_index (conn_channel c) = kDeleted \<and>
     sy_home s 0 = 9 \<and> main_loop (sy_srv s) = 9 \<and> length (tasks_of 9 s) = 2"
proof -
  let ?s0 = "new_system demo_fds demo_server [] (new_pool 0)"
  obtain s2 where s2: "demo_registered = Inr s2" "(sys_step demo_env)\<^sup>*\<^sup>* ?s0 s2" "conn_event s2 0 EPOLLIN Call_Read"
    using demo_registered_reached by blast
  have "res_map (\<lambda>s. (map_option (\<lambda>c. (conn_fd c, chan_index (conn_channel c))) (sy_conn s 0), sy_home s 0,
      main_loop (sy_srv s), length (tasks_of 9 s))) demo_closing = Inr (Some (7, kDeleted), 9, 9, 2)"
    by code_simp
  then obtain s c where s: "demo_closing = Inr s" "sy_conn s 0 = Some c" "conn_fd c = 7"
      "chan_index (conn_channel c) = kDeleted" "sy_home s 0 = 9" "main_loop (sy_srv s) = 9"
      "length (tasks_of 9 s) = 2"
    by (auto simp: res_simps)
  have "sys_step demo_env s2 s"
    using s2(3) s(1) by (intro sys_step.readable) (simp_all add: demo_closing_def s2(1))
  with s2(2) have "(sys_step demo_env)\<^sup>*\<^sup>* ?s0 s" by (rule rtranclp.rtrancl_into_rtrancl)
  with s show ?thesis by blast
qed

subsection \<open>What holds of the running server\<close>

text \<open>The loops' own descriptors stay watched.\<close>

lemma own_watched:
  assumes "sys_ok s" and "fd \<in> chan_fd ` set (sy_own s l)"
  shows "watching (sy_poll s l) fd = Some readEvent"
proof -
  obtain ch where ch: "ch \<in> set (sy_own s l)" "fd = chan_fd ch" using assms(2) by blast
  then have "own_watch (sy_own s l) fd = Some readEvent"
    using assms(1) by (simp add: sys_ok_def loops_ok_def)
  with assms(1) show ?thesis by (simp add: sys_ok_def polls_ok_def)
qed

text \<open>A report of input on one of them calls its callback.\<close>

lemma own_reported:
  assumes "sys_ok s" and "fd \<in> chan_fd ` set (sy_own s l)"
  shows "own_event s l fd EPOLLIN"
proof -
  obtain ch where ch: "ch \<in> set (sy_own s l)" "fd = chan_fd ch" using assms(2) by blast
  then have "has_read ch" using assms(1) by (simp add: sys_ok_def loops_ok_def)
  moreover have "EPOLLIN AND readEvent \<noteq> 0" "EPOLLIN AND NOT (readEvent OR EPOLLERR OR EPOLLHUP) = 0"
    by code_simp+
  ultimately show ?thesis
    using ch own_watched [OF assms]
    by (auto simp: own_event_def reported_def list_ex_iff handleEvent_def setREvent_def)
qed

text \<open>
  C2: the life of a connection. Start the server and let anything happen: acceptances, events on
  any connection in any order with any data, tasks of the loops, ticks of the timer queue.
  Then every connection in the table is in one of three states. It is new, is not watched
  and has exactly one task, in the loop it was given to, that will register it; or it is
  registered, and the poller of its loop watches its descriptor for exactly the events the
  channel asks for; or it is closed, is not watched any more and has exactly one task in the
  main loop that will remove it.
\<close>

theorem system_lifecycle:
  assumes "new_server fds True True p tq mode hold spare = Inr srv" and "own_fds_ok lfs p"
    and "(sys_step env)\<^sup>*\<^sup>* (new_system lfs srv us pl) s" and "sy_conn s ident = Some c"
  shows "chan_index (conn_channel c) \<in> {kNew, kAdded, kDeleted} \<and>
    count_list (srv_tasks (sy_srv s)) (sy_home s ident, Establish ident) =
      (if chan_index (conn_channel c) = kNew then 1 else 0) \<and>
    count_list (srv_tasks (sy_srv s)) (main_loop (sy_srv s), Remove ident) =
      (if chan_index (conn_channel c) = kDeleted then 1 else 0) \<and>
    watching (sy_poll s (sy_home s ident)) (conn_fd c) =
      (if chan_index (conn_channel c) = kAdded then Some (chan_events (conn_channel c)) else None)"
  using sys_runs.run [OF assms(3) sys_ok_new [OF assms(1,2)]] assms(4)
  by (auto simp: sys_ok_def conn_ok_def tasks_ok_def polls_ok_def in_state_def)

theorem system_lifecycle_witness:
  "\<exists>s. demo_closing = Inr s \<and> count_list (srv_tasks (sy_srv s)) (9, Remove 0) = 1 \<and>
     count_list (srv_tasks (sy_srv s)) (9, Establish 0) = 0 \<and> watching (sy_poll s 9) 7 = None"
proof -
  obtain s c where s: "demo_closing = Inr s" "(sys_step demo_env)\<^sup>*\<^sup>* (new_system demo_fds demo_server [] (new_pool 0)) s"
      "sy_conn s 0 = Some c" "conn_fd c = 7" "chan_index (conn_channel c) = kDeleted" "sy_home s 0 = 9"
      "main_loop (sy_srv s) = 9"
    using demo_closing_reached by blast
  show ?thesis
    using system_lifecycle [OF demo_server demo_fds_ok s(2,3)] s by auto
qed

text \<open>
  C8: no descriptor leaks and none is closed twice. In the same runs, no identifier is used
  twice; an accepted descriptor is closed exactly once if its connection has left the table
  and not at all before; two connections in the table have different descriptors; no
  \<open>epoll_ctl\<close> command has failed in any loop; and a poller watches nothing but descriptors of
  connections in the table that belong to its loop.
\<close>

theorem system_descriptors:
  assumes "new_server fds True True p tq mode hold spare = Inr srv" and "own_fds_ok lfs p"
    and "(sys_step env)\<^sup>*\<^sup>* (new_system lfs srv us pl) s"
  shows "distinct (map fst (sy_accepted s)) \<and>
    (\<forall>i fd. count_list (sy_closed s) (i, fd) = (if (i, fd) \<in> set (sy_accepted s) \<and> sy_conn s i = None then 1 else 0)) \<and>
    (\<forall>i c. sy_conn s i = Some c \<longrightarrow> (i, conn_fd c) \<in> set (sy_accepted s)) \<and>
    (\<forall>i j c d. sy_conn s i = Some c \<and> sy_conn s j = Some d \<and> conn_fd c = conn_fd d \<longrightarrow> i = j) \<and>
    (\<forall>l. epoll_ok (sy_poll s l)) \<and>
    (\<forall>l fd. watching (sy_poll s l) fd \<noteq> None \<longrightarrow> fd \<in> chan_fd ` set (sy_own s l) \<or>
      (\<exists>i c. sy_conn s i = Some c \<and> sy_home s i = l \<and> conn_fd c = fd)) \<and>
    (\<forall>l fd. fd \<in> chan_fd ` set (sy_own s l) \<longrightarrow> watching (sy_poll s l) fd = Some readEvent)"
proof -
  have ok: "sys_ok s" by (rule sys_runs.run [OF assms(3) sys_ok_new [OF assms(1,2)]])
  have own: "watching (sy_poll s l) fd = Some readEvent" if "fd \<in> chan_fd ` set (sy_own s l)" for l fd
    using own_watched [OF ok that] .
  have "fd \<in> chan_fd ` set (sy_own s l) \<or> (\<exists>i c. sy_conn s i = Some c \<and> sy_home s i = l \<and> conn_fd c = fd)"
    if "watching (sy_poll s l) fd \<noteq> None" for l fd
    using ok that unfolding sys_ok_def polls_ok_def comp_def own_watch_None by metis
  with own ok show ?thesis
    by (simp add: sys_ok_def closes_ok_def fds_ok_def polls_ok_def)
qed

theorem system_descriptors_witness:
  "\<exists>s. demo_closing = Inr s \<and> (0, 7) \<in> set (sy_accepted s) \<and> count_list (sy_closed s) (0, 7) = 0 \<and>
     epoll_ok (sy_poll s 9)"
proof -
  obtain s c where s: "demo_closing = Inr s" "(sys_step demo_env)\<^sup>*\<^sup>* (new_system demo_fds demo_server [] (new_pool 0)) s"
      "sy_conn s 0 = Some c" "conn_fd c = 7"
    using demo_closing_reached by blast
  note all = system_descriptors [OF demo_server demo_fds_ok s(2)]
  have "(0, 7) \<in> set (sy_accepted s)"
    using all s(3,4) by metis
  moreover have "count_list (sy_closed s) (0, 7) = 0"
    using all s(3) by simp
  moreover have "epoll_ok (sy_poll s 9)"
    using all by blast
  ultimately show ?thesis using s(1) by blast
qed

text \<open>
  C16: tasks get done. From any reachable state, a loop can run the tasks that wait for it, and
  none of them fails. Afterwards none of its connections still waits to be registered; and
  if it is the main loop, every connection that was closed before has left the table and its
  descriptor has been closed once.
\<close>

theorem system_batch:
  assumes "new_server fds True True p tq mode hold spare = Inr srv" and "own_fds_ok lfs p"
    and "(sys_step env)\<^sup>*\<^sup>* (new_system lfs srv us pl) s"
  shows "\<exists>s'. run_batch (length (tasks_of l s)) l s = Inr s' \<and> (sys_step env)\<^sup>*\<^sup>* s s' \<and>
    (\<forall>i c. sy_conn s' i = Some c \<and> sy_home s' i = l \<longrightarrow> chan_index (conn_channel c) \<noteq> kNew) \<and>
    (l = main_loop (sy_srv s) \<longrightarrow> (\<forall>i c. sy_conn s i = Some c \<and> chan_index (conn_channel c) = kDeleted \<longrightarrow>
      sy_conn s' i = None \<and> count_list (sy_closed s') (i, conn_fd c) = 1))"
proof -
  have ok: "sys_ok s" by (rule sys_runs.run [OF assms(3) sys_ok_new [OF assms(1,2)]])
  obtain s' where s': "run_batch (length (tasks_of l s)) l s = Inr s'" "(sys_step env)\<^sup>*\<^sup>* s s'" "sys_ok s'"
      "moves_on (sy_conn s) (sy_conn s')" "main_loop (sy_srv s') = main_loop (sy_srv s)"
      "sy_home s' = sy_home s" "sy_accepted s' = sy_accepted s" "tasks_of l s' = []"
    using run_batch_ok [OF ok, of l env] by blast
  note left = no_tasks_left [OF s'(3,8)]
  have gone: "sy_conn s' i = None" and once: "count_list (sy_closed s') (i, conn_fd c) = 1"
    if l: "l = main_loop (sy_srv s)" and c: "sy_conn s i = Some c" "chan_index (conn_channel c) = kDeleted" for i c
  proof -
    have "sy_conn s' i = Some c \<or> sy_conn s' i = None"
      using s'(4) c unfolding moves_on_def by metis
    then show none: "sy_conn s' i = None"
      using left(2) [of i c] l c(2) s'(5) by auto
    have "(i, conn_fd c) \<in> set (sy_accepted s')"
      using ok c(1) s'(7) by (auto simp: sys_ok_def closes_ok_def)
    then show "count_list (sy_closed s') (i, conn_fd c) = 1"
      using s'(3) none by (simp add: sys_ok_def closes_ok_def)
  qed
  have "chan_index (conn_channel c) \<noteq> kNew" if "sy_conn s' i = Some c" "sy_home s' i = l" for i c
    using left(1) that by auto
  then show ?thesis
    using s'(1,2) gone once by (intro exI [of _ s'] conjI) blast+
qed

theorem system_batch_witness:
  "\<exists>s s'. demo_closing = Inr s \<and> run_batch 2 9 s = Inr s' \<and> sy_conn s' 0 = None \<and>
     count_list (sy_closed s') (0, 7) = 1"
proof -
  obtain s c where s: "demo_closing = Inr s" "(sys_step demo_env)\<^sup>*\<^sup>* (new_system demo_fds demo_server [] (new_pool 0)) s"
      "sy_conn s 0 = Some c" "conn_fd c = 7" "chan_index (conn_channel c) = kDeleted" "sy_home s 0 = 9"
      "main_loop (sy_srv s) = 9" "length (tasks_of 9 s) = 2"
    using demo_closing_reached by blast
  obtain s' where s': "run_batch (length (tasks_of 9 s)) 9 s = Inr s'"
      "\<forall>i c. sy_conn s i = Some c \<and> chan_index (conn_channel c) = kDeleted \<longrightarrow>
        sy_conn s' i = None \<and> count_list (sy_closed s') (i, conn_fd c) = 1"
    using system_batch [OF demo_server demo_fds_ok s(2), of 9] s(7) by metis
  have "sy_conn s' 0 = None \<and> count_list (sy_closed s') (0, conn_fd c) = 1"
    using s'(2) s(3,5) by blast
  with s'(1) s(1,4,8) show ?thesis by auto
qed

end
