(* ===== verification/ConnTypes.thy ===== *)
theory ConnTypes
  imports ConnFrame
begin

text \<open>
  Types of a connection: which values its fields can have, whatever the peer and the kernel do,
  in level-triggered mode. Both buffers keep their indices in order and inside the storage, the
  storage never outgrows an \<open>int\<close>, its channel has its callbacks, the connection waits for EPOLLOUT exactly while it has unsent
  bytes, and the parsing context is there. (In edge-triggered mode
  this does not hold: a failed \<open>read\<close> or \<open>write\<close> moves an index backwards.)
\<close>

definition buf_typed :: "buffer \<Rightarrow> bool" where
  "buf_typed b \<longleftrightarrow> buf_ok b \<and> buf_size b \<le> int_max"

definition conn_typed :: "'x tcp_connection \<Rightarrow> bool" where
  "conn_typed c \<longleftrightarrow> conn_mode c = 1 \<and> buf_typed (writeBuffer c) \<and> buf_typed (readBuffer c) \<and>
     (wants_write c \<longleftrightarrow> 0 < readableBytes (writeBuffer c)) \<and>
     has_read (conn_channel c) \<and> has_write (conn_channel c)"

lemma conn_typed_simps [simp]:
  "conn_typed (c\<lparr>visited := t\<rparr>) = conn_typed c" "conn_typed (c\<lparr>conn_state := st\<rparr>) = conn_typed c"
  "conn_typed (c\<lparr>conn_context := x\<rparr>) = conn_typed c"
  "wants_write (c\<lparr>readBuffer := b\<rparr>) = wants_write c"
  by (simp_all add: conn_typed_def wants_write_def)

lemma readable_nonneg: "buf_typed b \<Longrightarrow> 0 \<le> readableBytes b"
  by (simp add: buf_typed_def buf_ok_def readableBytes_def)

subsection \<open>Buffers\<close>

lemma resize_typed:
  assumes "resize b = Inr b'" and "buf_ok b"
  shows "buf_typed b'"
proof -
  have "buf_size b * 2 \<le> int_max"
    using assms(1) by (simp add: resize_def split: if_splits)
  moreover have "0 \<le> buf_size b" by (simp add: buf_size_def)
  ultimately show ?thesis
    using resize_size [OF assms(1)] resize_indices [OF assms(1)] assms(2)
    by (simp add: buf_typed_def buf_ok_def)
qed

lemma resize_if_full_typed: "resize_if_full n b = Inr b' \<Longrightarrow> buf_typed b \<Longrightarrow> buf_typed b'"
  by (auto simp: resize_if_full_def buf_typed_def dest: resize_typed split: if_splits)

lemma append_loop_typed:
  assumes "append_loop b len = Some r"
  shows "buf_typed b \<longrightarrow> (\<forall>b'. r = Inr b' \<longrightarrow> buf_typed b' \<and> readableBytes b' = readableBytes b)"
  using assms
proof (rule append_loop.raw_induct [rotated])
  fix f b len r
  assume IH: "\<And>b l r. f b l = Some r \<Longrightarrow>
      buf_typed b \<longrightarrow> (\<forall>b'. r = Inr b' \<longrightarrow> buf_typed b' \<and> readableBytes b' = readableBytes b)"
    and step: "(if writableBytes b < len
      then case resize b of Inl e \<Rightarrow> Some (Inl e) | Inr b' \<Rightarrow> f b' len else Some (Inr b)) = Some r"
  show "buf_typed b \<longrightarrow> (\<forall>b'. r = Inr b' \<longrightarrow> buf_typed b' \<and> readableBytes b' = readableBytes b)"
  proof (cases "writableBytes b < len")
    case grow: True
    show ?thesis
    proof (cases "resize b")
      case (Inl e)
      with step grow show ?thesis by auto
    next
      case (Inr b1)
      then have "f b1 len = Some r" using step grow by simp
      note rest = IH [OF this]
      have "buf_typed b \<Longrightarrow> buf_ok b" by (simp add: buf_typed_def)
      moreover have "readableBytes b1 = readableBytes b"
        using resize_indices [OF Inr] by (simp add: readableBytes_def)
      ultimately show ?thesis using rest resize_typed [OF Inr] by metis
    qed
  next
    case False
    with step show ?thesis by auto
  qed
qed

lemma write_range_typed:
  "write_range b at s = Inr b' \<Longrightarrow> buf_typed b \<Longrightarrow> buf_typed b' \<and> writeIndex b' = writeIndex b \<and>
    readIndex b' = readIndex b \<and> buf_size b' = buf_size b \<and> at + int (length s) \<le> buf_size b"
  by (auto simp: write_range_def buf_typed_def buf_ok_def buf_size_def length_overwrite split: if_splits)

lemma addWriteIndex_typed:
  "buf_typed b \<Longrightarrow> 0 \<le> n \<Longrightarrow> writeIndex b + n \<le> buf_size b \<Longrightarrow> buf_typed (addWriteIndex n b)"
  by (simp add: buf_typed_def buf_ok_def buf_size_def addWriteIndex_def)

lemma buf_append_typed:
  assumes "buf_append s b = Inr b'" and "buf_typed b"
  shows "buf_typed b' \<and> readableBytes b' = readableBytes b + int (length s)"
proof -
  obtain b1 b2 where b: "append_loop b (int (length s)) = Some (Inr b1)"
      "write_range b1 (writeIndex b1) s = Inr b2" "b' = addWriteIndex (int (length s)) b2"
    using assms(1) by (auto simp: buf_append_def res_simps split: option.splits)
  have b1: "buf_typed b1" "readableBytes b1 = readableBytes b" using append_loop_typed [OF b(1)] assms(2) by blast+
  note w = write_range_typed [OF b(2) b1(1)]
  then have "buf_typed b'" by (simp add: b(3) addWriteIndex_typed)
  with w b1(2) show ?thesis by (simp add: b(3) readableBytes_def addWriteIndex_def)
qed

lemma read_in_typed:
  assumes "read_in s b = Inr b'" and "buf_typed b"
  shows "buf_typed b'"
proof -
  obtain b1 b2 where b: "write_range b (writeIndex b) s = Inr b1" "resize_if_full (int (length s)) b1 = Inr b2"
      "b' = addWriteIndex (int (length s)) b2"
    using assms(1) by (auto simp: read_in_def res_simps)
  note w = write_range_typed [OF b(1) assms(2)]
  have "writeIndex b2 = writeIndex b1" and "buf_size b1 \<le> buf_size b2"
    using b(2) resize_indices [of b1 b2] resize_size [of b1 b2]
    by (auto simp: resize_if_full_def buf_size_def split: if_splits)
  with w resize_if_full_typed [OF b(2)] show ?thesis by (simp add: b(3) addWriteIndex_typed)
qed

lemma retrieveLen_typed:
  assumes "retrieveLen n b = Inr (s, b')" and "buf_typed b"
  shows "buf_typed b'"
proof -
  have "0 \<le> n" using assms(1) retrieveLen_negative [of n b] by (cases "n < 0") auto
  from retrieveLen_ok [OF _ this, of b] assms show ?thesis by (auto simp: buf_typed_def)
qed

lemma retrieveAll_typed: "retrieveAll b = Inr (s, b') \<Longrightarrow> buf_typed b \<Longrightarrow> buf_typed b'"
  by (auto simp: retrieveAll_def dest: retrieveLen_typed)

subsection \<open>The parser\<close>

lemma drop_line_typed: "drop_line found b = Inr b' \<Longrightarrow> buf_typed b \<Longrightarrow> buf_typed b'"
  by (auto simp: drop_line_def res_simps split: option.splits dest: retrieveLen_typed)

lemma parse_iter_typed:
  assumes "parse_iter c b ok = Inr (ok', again, c', b')" and "buf_typed b"
  shows "buf_typed b'"
proof (cases "parseState c")
  case kExpectRequestLine
  with assms show ?thesis
    by (auto simp: parse_iter_def parse_line_branch_def res_simps case_prod_beta
      split: option.splits if_splits dest: retrieveLen_typed)
next
  case kExpectHeaders
  with assms show ?thesis
    by (auto simp: parse_iter_def parse_header_branch_def res_simps Let_def
      split: option.splits dest: retrieveLen_typed)
next
  case kExpectBody
  with assms show ?thesis
    by (auto simp: parse_iter_def parse_body_branch_def res_simps Let_def split: if_splits
      intro: retrieveAll_typed drop_line_typed)
next
  case kGotAll
  with assms show ?thesis by (simp add: parse_iter_def)
qed

lemma parse_loop_typed:
  "parse_loop c b ok = Inr (ok', c', b') \<Longrightarrow> buf_typed b \<Longrightarrow> buf_typed b'"
proof (induction c b ok rule: parse_loop.induct)
  case (1 c b ok)
  obtain ok1 again c1 b1 where iter: "parse_iter c b ok = Inr (ok1, again, c1, b1)"
    using 1(2) by (cases "parse_iter c b ok") (auto simp: parse_loop.simps [of c b ok])
  note typed = parse_iter_typed [OF iter 1(3)]
  show ?case
  proof (cases again)
    case True
    with 1(2) have "parse_loop c1 b1 ok1 = Inr (ok', c', b')"
      by (simp add: parse_loop.simps [of c b ok] iter)
    with 1(1) [OF iter _ _ _] True typed show ?thesis by simp
  next
    case False
    with 1(2) typed show ?thesis by (simp add: parse_loop.simps [of c b ok] iter)
  qed
qed

subsection \<open>Handlers\<close>

lemma on_channel_typed:
  assumes "on_channel (update_mask f) c io = (c', io')"
  shows "conn_mode c' = conn_mode c \<and> writeBuffer c' = writeBuffer c \<and> readBuffer c' = readBuffer c \<and>
    conn_context c' = conn_context c \<and> has_read (conn_channel c') = has_read (conn_channel c) \<and>
    has_write (conn_channel c') = has_write (conn_channel c) \<and> chan_events (conn_channel c') = f (chan_events (conn_channel c))"
  using assms by (auto simp: on_channel_def update_mask_def dest: updateChannel_events split: prod.splits)

lemma bit_readEvent_or: "bit (m OR readEvent) 2 \<longleftrightarrow> bit m 2"
  by (simp add: bit_or_iff bit_readEvent)

lemma enableReading_typed:
  assumes "on_channel enableReading c io = (c', io')"
  shows "conn_typed c' = conn_typed c \<and> conn_context c' = conn_context c"
proof -
  note c' = on_channel_typed [OF assms [unfolded enable_as_update]]
  then have "wants_write c' = wants_write c" by (simp add: wants_write_def bit_readEvent_or)
  with c' show ?thesis by (simp add: conn_typed_def)
qed

lemma write_buffer_count:
  assumes "write_buffer c io = Inr (Inr n, io')" and "buf_typed (writeBuffer c)"
  shows "buf_typed (addReadIndex (int n) (writeBuffer c)) \<and> int n \<le> readableBytes (writeBuffer c)"
proof -
  have ok: "buf_ok (writeBuffer c)" using assms(2) by (simp add: buf_typed_def)
  then have "n \<le> length (contents (writeBuffer c))"
    using assms(1) by (auto simp: write_buffer_ok sys_write_def Let_def split: list.splits write_res.splits)
  with contents_addReadIndex [OF ok this] ok assms(2) length_contents [of "writeBuffer c"] show ?thesis
    by (simp add: buf_typed_def)
qed

lemma handleWrite_typed:
  assumes "handleWrite c io = Inr (c', io')" and "conn_typed c"
  shows "conn_typed c' \<and> conn_context c' = conn_context c"
proof -
  have mode: "conn_mode c = 1" and wb: "buf_typed (writeBuffer c)" using assms(2) by (simp_all add: conn_typed_def)
  then obtain r io1 where w: "write_buffer c io = Inr (r, io1)"
    and go: "handleWrite_LT c io = Inr (c', io')"
    using assms(1) by (auto simp: handleWrite_def handleWrite_LT_def res_simps)
  show ?thesis
  proof (cases "\<exists>n. r = Inr n \<and> n > 0")
    case True
    then obtain n where n: "r = Inr n" "n > 0" by blast
    obtain c2 io2 where c2: "(if int n = readableBytes (writeBuffer c) then on_channel disableWriting c io1
        else (c, io1)) = (c2, io2)" by fastforce
    have le: "buf_typed (addReadIndex (int n) (writeBuffer c))" "int n \<le> readableBytes (writeBuffer c)"
      using write_buffer_count [of c io n io1] w n(1) wb by blast+
    have "conn_mode c2 = conn_mode c \<and> writeBuffer c2 = writeBuffer c \<and> readBuffer c2 = readBuffer c \<and>
        conn_context c2 = conn_context c \<and> has_read (conn_channel c2) = has_read (conn_channel c) \<and>
        has_write (conn_channel c2) = has_write (conn_channel c) \<and> (wants_write c2 \<longleftrightarrow> int n < readableBytes (writeBuffer c))"
    proof (cases "int n = readableBytes (writeBuffer c)")
      case True
      with c2 have "on_channel (update_mask (\<lambda>m. m AND NOT writeEvent)) c io1 = (c2, io2)"
        by (simp add: enable_as_update)
      from on_channel_typed [OF this] True show ?thesis by (simp add: wants_write_def bit_writeEvent_and)
    next
      case False
      with c2 assms(2) le(2) n(2) show ?thesis by (simp add: conn_typed_def)
    qed
    moreover have "c' = consume (int n) c2"
      using go w n c2 by (simp add: handleWrite_LT_def)
    ultimately show ?thesis
      using le assms(2)
      by (auto simp: consume_def conn_typed_def wants_write_def readableBytes_def addReadIndex_def)
  next
    case False
    then have "c' = c" using go w by (auto simp: handleWrite_LT_def split: sum.splits if_splits)
    with assms(2) show ?thesis by simp
  qed
qed

lemma send_typed:
  assumes "send s c io = Inr (c', io')" and "conn_typed c"
  shows "conn_typed c' \<and> conn_context c' = conn_context c"
proof -
  let ?first = "if readableBytes (writeBuffer c) = 0
    then res_map (\<lambda>(r, io1). (case r of Inl e \<Rightarrow> 0 | Inr n \<Rightarrow> n, io1)) (sys_write s io)
    else Inr (0, io)"
  obtain n io1 where first: "?first = Inr (n, io1)"
    using assms(1) by (cases ?first) (auto simp: send_def)
  show ?thesis
  proof (cases "n < length s")
    case True
    then obtain wb where wb: "buf_append (drop n s) (writeBuffer c) = Inr wb"
        "on_channel enableWriting (c\<lparr>writeBuffer := wb\<rparr>) io1 = (c', io')"
      using assms(1) first by (auto simp: send_def res_simps)
    have b: "buf_typed wb" "0 < readableBytes wb"
      using buf_append_typed [OF wb(1)] assms(2) True readable_nonneg [of "writeBuffer c"]
      by (simp_all add: conn_typed_def)
    with on_channel_typed [OF wb(2) [unfolded enable_as_update]] assms(2) show ?thesis
      by (simp add: conn_typed_def wants_write_def bit_writeEvent_or)
  next
    case False
    with assms first show ?thesis by (simp add: send_def)
  qed
qed

lemma shutdownWrite_typed: "shutdownWrite c io = (c', io') \<Longrightarrow> conn_typed c' = conn_typed c \<and> conn_context c' = conn_context c"
  by (auto simp: shutdownWrite_def conn_typed_def wants_write_def)

lemma handleClose_typed: "handleClose c io = (c', io') \<Longrightarrow> conn_typed c' = conn_typed c \<and> conn_context c' = conn_context c"
  by (auto simp: handleClose_def on_channel_def disableAll_def conn_typed_def wants_write_def
    dest!: updateChannel_events split: prod.splits)

lemma onRequest_typed:
  assumes "onRequest env req c io = Inr (c', io')" and "conn_typed c"
  shows "conn_typed c' \<and> conn_context c' = conn_context c"
proof -
  obtain resp :: http_response and io1 s c2 io2 where "send s c io1 = Inr (c2, io2)"
      and "(if closeConnection resp then shutdownWrite c2 io2 else (c2, io2)) = (c', io')"
    using assms by (auto simp: onRequest_def res_simps)
  with send_typed [OF this(1) assms(2)] show ?thesis
    by (auto split: if_splits dest: shutdownWrite_typed)
qed

definition http_typed :: "http_connection \<Rightarrow> bool" where
  "http_typed c \<longleftrightarrow> conn_typed c \<and> conn_context c \<noteq> None"

lemma onMessage_typed:
  assumes "onMessage env c io = Inr (c', io')" and "http_typed c"
  shows "http_typed c'"
proof -
  obtain ctx where ctx: "conn_context c = Some ctx" and typed: "conn_typed c"
    using assms(2) by (auto simp: http_typed_def)
  obtain ok ctx1 b1 where parse: "parseRequest ctx (readBuffer c) = Inr (ok, ctx1, b1)"
    using assms(1) ctx by (auto simp: onMessage_def res_simps)
  let ?c1 = "c\<lparr>readBuffer := b1, conn_context := Some ctx1\<rparr>"
  let ?first = "if ok then Inr (?c1, io)
      else res_map (\<lambda>(c2, io2). shutdownWrite c2 io2) (send bad_request ?c1 io)"
  have all: "res_bind ?first (\<lambda>(c2, io2). if gotAll ctx1
      then res_bind (onRequest env (ctx_request ctx1) c2 io2) (\<lambda>(c3, io3).
        Inr (c3\<lparr>conn_context := Some (ctx_reset ctx1)\<rparr>, io3))
      else Inr (c2, io2)) = Inr (c', io')"
    using assms(1) unfolding onMessage_def ctx option.case parse res_bind.simps(2) prod.case Let_def .
  then obtain c2 io2 where two: "?first = Inr (c2, io2)"
    by (cases ?first) auto
  with all have three: "(if gotAll ctx1
      then res_bind (onRequest env (ctx_request ctx1) c2 io2) (\<lambda>(c3, io3).
        Inr (c3\<lparr>conn_context := Some (ctx_reset ctx1)\<rparr>, io3))
      else Inr (c2, io2)) = Inr (c', io')"
    by simp
  have "buf_typed b1"
    using parse_loop_typed [OF parse [unfolded parseRequest_def]] typed by (simp add: conn_typed_def)
  then have c1: "conn_typed ?c1" using typed by (simp add: conn_typed_def wants_write_def)
  have "conn_typed c2 \<and> conn_context c2 \<noteq> None"
    using two c1 send_typed [of bad_request ?c1 io] shutdownWrite_typed
    by (fastforce simp: res_simps split: if_splits)
  then show ?thesis
    using three by (auto simp: http_typed_def res_simps split: if_splits dest: onRequest_typed)
qed

lemma handleRead_typed:
  assumes "handleRead (onMessage env) now answers c io = Inr (c', io')" and "http_typed c"
  shows "http_typed c'"
proof -
  have typed: "conn_typed c" and mode: "conn_mode c = 1" and ctx: "conn_context c \<noteq> None"
    using assms(2) by (simp_all add: http_typed_def conn_typed_def)
  obtain a where a: "handleRead_LT (onMessage env) a (c\<lparr>visited := now\<rparr>) io = Inr (c', io')"
    using assms(1) mode by (auto simp: handleRead_def Let_def split: list.splits)
  have cb: "http_typed c'"
    if "buf_typed b" "onMessage env (c\<lparr>visited := now, readBuffer := b\<rparr>) io = Inr (c', io')" for b
    using onMessage_typed [OF that(2)] that(1) typed ctx by (simp add: http_typed_def conn_typed_def wants_write_def)
  show ?thesis
  proof (cases a)
    case (Data s)
    show ?thesis
    proof (cases "s = []")
      case True
      with a Data have "handleClose (c\<lparr>visited := now\<rparr>) io = (c', io')" by (simp add: handleRead_LT_def)
      with handleClose_typed [OF this] typed ctx show ?thesis
        by (simp add: http_typed_def conn_typed_def wants_write_def)
    next
      case False
      with a Data obtain b where "read_in s (readBuffer c) = Inr b"
          "onMessage env (c\<lparr>visited := now, readBuffer := b\<rparr>) io = Inr (c', io')"
        by (auto simp: handleRead_LT_def res_simps)
      with cb read_in_typed typed show ?thesis by (auto simp: conn_typed_def)
    qed
  next
    case (Read_Failed e)
    with a obtain b where "resize_if_full (- 1) (readBuffer c) = Inr b"
        "onMessage env (c\<lparr>visited := now, readBuffer := b\<rparr>) io = Inr (c', io')"
      by (auto simp: handleRead_LT_def res_simps)
    with cb resize_if_full_typed typed show ?thesis by (auto simp: conn_typed_def)
  qed
qed

lemma connectEstablished_typed:
  assumes "connectEstablished c io = (c', io')" and "conn_mode c = 1"
  shows "conn_typed c' = conn_typed c \<and> conn_context c' = conn_context c"
proof -
  have "on_channel enableReading c io = (c', io')"
    using assms by (simp add: connectEstablished_def)
  then show ?thesis by (rule enableReading_typed)
qed

lemma new_connection_typed: "http_typed (onConnection (new_connection p fd 1 peer ident timer ctx))"
  by (simp add: http_typed_def conn_typed_def onConnection_def new_connection_def buf_typed_def wants_write_def
    new_channel_def readableBytes_def initBufSize_def buf_size_def buf_new_def buf_ok_def)

end
