(* ===== verification/SystemTypes.thy ===== *)
theory SystemTypes
  imports Lifecycle ConnTypes
begin

text \<open>
  The types of theory \<open>ConnTypes\<close> for every connection of the running server of theory
  \<open>Reactor\<close>.
\<close>

definition sys_typed :: "system \<Rightarrow> bool" where
  "sys_typed s \<longleftrightarrow> srv_mode (sy_srv s) = 1 \<and> (\<forall>i c. sy_conn s i = Some c \<longrightarrow> http_typed c)"

lemma removals_conns [simp]:
  "conns (fold removeConnection rs srv) = conns srv" "srv_mode (fold removeConnection rs srv) = srv_mode srv"
  by (induction rs arbitrary: srv) (simp_all add: removeConnection_def queueInLoop_def)

lemma sys_typed_put_back: "sys_typed s \<Longrightarrow> http_typed c \<Longrightarrow> sys_typed (put_back ident c io s)"
  by (simp add: sys_typed_def put_back_def map_of_smap_assign)

lemma sys_typed_on_conn:
  assumes "on_conn h answers ident s = Inr s'" and "sys_typed s"
    and "\<And>c io c' io'. h c io = Inr (c', io') \<Longrightarrow> http_typed c \<Longrightarrow> http_typed c'"
  shows "sys_typed s'"
proof -
  obtain c c' io' where c: "sy_conn s ident = Some c" "h c (handler_io answers ident s) = Inr (c', io')"
      "s' = put_back ident c' io' s"
    using assms(1) by (auto simp: on_conn_def res_simps split: option.splits)
  have "http_typed c'" using assms(3) [OF c(2)] assms(2) c(1) by (auto simp: sys_typed_def)
  with assms(2) show ?thesis unfolding c(3) by (rule sys_typed_put_back)
qed

lemma sys_typed_take_task: "sys_typed (take_task l t s) = sys_typed s"
  by (simp add: sys_typed_def take_task_def)

lemma removal_fields:
  "removeConnectionInLoop c srv = Inr (c', srv') \<Longrightarrow>
    conns srv' = smap_erase (connID c) (conns srv) \<and> srv_mode srv' = srv_mode srv"
  by (auto simp: removeConnectionInLoop_def res_simps split: if_splits option.splits)

lemma accepted_conn:
  assumes "accepted cb ctx now fd srv = Inr srv'"
  shows "srv_mode srv' = srv_mode srv \<and> (\<exists>k peer tm. conns srv' = smap_assign (nextConnId srv)
    (cb (new_connection k fd (srv_mode srv) peer (nextConnId srv) tm ctx)) (conns srv))"
proof -
  obtain l p where nxt: "getNextLoop (srv_pool srv) = (Some l, p)"
    using assms by (auto simp: accepted_def Let_def split: prod.splits option.splits)
  show ?thesis
    using assms unfolding accepted_def nxt prod.case option.case Let_def
    by (cases "conn_hold_seconds srv \<ge> 0"; auto simp: queueInLoop_def; blast)
qed

lemma sys_typed_remove:
  assumes "sys_remove ident s = Inr s'" and "sys_typed s"
  shows "sys_typed s'"
proof -
  obtain c c' srv where c: "removeConnectionInLoop c (sy_srv s) = Inr (c', srv)" "sy_srv s' = srv"
    using assms(1) by (auto simp: sys_remove_def res_simps split: option.splits)
  with assms(2) removal_fields [OF c(1)] show ?thesis
    by (auto simp: sys_typed_def c(2) map_of_smap_erase split: if_splits)
qed

lemma sys_typed_task:
  assumes "sys_task t s = Inr s'" and "sys_typed s"
  shows "sys_typed s'"
proof (cases t)
  case (Establish ident)
  have "http_typed c'" if "connectEstablished c io = (c', io')" "http_typed c"
    for c c' :: http_connection and io io' :: server_io
    using connectEstablished_typed [OF that(1)] that(2) by (simp add: http_typed_def conn_typed_def)
  with assms Establish show ?thesis
    by (auto simp: sys_establish_def intro: sys_typed_on_conn)
next
  case (Remove ident)
  with assms sys_typed_remove show ?thesis by simp
next
  case (Add_Timer r)
  with assms show ?thesis by (auto simp: sys_typed_def run_add_timer_def)
qed

lemma sys_typed_run_timer:
  assumes "sys_typed s"
  shows "sys_typed (run_timer now r s)"
proof (cases "timer_run (\<lambda>ident. sy_conn s ident \<noteq> None) (timer_heap (sy_srv s) r)")
  case None
  then show ?thesis using assms by (simp add: run_timer_def)
next
  case (Some ident)
  show ?thesis
  proof (cases "sy_conn s ident")
    case None
    with Some assms show ?thesis by (simp add: run_timer_def)
  next
    case c: (Some c)
    obtain c' io' heap added where h: "handleTimer now c (handler_io [] ident s) (timer_heap (sy_srv s)) =
        (c', io', heap, added)" by (metis prod_cases4)
    have "http_typed c" using assms c by (simp add: sys_typed_def)
    then have "http_typed c'"
      using handleTimer_cases [OF h] by (auto simp: http_typed_def conn_typed_def wants_write_def)
    from sys_typed_put_back [OF assms this, of ident io'] show ?thesis
      using Some c h by (simp add: run_timer_def Let_def queue_timers sys_typed_def)
  qed
qed

lemma sys_typed_tick:
  assumes "sys_tick now now2 s = Inr s'" and "sys_typed s"
  shows "sys_typed s'"
proof -
  obtain ts s1 where loop: "expire_loop (run_timer now2) now (timers (timerq (sy_srv s))) s = (ts, s1)"
    by fastforce
  then obtain tq where s': "s' = s1\<lparr>sy_srv := (sy_srv s1)\<lparr>timerq := tq\<rparr>\<rparr>"
    using assms(1) by (auto simp: sys_tick_def tq_handleRead_def res_simps)
  have "sys_typed s1"
    using expire_loop_inv [of sys_typed "run_timer now2" s] sys_typed_run_timer assms(2) loop
    by (metis snd_conv)
  then show ?thesis by (simp add: s' sys_typed_def)
qed

lemma sys_typed_accept:
  assumes "sys_accept now fd second reopened s = Inr s'" and "sys_typed s"
  shows "sys_typed s'"
proof (cases "fd \<ge> 0")
  case False
  then show ?thesis
    using assms by (auto simp: sys_accept_def newConnection_def sys_typed_def)
next
  case True
  then obtain srv where acc: "accepted onConnection None now fd (sy_srv s) = Inr srv" "sy_srv s' = srv"
    using assms(1) by (auto simp: sys_accept_def newConnection_def res_simps Let_def)
  have mode: "srv_mode (sy_srv s) = 1" using assms(2) by (simp add: sys_typed_def)
  obtain k peer tm where d: "conns srv = smap_assign (nextConnId (sy_srv s))
      (onConnection (new_connection k fd 1 peer (nextConnId (sy_srv s)) tm None)) (conns (sy_srv s))"
      "srv_mode srv = 1"
    using accepted_conn [OF acc(1)] unfolding mode by blast
  with assms(2) show ?thesis by (auto simp: sys_typed_def acc(2) map_of_smap_assign new_connection_typed)
qed

lemma sys_typed_step: "sys_step env s s' \<Longrightarrow> sys_typed s \<Longrightarrow> sys_typed s'"
proof (induction rule: sys_step.induct)
  case (accept fd s now second reopened s')
  then show ?case by (blast intro: sys_typed_accept)
next
  case (task l s t s')
  then show ?case using sys_typed_task sys_typed_take_task by metis
next
  case (readable s ident now reads writes s')
  then show ?case unfolding sys_read_def by (blast intro: sys_typed_on_conn handleRead_typed)
next
  case (writable s ident writes s')
  have "http_typed c'" if "handleWrite c io = Inr (c', io')" "http_typed c"
    for c c' :: http_connection and io io' :: server_io
    using handleWrite_typed [OF that(1)] that(2) by (simp add: http_typed_def)
  with writable show ?case unfolding sys_write_event_def by (blast intro: sys_typed_on_conn)
next
  case (tick now now2 s s')
  then show ?case by (blast intro: sys_typed_tick)
qed

interpretation typed_runs: step_invariant "sys_step env" sys_typed for env
  by unfold_locales (rule sys_typed_step)

text \<open>
  C12: every connection of a level-triggered server is well-typed, however it got there. Its read
  and write index are in order and inside the storage of both buffers, no storage is larger
  than the largest \<open>int\<close>, its mode is that of the server, its parsing context is present,
  so that the message callback never dereferences an empty one, its channel has its callbacks, and it waits for EPOLLOUT exactly
  while it has bytes to send: no byte is left waiting for an event that is not asked for, and
  no loop spins on a connection that has nothing to send.
\<close>

theorem system_types:
  assumes "new_server fds True True p tq 1 hold spare = Inr srv"
    and "(sys_step env)\<^sup>*\<^sup>* (new_system lfs srv us pl) s" and "sy_conn s ident = Some c"
  shows "conn_mode c = 1 \<and> conn_context c \<noteq> None \<and>
    has_read (conn_channel c) \<and> has_write (conn_channel c) \<and>
    (bit (chan_events (conn_channel c)) 2 \<longleftrightarrow> 0 < readableBytes (writeBuffer c)) \<and>
    (\<forall>b \<in> {readBuffer c, writeBuffer c}. 0 \<le> readIndex b \<and> readIndex b \<le> writeIndex b \<and>
      writeIndex b \<le> buf_size b \<and> buf_size b \<le> int_max)"
proof -
  have "sys_typed (new_system lfs srv us pl)"
    using assms(1) by (auto simp: new_server_def new_system_def sys_typed_def)
  from typed_runs.run [OF assms(2) this] assms(3) show ?thesis
    by (auto simp: sys_typed_def http_typed_def conn_typed_def buf_typed_def buf_ok_def wants_write_def)
qed

theorem system_types_witness:
  "\<exists>s c. demo_closing = Inr s \<and> sy_conn s 0 = Some c \<and> conn_mode c = 1 \<and> conn_context c \<noteq> None"
proof -
  obtain s c where s: "demo_closing = Inr s" "(sys_step demo_env)\<^sup>*\<^sup>* (new_system demo_fds demo_server [] (new_pool 0)) s"
      "sy_conn s 0 = Some c"
    using demo_closing_reached by blast
  show ?thesis
    using system_types [OF demo_server s(2,3)] s by blast
qed

end
