(* ===== verification/Logger.thy ===== *)
theory Logger
  imports Timestamp
begin

text \<open>
  \<open>base/Logger.h\<close> and \<open>base/Logger.cc\<close>: one log line is built by the constructor (date,
  level, thread), \<open>log\<close> (the message) and the destructor (file and line), in an array of
  \<open>BUFSIZE\<close>, 1024, bytes. The calls of \<open>snprintf\<close> are given \<open>BUFSIZ\<close>, which is 8192 in the C
  library, so they do not keep within the array; a write behind it is \<open>Overrun\<close>. The
  expanded message is an argument.
\<close>

datatype log_level = DEBUG | INFO | WARN | ERROR

fun level_value :: "log_level \<Rightarrow> nat" where
  "level_value DEBUG = 0"
| "level_value INFO = 1"
| "level_value WARN = 2"
| "level_value ERROR = 3"

fun log_name :: "log_level \<Rightarrow> string" where
  "log_name DEBUG = ''LOG_DEBUG''"
| "log_name INFO = ''LOG_INFO''"
| "log_name WARN = ''LOG_WARN''"
| "log_name ERROR = ''LOG_ERROR''"

definition BUFSIZE :: nat where "BUFSIZE = 1024"
definition BUFSIZ :: nat where "BUFSIZ = 8192"

record logger =
  log_filename :: string
  log_line :: int
  log_buf :: string          \<comment> \<open>the text in \<open>buf\<close>\<close>
  log_lvl :: log_level
  write_length :: nat

text \<open>The text a call of \<open>snprintf\<close> with bound \<open>n\<close> leaves at offset \<open>at\<close>, with its NUL.\<close>

definition put_text :: "nat \<Rightarrow> string \<Rightarrow> nat \<Rightarrow> string \<Rightarrow> string result" where
  "put_text n t at b =
     (if at + length (snprintf n t) + 1 > BUFSIZE then Inl Overrun
      else Inr (take at b @ snprintf n t))"

definition log_prefix :: "tm \<Rightarrow> int \<Rightarrow> log_level \<Rightarrow> int \<Rightarrow> string" where
  "log_prefix t usec level tid =
     dec_int (tm_year t + 1900) @ ''-'' @ fmt_zero 2 (tm_mon t + 1) @ ''-'' @ fmt_zero 2 (tm_mday t) @
     '' '' @ fmt_zero 2 (tm_hour t) @ '':'' @ fmt_zero 2 (tm_min t) @ '':'' @ fmt_zero 2 (tm_sec t) @
     ''.'' @ fmt_zero 6 usec @ '' '' @ log_name level @ ''('' @ fmt_space 5 tid @ ''):''"

definition new_logger :: "tm \<Rightarrow> int \<Rightarrow> int \<Rightarrow> string \<Rightarrow> int \<Rightarrow> log_level \<Rightarrow> logger result" where
  "new_logger t usec tid file line level =
     (if length file \<ge> 128 then Inl Overrun
      else let s = log_prefix t usec level tid
           in res_bind (put_text BUFSIZ s 0 []) (\<lambda>b.
             Inr \<lparr>log_filename = file, log_line = line, log_buf = b, log_lvl = level,
               write_length = length s\<rparr>))"

definition logger_log :: "string \<Rightarrow> logger \<Rightarrow> logger result" where
  "logger_log msg g =
     res_bind (put_text (BUFSIZ - 1) msg (write_length g) (log_buf g)) (\<lambda>b.
       Inr (g\<lparr>log_buf := b, write_length := write_length g + length msg\<rparr>))"

definition log_tail :: "string \<Rightarrow> int \<Rightarrow> string" where
  "log_tail file line = ''-'' @ file @ '':'' @ dec_int line @ [LF]"

text \<open>The destructor: what is handed to the output function.\<close>

definition logger_finish :: "logger \<Rightarrow> string result" where
  "logger_finish g =
     (let s = log_tail (log_filename g) (log_line g); tail = snprintf 256 s
      in if write_length g + length tail + 1 > BUFSIZE then Inl Overrun
         else Inr (take (write_length g + length s) (take (write_length g) (log_buf g) @ tail)))"

text \<open>One statement \<open>LOG_...(...)\<close>: the text that is output, if the level is enabled.\<close>

definition log_statement ::
    "log_level \<Rightarrow> bool \<Rightarrow> tm \<Rightarrow> int \<Rightarrow> int \<Rightarrow> string \<Rightarrow> int \<Rightarrow> log_level \<Rightarrow> string \<Rightarrow> string option result" where
  "log_statement g_logLevel log_t t usec tid file line level msg =
     (if level_value g_logLevel \<le> level_value level \<and> log_t
      then res_bind (new_logger t usec tid file line level) (\<lambda>g.
           res_bind (logger_log msg g) (\<lambda>g1.
           res_bind (logger_finish g1) (\<lambda>s. Inr (Some s))))
      else Inr None)"

lemma put_text_fits:
  "length t < n \<Longrightarrow> put_text n t at b =
    (if at + length t + 1 > BUFSIZE then Inl Overrun else Inr (take at b @ t))"
  by (simp add: put_text_def snprintf_fits)

lemma put_text_long: "n \<le> length t \<Longrightarrow> BUFSIZE < n \<Longrightarrow> put_text n t at b = Inl Overrun"
  by (simp add: put_text_def snprintf_def)

lemma put_text_bound:
  assumes "BUFSIZE < n"
  shows "put_text n t at b =
    (if at + length t + 1 > BUFSIZE then Inl Overrun else Inr (take at b @ t))"
  using assms put_text_fits [of t n at b] put_text_long [of n t at b] by (cases "length t < n") auto

definition log_text :: "tm \<Rightarrow> int \<Rightarrow> int \<Rightarrow> string \<Rightarrow> int \<Rightarrow> log_level \<Rightarrow> string \<Rightarrow> string" where
  "log_text t usec tid file line level msg = log_prefix t usec level tid @ msg @ log_tail file line"

lemma log_statement_eq:
  assumes "length file < 128" and "int_min \<le> line" and "line \<le> int_max"
  shows "log_statement g_logLevel log_t t usec tid file line level msg =
    (if \<not> (level_value g_logLevel \<le> level_value level \<and> log_t) then Inr None
     else let s = log_prefix t usec level tid @ msg @ log_tail file line
          in if length s < 1024 then Inr (Some s) else Inl Overrun)"
proof -
  let ?p = "log_prefix t usec level tid" and ?t = "log_tail file line"
  have "length (dec_int line) \<le> 11"
  proof -
    have "nat (if line < 0 then - line else line) < 10 ^ 10"
      using assms(2,3) by (simp add: nat_less_iff)
    then have "length (dec_nat (nat (if line < 0 then - line else line))) \<le> 10"
      by (intro length_dec_nat) simp_all
    then show ?thesis by (simp add: dec_int_def split: if_splits)
  qed
  then have tail: "length ?t < 256" using assms(1) by (simp add: log_tail_def)
  have big: "BUFSIZE < BUFSIZ" "BUFSIZE < BUFSIZ - 1" by (simp_all add: BUFSIZE_def BUFSIZ_def)
  have "new_logger t usec tid file line level =
      (if length ?p + 1 > BUFSIZE then Inl Overrun
       else Inr \<lparr>log_filename = file, log_line = line, log_buf = ?p, log_lvl = level,
         write_length = length ?p\<rparr>)"
    using assms(1) by (simp add: new_logger_def put_text_bound [OF big(1)] Let_def)
  moreover have "logger_log msg \<lparr>log_filename = file, log_line = line, log_buf = ?p, log_lvl = level,
        write_length = length ?p\<rparr> =
      (if length ?p + length msg + 1 > BUFSIZE then Inl Overrun
       else Inr \<lparr>log_filename = file, log_line = line, log_buf = ?p @ msg, log_lvl = level,
         write_length = length ?p + length msg\<rparr>)"
    by (simp add: logger_log_def put_text_bound [OF big(2), simplified])
  moreover have "logger_finish \<lparr>log_filename = file, log_line = line, log_buf = ?p @ msg,
        log_lvl = level, write_length = length ?p + length msg\<rparr> =
      (if length ?p + length msg + length ?t + 1 > BUFSIZE then Inl Overrun
       else Inr (?p @ msg @ ?t))"
    using tail by (simp add: logger_finish_def snprintf_fits Let_def)
  ultimately show ?thesis
    by (auto simp: log_statement_def Let_def BUFSIZE_def)
qed

text \<open>One line as it is output.\<close>

lemma log_statement_example:
  "log_statement INFO True \<lparr>tm_year = 124, tm_mon = 0, tm_mday = 2, tm_hour = 3, tm_min = 4, tm_sec = 5\<rparr>
      6 7 ''x.cc'' 8 WARN ''hello'' =
    Inr (Some (''2024-01-02 03:04:05.000006 LOG_WARN(    7):hello-x.cc:8'' @ [LF]))"
proof -
  let ?tm = "\<lparr>tm_year = 124, tm_mon = 0, tm_mday = 2, tm_hour = 3, tm_min = 4, tm_sec = 5\<rparr>"
  have "log_prefix ?tm 6 WARN 7 @ ''hello'' @ log_tail ''x.cc'' 8 =
      ''2024-01-02 03:04:05.000006 LOG_WARN(    7):hello-x.cc:8'' @ [LF]"
    by code_simp
  then show ?thesis
    using log_statement_eq [of "''x.cc''" 8 INFO True ?tm 6 7 WARN "''hello''"]
    by (simp add: Let_def)
qed

end
