(* ===== verification/BlockQueue.thy ===== *)
theory BlockQueue
  imports Prelude
begin

text \<open>
  \<open>base/BlockQueue.h\<close> over \<open>base/Mutex.h\<close> and \<open>base/Condition.h\<close>: the bounded queue
  between the threads that log and the thread that writes the file.

  The operations of the queue are functions on its state. Threads interleave as a step
  relation: what a thread does between taking the mutex and giving it up (by returning or by
  waiting on a condition) is one step. A thread that waits is in a \<open>wait\<close> field until it is
  signalled, then in a \<open>ready\<close> field until it has the mutex again and tests its condition
  anew. Conditions may wake up without a signal, as POSIX allows. Producers are told apart
  by the items they want to add, consumers only by their number.
\<close>

record 'a block_queue =
  bq_queue :: "'a list"
  used :: int
  capacity :: int

definition new_block_queue :: "int \<Rightarrow> 'a block_queue" where
  "new_block_queue maxSize = \<lparr>bq_queue = [], used = 0, capacity = maxSize\<rparr>"

text \<open>\<open>None\<close>: the thread has to wait. \<open>front\<close> of an empty deque is undefined.\<close>

definition bq_push :: "'a \<Rightarrow> 'a block_queue \<Rightarrow> 'a block_queue option" where
  "bq_push x q =
     (if used q = capacity q then None
      else Some (q\<lparr>bq_queue := bq_queue q @ [x], used := used q + 1\<rparr>))"

definition bq_pop :: "'a block_queue \<Rightarrow> ('a \<times> 'a block_queue) result option" where
  "bq_pop q =
     (if used q = 0 then None
      else Some (case bq_queue q of
          [] \<Rightarrow> Inl Bad_Range
        | x # xs \<Rightarrow> Inr (x, q\<lparr>bq_queue := xs, used := used q - 1\<rparr>)))"

record 'a bq_world =
  bw_q :: "'a block_queue"
  push_wait :: "'a list"
  push_ready :: "'a list"
  pop_wait :: nat
  pop_ready :: nat
  bw_in :: "'a list"       \<comment> \<open>items in the order they were added\<close>
  bw_out :: "'a list"      \<comment> \<open>items in the order they were taken\<close>

definition new_bq_world :: "int \<Rightarrow> 'a bq_world" where
  "new_bq_world n = \<lparr>bw_q = new_block_queue n, push_wait = [], push_ready = [], pop_wait = 0,
     pop_ready = 0, bw_in = [], bw_out = []\<rparr>"

text \<open>The signals: one waiting thread becomes ready, if there is one.\<close>

definition signal_pop :: "'a bq_world \<Rightarrow> 'a bq_world" where
  "signal_pop w =
     (if pop_wait w = 0 then w else w\<lparr>pop_wait := pop_wait w - 1, pop_ready := pop_ready w + 1\<rparr>)"

inductive signal_push :: "'a bq_world \<Rightarrow> 'a bq_world \<Rightarrow> bool" where
  none: "push_wait w = [] \<Longrightarrow> signal_push w w"
| one: "x \<in> set (push_wait w) \<Longrightarrow>
    signal_push w (w\<lparr>push_wait := remove1 x (push_wait w), push_ready := x # push_ready w\<rparr>)"

definition push_done :: "'a \<Rightarrow> 'a block_queue \<Rightarrow> 'a bq_world \<Rightarrow> 'a bq_world" where
  "push_done x q w = signal_pop (w\<lparr>bw_q := q, bw_in := bw_in w @ [x]\<rparr>)"

inductive bq_step :: "'a bq_world \<Rightarrow> 'a bq_world \<Rightarrow> bool" where
  push: "bq_push x (bw_q w) = Some q \<Longrightarrow> bq_step w (push_done x q w)"
| push_blocks: "bq_push x (bw_q w) = None \<Longrightarrow> bq_step w (w\<lparr>push_wait := x # push_wait w\<rparr>)"
| push_again: "x \<in> set (push_ready w) \<Longrightarrow> bq_push x (bw_q w) = Some q \<Longrightarrow>
    bq_step w (push_done x q (w\<lparr>push_ready := remove1 x (push_ready w)\<rparr>))"
| push_blocks_again: "x \<in> set (push_ready w) \<Longrightarrow> bq_push x (bw_q w) = None \<Longrightarrow>
    bq_step w (w\<lparr>push_ready := remove1 x (push_ready w), push_wait := x # push_wait w\<rparr>)"
| push_wakes: "x \<in> set (push_wait w) \<Longrightarrow>
    bq_step w (w\<lparr>push_wait := remove1 x (push_wait w), push_ready := x # push_ready w\<rparr>)"
| pop: "bq_pop (bw_q w) = Some (Inr (x, q)) \<Longrightarrow>
    signal_push (w\<lparr>bw_q := q, bw_out := bw_out w @ [x]\<rparr>) w' \<Longrightarrow> bq_step w w'"
| pop_blocks: "bq_pop (bw_q w) = None \<Longrightarrow> bq_step w (w\<lparr>pop_wait := pop_wait w + 1\<rparr>)"
| pop_again: "0 < pop_ready w \<Longrightarrow> bq_pop (bw_q w) = Some (Inr (x, q)) \<Longrightarrow>
    signal_push (w\<lparr>pop_ready := pop_ready w - 1, bw_q := q, bw_out := bw_out w @ [x]\<rparr>) w' \<Longrightarrow>
    bq_step w w'"
| pop_blocks_again: "0 < pop_ready w \<Longrightarrow> bq_pop (bw_q w) = None \<Longrightarrow>
    bq_step w (w\<lparr>pop_ready := pop_ready w - 1, pop_wait := pop_wait w + 1\<rparr>)"
| pop_wakes: "0 < pop_wait w \<Longrightarrow>
    bq_step w (w\<lparr>pop_wait := pop_wait w - 1, pop_ready := pop_ready w + 1\<rparr>)"

inductive_cases signal_pushE: "signal_push w w'"

subsection \<open>Invariants\<close>

definition bq_ok :: "'a block_queue \<Rightarrow> bool" where
  "bq_ok q \<longleftrightarrow> used q = int (length (bq_queue q)) \<and> used q \<le> capacity q"

lemma bq_push_ok:
  "bq_ok q \<Longrightarrow> bq_push x q = Some q' \<Longrightarrow>
    bq_ok q' \<and> bq_queue q' = bq_queue q @ [x] \<and> used q' = used q + 1 \<and> capacity q' = capacity q"
  by (auto simp: bq_ok_def bq_push_def split: if_splits)

lemma bq_pop_ok:
  "bq_ok q \<Longrightarrow> bq_pop q = Some (Inr (x, q')) \<Longrightarrow>
    bq_ok q' \<and> bq_queue q = x # bq_queue q' \<and> used q' = used q - 1 \<and> capacity q' = capacity q"
  by (auto simp: bq_ok_def bq_pop_def split: if_splits list.splits)

lemma bq_pop_defined: "bq_ok q \<Longrightarrow> bq_pop q \<noteq> Some (Inl e)"
  by (auto simp: bq_ok_def bq_pop_def split: list.splits)

text \<open>
  The queue is what was added and not yet taken, and no wake-up is lost: where consumers
  wait, every item has a woken consumer on its way; where producers wait, so has every free
  place.
\<close>

definition bq_inv :: "int \<Rightarrow> 'a bq_world \<Rightarrow> bool" where
  "bq_inv n w \<longleftrightarrow> bq_ok (bw_q w) \<and> capacity (bw_q w) = n \<and> bw_in w = bw_out w @ bq_queue (bw_q w) \<and>
     (0 < pop_wait w \<longrightarrow> used (bw_q w) \<le> int (pop_ready w)) \<and>
     (push_wait w \<noteq> [] \<longrightarrow> n - used (bw_q w) \<le> int (length (push_ready w)))"

lemma bq_inv_push_done:
  assumes "bq_ok (bw_q w)" and "capacity (bw_q w) = n" and "bw_in w = bw_out w @ bq_queue (bw_q w)"
    and "0 < pop_wait w \<longrightarrow> used (bw_q w) \<le> int (pop_ready w)"
    and "push_wait w \<noteq> [] \<longrightarrow> n - used (bw_q w) \<le> int (length (push_ready w)) + 1"
    and "bq_push x (bw_q w) = Some q"
  shows "bq_inv n (push_done x q w)"
  using bq_push_ok [OF assms(1,6)] assms(2-5)
  by (auto simp: bq_inv_def push_done_def signal_pop_def)

lemma bq_inv_pop_done:
  assumes "bq_ok (bw_q w)" and "capacity (bw_q w) = n" and "bw_in w = bw_out w @ bq_queue (bw_q w)"
    and "0 < pop_wait w \<longrightarrow> used (bw_q w) \<le> int (pop_ready w) + 1"
    and "push_wait w \<noteq> [] \<longrightarrow> n - used (bw_q w) \<le> int (length (push_ready w))"
    and "bq_pop (bw_q w) = Some (Inr (x, q))"
    and "signal_push (w\<lparr>bw_q := q, bw_out := bw_out w @ [x]\<rparr>) w'"
  shows "bq_inv n w'"
  using assms(7) bq_pop_ok [OF assms(1,6)] assms(2-5)
  by (cases rule: signal_push.cases) (auto simp: bq_inv_def dest: notin_set_remove1)

lemma bq_inv_step:
  assumes "bq_step w w'" and "bq_inv n w"
  shows "bq_inv n w'"
  using assms(1)
proof (cases rule: bq_step.cases)
  case (push x q)
  with assms(2) show ?thesis
    unfolding push(1) by (intro bq_inv_push_done) (auto simp: bq_inv_def)
next
  case (push_again x q)
  have "int (length (remove1 x (push_ready w))) + 1 = int (length (push_ready w))"
    using length_remove1_int [OF push_again(2)] by simp
  with push_again assms(2) show ?thesis
    unfolding push_again(1) by (intro bq_inv_push_done) (auto simp: bq_inv_def)
next
  case (push_blocks_again x)
  then show ?thesis using assms(2) by (auto simp: bq_inv_def bq_push_def split: if_splits)
next
  case (pop x q)
  then show ?thesis using assms(2) by (intro bq_inv_pop_done [of w n x q]) (auto simp: bq_inv_def)
next
  case (pop_again x q)
  have "bq_inv n w'"
    by (rule bq_inv_pop_done [of "w\<lparr>pop_ready := pop_ready w - 1\<rparr>" n x q])
      (use pop_again assms(2) in \<open>auto simp: bq_inv_def\<close>)
  then show ?thesis .
next
  case (pop_blocks)
  then show ?thesis using assms(2) by (auto simp: bq_inv_def bq_pop_def split: if_splits)
next
  case (pop_blocks_again)
  then show ?thesis using assms(2) by (auto simp: bq_inv_def bq_pop_def split: if_splits)
qed (use assms(2) in \<open>auto simp: bq_inv_def bq_push_def split: if_splits\<close>)

interpretation bq_runs: step_invariant bq_step "bq_inv n" for n
  by unfold_locales (rule bq_inv_step)

lemma bq_inv_new: "0 \<le> n \<Longrightarrow> bq_inv n (new_bq_world n)"
  by (simp add: bq_inv_def bq_ok_def new_bq_world_def new_block_queue_def)

text \<open>
  First in, first out, within the bound. However producers and consumers interleave on a
  queue of capacity \<open>n\<close>, with spurious wake-ups: the items taken are the first items added,
  in the same order; what was added and not taken is in the queue; the counter \<open>used\<close> is its
  length and never exceeds \<open>n\<close>; and no consumer ever takes from an empty deque.
\<close>

lemma block_queue_fifo:
  assumes "0 \<le> n" and "bq_step\<^sup>*\<^sup>* (new_bq_world n) w"
  shows "bw_in w = bw_out w @ bq_queue (bw_q w) \<and> used (bw_q w) = int (length (bq_queue (bw_q w))) \<and>
    used (bw_q w) \<le> n \<and> (\<forall>e. bq_pop (bw_q w) \<noteq> Some (Inl e))"
  using bq_runs.run [OF assms(2) bq_inv_new [OF assms(1)]] bq_pop_defined
  by (auto simp: bq_inv_def bq_ok_def)

text \<open>
  No wake-up is lost. If a consumer sleeps while there are items, then a consumer that
  has been woken is on its way, and a step of it takes an item; if a producer sleeps while
  there is room, then a woken producer is on its way, and a step of it adds its item.
\<close>

lemma block_queue_wakeups:
  assumes "0 \<le> n" and "bq_step\<^sup>*\<^sup>* (new_bq_world n) w"
  shows "(0 < pop_wait w \<and> bq_queue (bw_q w) \<noteq> [] \<longrightarrow>
      0 < pop_ready w \<and> (\<exists>w'. bq_step w w' \<and> bw_out w' = bw_out w @ [hd (bq_queue (bw_q w))])) \<and>
    (push_wait w \<noteq> [] \<and> int (length (bq_queue (bw_q w))) < n \<longrightarrow>
      (\<exists>x w'. x \<in> set (push_ready w) \<and> bq_step w w' \<and> bw_in w' = bw_in w @ [x]))"
proof -
  have inv: "bq_inv n w" by (rule bq_runs.run [OF assms(2) bq_inv_new [OF assms(1)]])
  have "0 < pop_ready w \<and> (\<exists>w'. bq_step w w' \<and> bw_out w' = bw_out w @ [hd (bq_queue (bw_q w))])"
    if sleep: "0 < pop_wait w" "bq_queue (bw_q w) \<noteq> []"
  proof -
    have ready: "0 < pop_ready w"
      using inv sleep by (cases "bq_queue (bw_q w)") (auto simp: bq_inv_def bq_ok_def)
    obtain x xs where q: "bq_queue (bw_q w) = x # xs" using sleep(2) by (cases "bq_queue (bw_q w)") auto
    let ?q = "(bw_q w)\<lparr>bq_queue := xs, used := used (bw_q w) - 1\<rparr>"
    have pop: "bq_pop (bw_q w) = Some (Inr (x, ?q))"
      using inv q by (auto simp: bq_pop_def bq_inv_def bq_ok_def)
    let ?w = "w\<lparr>pop_ready := pop_ready w - 1, bw_q := ?q, bw_out := bw_out w @ [x]\<rparr>"
    obtain w' where sig: "signal_push ?w w'" "bw_out w' = bw_out ?w"
      using signal_push.one [of "hd (push_wait w)" ?w] signal_push.none [of ?w]
      by (cases "push_wait w = []") fastforce+
    from bq_step.pop_again [OF ready pop sig(1)] sig(2) ready q show ?thesis by auto
  qed
  moreover have "\<exists>x w'. x \<in> set (push_ready w) \<and> bq_step w w' \<and> bw_in w' = bw_in w @ [x]"
    if sleep: "push_wait w \<noteq> []" "int (length (bq_queue (bw_q w))) < n"
  proof -
    have "0 < length (push_ready w)"
      using inv sleep by (auto simp: bq_inv_def bq_ok_def)
    then obtain x where x: "x \<in> set (push_ready w)" by (cases "push_ready w") auto
    obtain q where "bq_push x (bw_q w) = Some q"
      using inv sleep(2) by (auto simp: bq_push_def bq_inv_def bq_ok_def)
    from bq_step.push_again [OF x this] x show ?thesis
      by (intro exI [of _ x]) (auto simp: push_done_def signal_pop_def intro!: exI)
  qed
  ultimately show ?thesis by blast
qed

lemma block_queue_fifo_witness:
  "\<exists>w :: nat bq_world. bq_step\<^sup>*\<^sup>* (new_bq_world 1) w \<and> bw_in w = [7] \<and> bw_in w = bw_out w @ bq_queue (bw_q w) \<and>
    used (bw_q w) \<le> (1 :: int)"
proof -
  let ?w0 = "new_bq_world 1 :: nat bq_world"
  let ?q = "\<lparr>bq_queue = [7], used = 1, capacity = 1\<rparr> :: nat block_queue"
  have "bq_push 7 (bw_q ?w0) = Some ?q"
    by (simp add: bq_push_def new_bq_world_def new_block_queue_def)
  then have run: "bq_step\<^sup>*\<^sup>* ?w0 (push_done 7 ?q ?w0)"
    by (intro r_into_rtranclp bq_step.push)
  moreover have "bw_in (push_done 7 ?q ?w0) = [7]"
    by (simp add: push_done_def signal_pop_def new_bq_world_def)
  ultimately show ?thesis
    using block_queue_fifo [OF _ run] by (intro exI [of _ "push_done 7 ?q ?w0"]) simp
qed

lemma block_queue_wakeups_witness:
  "\<exists>w :: nat bq_world. bq_step\<^sup>*\<^sup>* (new_bq_world 2) w \<and> pop_wait w = 1 \<and> bq_queue (bw_q w) = [7] \<and>
    0 < pop_ready w"
proof -
  let ?w0 = "new_bq_world 2 :: nat bq_world"
  let ?w2 = "?w0\<lparr>pop_wait := 2\<rparr>"
  let ?q = "\<lparr>bq_queue = [7], used = 1, capacity = 2\<rparr> :: nat block_queue"
  have "bq_step ?w0 (?w0\<lparr>pop_wait := 1\<rparr>)"
    using bq_step.pop_blocks [of ?w0] by (simp add: bq_pop_def new_bq_world_def new_block_queue_def)
  moreover have "bq_step (?w0\<lparr>pop_wait := 1\<rparr>) ?w2"
    using bq_step.pop_blocks [of "?w0\<lparr>pop_wait := 1\<rparr>"]
    by (simp add: bq_pop_def new_bq_world_def new_block_queue_def numeral_2_eq_2)
  moreover have "bq_step ?w2 (push_done 7 ?q ?w2)"
    by (rule bq_step.push) (simp add: bq_push_def new_bq_world_def new_block_queue_def)
  ultimately have run: "bq_step\<^sup>*\<^sup>* ?w0 (push_done 7 ?q ?w2)"
    by (meson rtranclp.rtrancl_into_rtrancl rtranclp.rtrancl_refl)
  have state: "pop_wait (push_done 7 ?q ?w2) = 1" "bq_queue (bw_q (push_done 7 ?q ?w2)) = [7]"
    by (simp_all add: push_done_def signal_pop_def new_bq_world_def)
  from block_queue_wakeups [OF _ run] state have "0 < pop_ready (push_done 7 ?q ?w2)" by simp
  with run state show ?thesis by blast
qed

end
