(* ===== verification/LogFile.thy ===== *)
theory LogFile
  imports Timestamp BlockQueue
begin

text \<open>
  \<open>base/LogFile.h\<close> and \<open>base/LogFile.cc\<close>: log lines go to a file that is replaced by a new
  one when it has reached its size or the day has changed, either directly or through the
  queue of theory \<open>BlockQueue\<close> and a writer thread. The readings of the clock, \<open>localtime\<close>
  and whether a file can be opened are arguments; \<open>fwrite\<close> writes everything or the
  assertion after it fails.

  A file is the text written to it since it was opened: \<open>lf_text\<close> for the open one,
  \<open>lf_closed\<close> for those before it, with their names.
\<close>

record log_env =
  env_localtime :: "int \<Rightarrow> tm"
  env_can_open :: "string \<Rightarrow> bool"

record log_file =
  basename :: string
  rollSize :: int
  checkEveryN :: int
  asylog :: bool
  writenBytes :: int
  count_lines :: int               \<comment> \<open>\<open>count_\<close>\<close>
  currentDay :: int
  lf_name :: "string option"       \<comment> \<open>the file behind \<open>file_\<close>, if it is not NULL\<close>
  lf_text :: string
  lf_closed :: "(string \<times> string) list"

definition kRollPerSeconds :: int where "kRollPerSeconds = 60 * 60 * 24"

definition getCurrentName :: "log_env \<Rightarrow> int \<Rightarrow> string" where
  "getCurrentName env now =
     (let t = env_localtime env now
      in snprintf 32 (fmt_space 4 (tm_year t + 1900) @ fmt_zero 2 (tm_mon t + 1) @ fmt_zero 2 (tm_mday t) @
        '' '' @ fmt_zero 2 (tm_hour t) @ '':'' @ fmt_zero 2 (tm_min t) @ '':'' @ fmt_zero 2 (tm_sec t) @ ''.log''))"

definition close_file :: "log_file \<Rightarrow> log_file" where
  "close_file lf =
     (case lf_name lf of
        None \<Rightarrow> lf
      | Some f \<Rightarrow> lf\<lparr>lf_closed := lf_closed lf @ [(f, lf_text lf)]\<rparr>)"

definition rollFile :: "log_env \<Rightarrow> int \<Rightarrow> log_file \<Rightarrow> log_file result" where
  "rollFile env now lf =
     (let filename = basename lf @ ''/'' @ getCurrentName env now
      in if env_can_open env filename
         then Inr ((close_file lf)\<lparr>currentDay := now sdiv kRollPerSeconds, count_lines := 0,
           writenBytes := 0, lf_name := Some filename, lf_text := []\<rparr>)
         else Inl (Exit 0))"

text \<open>The constructor; the path of the working directory is put into 128 bytes.\<close>

definition new_log_file ::
    "log_env \<Rightarrow> string \<Rightarrow> string \<Rightarrow> bool \<Rightarrow> int \<Rightarrow> int \<Rightarrow> int \<Rightarrow> log_file result" where
  "new_log_file env cwd log_dir asy limit checkN now =
     (let base = (if log_dir = []
            then if length cwd \<ge> 128 then Inl Uninitialised
                 else if length cwd + length ''/logdir'' \<ge> 128 then Inl Overrun
                 else Inr (cwd @ ''/logdir'')
            else Inr (log_dir @ ''/''))
      in res_bind base (\<lambda>b. rollFile env now
        \<lparr>basename = b, rollSize = limit, checkEveryN = checkN, asylog = asy, writenBytes = 0,
         count_lines = 0, currentDay = 0, lf_name = None, lf_text = [], lf_closed = []\<rparr>))"

text \<open>
  What the direct branch of \<open>append_file\<close> and the body of \<open>asyWrite\<close> have in common. \<open>now\<close> is
  the reading for the day check, \<open>now2\<close> the one inside \<open>rollFile\<close>.
\<close>

definition write_line :: "log_env \<Rightarrow> bool \<Rightarrow> int \<Rightarrow> int \<Rightarrow> string \<Rightarrow> log_file \<Rightarrow> log_file result" where
  "write_line env written now now2 s lf =
     (if \<not> written then Inl Assert_Failed
      else let lf1 = lf\<lparr>lf_text := lf_text lf @ s, writenBytes := writenBytes lf + int (length s)\<rparr>
           in if writenBytes lf1 \<ge> rollSize lf1 then rollFile env now2 lf1
              else if count_lines lf1 \<ge> checkEveryN lf1
                   then if now sdiv kRollPerSeconds \<noteq> currentDay lf1 then rollFile env now2 lf1 else Inr lf1
                   else Inr lf1)"

text \<open>\<open>append_file\<close> without the queue.\<close>

definition append_direct :: "log_env \<Rightarrow> bool \<Rightarrow> int \<Rightarrow> int \<Rightarrow> string \<Rightarrow> log_file \<Rightarrow> log_file result" where
  "append_direct env written now now2 s lf =
     write_line env written now now2 s (lf\<lparr>count_lines := count_lines lf + 1\<rparr>)"

subsection \<open>The asynchronous log\<close>

datatype writer_pc = At_Loop | At_Pop | Writer_Done

record log_world =
  lw_file :: log_file
  lw_q :: "string block_queue"
  lw_over :: bool
  lw_pc :: writer_pc
  lw_in :: "string list"
  lw_out :: "string list"

definition new_log_world :: "int \<Rightarrow> log_file \<Rightarrow> log_world" where
  "new_log_world n lf = \<lparr>lw_file = lf, lw_q = new_block_queue n, lw_over = False, lw_pc = At_Loop,
     lw_in = [], lw_out = []\<rparr>"

text \<open>
  \<open>append\<close> is \<open>append_file\<close> with the queue, and the second half of \<open>setOver\<close> with an empty
  string; a full queue makes the caller wait. \<open>flush\<close> is the body of the loop of \<open>asyWrite\<close>.
\<close>

inductive log_step :: "log_env \<Rightarrow> log_world \<Rightarrow> log_world \<Rightarrow> bool" for env where
  append: "bq_push s (lw_q w) = Some q \<Longrightarrow>
    log_step env w (w\<lparr>lw_q := q, lw_in := lw_in w @ [s]\<rparr>)"
| set_over: "log_step env w (w\<lparr>lw_over := flag\<rparr>)"
| test: "lw_pc w = At_Loop \<Longrightarrow>
    log_step env w (w\<lparr>lw_pc := (if lw_over w then Writer_Done else At_Pop)\<rparr>)"
| flush: "lw_pc w = At_Pop \<Longrightarrow> bq_pop (lw_q w) = Some (Inr (s, q)) \<Longrightarrow>
    write_line env True now now2 s (lw_file w) = Inr lf \<Longrightarrow>
    log_step env w (w\<lparr>lw_q := q, lw_file := lf, lw_pc := At_Loop, lw_out := lw_out w @ [s]\<rparr>)"

subsection \<open>What a file holds\<close>

definition all_text :: "log_file \<Rightarrow> string" where
  "all_text lf = concat (map snd (lf_closed lf)) @ lf_text lf"

definition lf_ok :: "log_file \<Rightarrow> bool" where
  "lf_ok lf \<longleftrightarrow> lf_name lf \<noteq> None \<and> writenBytes lf = int (length (lf_text lf)) \<and>
     writenBytes lf < rollSize lf"

lemma rollFile_ok:
  assumes "rollFile env now lf = Inr lf'" and "0 < rollSize lf" and "lf_name lf \<noteq> None"
  shows "lf_ok lf' \<and> all_text lf' = all_text lf \<and> rollSize lf' = rollSize lf \<and>
    checkEveryN lf' = checkEveryN lf \<and> count_lines lf' = 0 \<and>
    (\<exists>f. lf_closed lf' = lf_closed lf @ [(f, lf_text lf)])"
  using assms
  by (auto simp: rollFile_def Let_def close_file_def lf_ok_def all_text_def split: if_splits)

lemma write_line_ok:
  assumes "write_line env written now now2 s lf = Inr lf'" and "lf_ok lf"
  shows "lf_ok lf' \<and> all_text lf' = all_text lf @ s \<and> rollSize lf' = rollSize lf \<and>
    checkEveryN lf' = checkEveryN lf \<and> (count_lines lf' = count_lines lf \<or> count_lines lf' = 0) \<and>
    (lf_closed lf' = lf_closed lf \<or>
      (\<exists>f t. lf_closed lf' = lf_closed lf @ [(f, t)] \<and>
        (rollSize lf \<le> int (length t) \<or> checkEveryN lf \<le> count_lines lf)))"
proof -
  let ?lf1 = "lf\<lparr>lf_text := lf_text lf @ s, writenBytes := writenBytes lf + int (length s)\<rparr>"
  have limit: "0 < rollSize ?lf1" and name: "lf_name ?lf1 \<noteq> None"
    using assms(2) by (auto simp: lf_ok_def)
  let ?roll = "rollSize lf \<le> writenBytes lf + int (length s) \<or>
    checkEveryN lf \<le> count_lines lf \<and> now sdiv kRollPerSeconds \<noteq> currentDay lf"
  have step: "(if ?roll then rollFile env now2 ?lf1 else Inr ?lf1) = Inr lf'"
    using assms(1) by (simp add: write_line_def Let_def split: if_splits)
  show ?thesis
  proof (cases ?roll)
    case True
    then have why: "rollSize lf \<le> int (length (lf_text ?lf1)) \<or> checkEveryN lf \<le> count_lines lf"
      using assms(2) by (auto simp: lf_ok_def)
    have "rollFile env now2 ?lf1 = Inr lf'" using step True by simp
    note rolled = rollFile_ok [OF this limit name]
    then obtain f where "lf_closed lf' = lf_closed lf @ [(f, lf_text ?lf1)]" by auto
    with why have "\<exists>f t. lf_closed lf' = lf_closed lf @ [(f, t)] \<and>
        (rollSize lf \<le> int (length t) \<or> checkEveryN lf \<le> count_lines lf)"
      by blast
    then show ?thesis using rolled by (simp add: all_text_def)
  next
    case False
    with step have "lf' = ?lf1" by simp
    with False assms(2) show ?thesis by (simp add: lf_ok_def all_text_def)
  qed
qed

lemma new_log_file_ok:
  assumes "new_log_file env cwd log_dir asy limit checkN now = Inr lf" and "0 < limit"
  shows "lf_ok lf \<and> all_text lf = [] \<and> rollSize lf = limit \<and> checkEveryN lf = checkN \<and>
    count_lines lf = 0 \<and> lf_closed lf = []"
  using assms
  by (auto simp: new_log_file_def Let_def res_simps rollFile_def close_file_def lf_ok_def all_text_def
    split: if_splits)

lemma append_direct_ok:
  assumes "append_direct env True now now2 s lf = Inr lf'" and "lf_ok lf"
  shows "lf_ok lf' \<and> all_text lf' = all_text lf @ s \<and> rollSize lf' = rollSize lf"
proof -
  have "lf_ok (lf\<lparr>count_lines := count_lines lf + 1\<rparr>)" using assms(2) by (simp add: lf_ok_def)
  from write_line_ok [OF assms(1) [unfolded append_direct_def] this] show ?thesis by (simp add: all_text_def)
qed

text \<open>
  The direct log loses nothing. Open a log and append any lines; if no write fails, the
  texts of all files, in the order they were opened, concatenate to exactly the lines
  appended. The counter of written bytes is the length of the open file, which is always
  below the roll size.
\<close>

lemma log_append_lossless:
  assumes "new_log_file env cwd log_dir False limit checkN now0 = Inr lf0" and "0 < limit"
    and "foldl (\<lambda>r (s, now, now2). res_bind r (append_direct env True now now2 s)) (Inr lf0) entries = Inr lf"
  shows "concat (map snd (lf_closed lf)) @ lf_text lf = concat (map fst entries) \<and>
    writenBytes lf = int (length (lf_text lf)) \<and> writenBytes lf < limit"
proof -
  have "lf_ok lf \<and> all_text lf = concat (map fst entries) \<and> rollSize lf = limit"
    using assms(3)
  proof (induction entries arbitrary: lf rule: rev_induct)
    case Nil
    then show ?case using new_log_file_ok [OF assms(1,2)] by simp
  next
    case (snoc e es)
    obtain s now now2 where e: "e = (s, now, now2)" by (cases e)
    obtain lf1 where "foldl (\<lambda>r (s, now, now2). res_bind r (append_direct env True now now2 s))
          (Inr lf0) es = Inr lf1" "append_direct env True now now2 s lf1 = Inr lf"
      using snoc.prems by (auto simp: e res_simps)
    with snoc.IH [OF this(1)] append_direct_ok [OF this(2)] show ?case by (simp add: e)
  qed
  then show ?thesis by (simp add: all_text_def lf_ok_def)
qed

definition demo_log_env :: log_env where
  "demo_log_env = \<lparr>env_localtime = (\<lambda>_. \<lparr>tm_year = 124, tm_mon = 0, tm_mday = 2, tm_hour = 3,
     tm_min = 4, tm_sec = 5\<rparr>), env_can_open = (\<lambda>_. True)\<rparr>"

lemma log_append_lossless_witness:
  "\<exists>lf0 lf. new_log_file demo_log_env ''/srv'' [] False 4 9 100 = Inr lf0 \<and>
    foldl (\<lambda>r (s, now, now2). res_bind r (append_direct demo_log_env True now now2 s)) (Inr lf0)
      [(''abc'', 100, 100), (''de'', 101, 101), (''f'', 102, 102)] = Inr lf \<and>
    concat (map snd (lf_closed lf)) @ lf_text lf = ''abcdef'' \<and> lf_text lf = ''f''"
proof -
  obtain lf0 where lf0: "new_log_file demo_log_env ''/srv'' [] False 4 9 100 = Inr lf0"
    by (simp add: new_log_file_def rollFile_def demo_log_env_def close_file_def)
  obtain lf where lf: "foldl (\<lambda>r (s, now, now2). res_bind r (append_direct demo_log_env True now now2 s))
      (Inr lf0) [(''abc'', 100, 100), (''de'', 101, 101), (''f'', 102, 102)] = Inr lf" "lf_text lf = ''f''"
    using lf0 by (auto simp: new_log_file_def rollFile_def demo_log_env_def close_file_def
      append_direct_def write_line_def)
  from log_append_lossless [OF lf0 _ lf(1)] lf0 lf show ?thesis by simp
qed

text \<open>The asynchronous log: order, and the reasons for opening a new file.\<close>

definition log_inv :: "log_world \<Rightarrow> bool" where
  "log_inv w \<longleftrightarrow> bq_ok (lw_q w) \<and> lw_in w = lw_out w @ bq_queue (lw_q w) \<and> lf_ok (lw_file w) \<and>
     all_text (lw_file w) = concat (lw_out w) \<and> count_lines (lw_file w) = 0 \<and>
     0 < checkEveryN (lw_file w) \<and>
     (\<forall>(f, t) \<in> set (lf_closed (lw_file w)). rollSize (lw_file w) \<le> int (length t))"

lemma log_inv_step:
  assumes "log_step env w w'" and "log_inv w"
  shows "log_inv w'"
  using assms(1)
proof (cases rule: log_step.cases)
  case (append s q)
  with assms(2) bq_push_ok [of "lw_q w" s q] show ?thesis by (auto simp: log_inv_def)
next
  case (flush s q now now2 lf)
  have "lf_ok (lw_file w)" "bq_ok (lw_q w)" using assms(2) by (simp_all add: log_inv_def)
  with write_line_ok [OF flush(4)] bq_pop_ok [OF _ flush(3)] flush(1) assms(2)
  show ?thesis by (auto simp: log_inv_def)
qed (use assms(2) in \<open>simp_all add: log_inv_def\<close>)

interpretation log_runs: step_invariant "log_step env" log_inv for env
  by unfold_locales (rule log_inv_step)

lemma log_inv_new:
  "new_log_file env cwd log_dir True limit checkN now0 = Inr lf0 \<Longrightarrow> 0 < limit \<Longrightarrow> 0 < checkN \<Longrightarrow>
    0 \<le> n \<Longrightarrow> log_inv (new_log_world n lf0)"
  using new_log_file_ok [of env cwd log_dir True limit checkN now0 lf0]
  by (simp add: log_inv_def new_log_world_def new_block_queue_def bq_ok_def)

text \<open>
  The asynchronous log writes the lines in the order they were queued, each once; what
  it has not written is still in the queue. But it opens a new file only for size: since the
  writer does not count lines, the check for a new day is never made, and every file it
  closes has reached the roll size.
\<close>

lemma log_async_order:
  assumes "new_log_file env cwd log_dir True limit checkN now0 = Inr lf0"
    and "0 < limit" and "0 < checkN" and "0 \<le> n"
    and "(log_step env)\<^sup>*\<^sup>* (new_log_world n lf0) w"
  shows "lw_in w = lw_out w @ bq_queue (lw_q w) \<and>
    concat (map snd (lf_closed (lw_file w))) @ lf_text (lw_file w) = concat (lw_out w) \<and>
    (\<forall>(f, t) \<in> set (lf_closed (lw_file w)). rollSize (lw_file w) \<le> int (length t))"
  using log_runs.run [OF assms(5) log_inv_new [OF assms(1-4)]] by (simp add: log_inv_def all_text_def)

lemma log_async_order_witness:
  "\<exists>lf0 w. new_log_file demo_log_env ''/srv'' [] True 4 9 100 = Inr lf0 \<and>
    (log_step demo_log_env)\<^sup>*\<^sup>* (new_log_world 50000 lf0) w \<and> lw_in w = [''abcde''] \<and>
    lw_in w = lw_out w @ bq_queue (lw_q w)"
proof -
  obtain lf0 where lf0: "new_log_file demo_log_env ''/srv'' [] True 4 9 100 = Inr lf0"
    by (simp add: new_log_file_def rollFile_def demo_log_env_def close_file_def)
  let ?w0 = "new_log_world 50000 lf0"
  let ?w1 = "?w0\<lparr>lw_q := \<lparr>bq_queue = [''abcde''], used = 1, capacity = 50000\<rparr>,
    lw_in := lw_in ?w0 @ [''abcde'']\<rparr>"
  have "log_step demo_log_env ?w0 ?w1"
    by (rule log_step.append) (simp add: bq_push_def new_log_world_def new_block_queue_def)
  then have run: "(log_step demo_log_env)\<^sup>*\<^sup>* ?w0 ?w1" by (rule r_into_rtranclp)
  have "lw_in ?w1 = [''abcde'']" by (simp add: new_log_world_def)
  moreover have "lw_in ?w1 = lw_out ?w1 @ bq_queue (lw_q ?w1)"
    using log_async_order [OF lf0 _ _ _ run] by simp
  ultimately show ?thesis using lf0 run by blast
qed

text \<open>
  Lines queued before the log is ended can be lost. There is a run in which a line is
  queued, \<open>join\<close> sets the flag and queues its empty string, and the writer, seeing the flag
  before it looks at the queue, ends with the line unwritten.
\<close>

lemma log_async_drops:
  "\<exists>w. (log_step env)\<^sup>*\<^sup>* (new_log_world 50000 lf0) w \<and> lw_pc w = Writer_Done \<and>
    lw_in w = [s, []] \<and> bq_queue (lw_q w) = [s, []] \<and> lw_out w = []"
proof -
  let ?w0 = "new_log_world 50000 lf0"
  let ?q1 = "\<lparr>bq_queue = [s], used = 1, capacity = 50000\<rparr>"
  let ?q2 = "\<lparr>bq_queue = [s, []], used = 2, capacity = 50000\<rparr>"
  let ?w1 = "?w0\<lparr>lw_q := ?q1, lw_in := lw_in ?w0 @ [s]\<rparr>"
  let ?w2 = "?w1\<lparr>lw_over := True\<rparr>"
  let ?w3 = "?w2\<lparr>lw_q := ?q2, lw_in := lw_in ?w2 @ [[]]\<rparr>"
  let ?w4 = "?w3\<lparr>lw_pc := Writer_Done\<rparr>"
  have "log_step env ?w0 ?w1"
    by (rule log_step.append) (simp add: bq_push_def new_log_world_def new_block_queue_def)
  moreover have "log_step env ?w1 ?w2" by (rule log_step.set_over)
  moreover have "log_step env ?w2 ?w3" by (rule log_step.append) (simp add: bq_push_def)
  moreover have "log_step env ?w3 ?w4"
    using log_step.test [of ?w3 env] by (simp add: new_log_world_def)
  ultimately have run: "(log_step env)\<^sup>*\<^sup>* ?w0 ?w4"
    by (meson rtranclp.rtrancl_into_rtrancl rtranclp.rtrancl_refl)
  have "lw_pc ?w4 = Writer_Done \<and> lw_in ?w4 = [s, []] \<and> bq_queue (lw_q ?w4) = [s, []] \<and> lw_out ?w4 = []"
    by (simp add: new_log_world_def)
  with run show ?thesis by (intro exI [of _ ?w4] conjI) simp_all
qed

end
