(* ===== verification/Logging.thy ===== *)
theory Logging
  imports Logger LogFile
begin

text \<open>
  The logger and the log file together: the globals of \<open>base/Logger.cc\<close>, which decide whether a
  statement is output and where to, and \<open>LogFile::append_file\<close> as the output function, which
  writes the line or queues it.
\<close>

datatype output_func = Default_Output | File_Output

record log_globals =
  g_logLevel :: log_level
  log_t :: bool
  g_output :: output_func

definition initLogLevel :: log_level where "initLogLevel = INFO"

definition init_globals :: log_globals where
  "init_globals = \<lparr>g_logLevel = initLogLevel, log_t = True, g_output = Default_Output\<rparr>"

definition setLogLevel :: "log_level \<Rightarrow> log_globals \<Rightarrow> log_globals" where
  "setLogLevel level g = g\<lparr>g_logLevel := level\<rparr>"

definition setOuputFunc :: "output_func \<Rightarrow> log_globals \<Rightarrow> log_globals" where
  "setOuputFunc f g = g\<lparr>g_output := f\<rparr>"

definition getLogLevel :: "log_globals \<Rightarrow> log_level" where
  "getLogLevel g = g_logLevel g"

record log_state =
  ls_globals :: log_globals
  ls_file :: log_file
  ls_queue :: "string block_queue"
  ls_stdout :: string

text \<open>\<open>None\<close>: the queue is full and the thread waits.\<close>

definition append_file :: "log_env \<Rightarrow> int \<Rightarrow> int \<Rightarrow> string \<Rightarrow> log_state \<Rightarrow> log_state result option" where
  "append_file env now now2 s w =
     (if asylog (ls_file w)
      then map_option (\<lambda>q. Inr (w\<lparr>ls_queue := q\<rparr>)) (bq_push s (ls_queue w))
      else Some (res_map (\<lambda>lf. w\<lparr>ls_file := lf\<rparr>) (append_direct env True now now2 s (ls_file w))))"

definition defaultOutput :: "string \<Rightarrow> log_state \<Rightarrow> log_state" where
  "defaultOutput s w = w\<lparr>ls_stdout := ls_stdout w @ s\<rparr>"

text \<open>A statement of the program, with what the clock and the thread say when it runs.\<close>

record log_stm =
  st_tm :: tm
  st_usec :: int
  st_tid :: int
  st_file :: string
  st_line :: int
  st_level :: log_level
  st_msg :: string
  st_now :: int
  st_now2 :: int

definition log_call :: "log_env \<Rightarrow> log_stm \<Rightarrow> log_state \<Rightarrow> log_state result option" where
  "log_call env st w =
     (case log_statement (g_logLevel (ls_globals w)) (log_t (ls_globals w)) (st_tm st) (st_usec st)
         (st_tid st) (st_file st) (st_line st) (st_level st) (st_msg st) of
        Inl e \<Rightarrow> Some (Inl e)
      | Inr None \<Rightarrow> Some (Inr w)
      | Inr (Some s) \<Rightarrow>
          (case g_output (ls_globals w) of
             Default_Output \<Rightarrow> Some (Inr (defaultOutput s w))
           | File_Output \<Rightarrow> append_file env (st_now st) (st_now2 st) s w))"

fun log_run :: "log_env \<Rightarrow> log_stm list \<Rightarrow> log_state \<Rightarrow> log_state result option" where
  "log_run env [] w = Some (Inr w)"
| "log_run env (st # sts) w =
     (case log_call env st w of Some (Inr w1) \<Rightarrow> log_run env sts w1 | r \<Rightarrow> r)"

subsection \<open>What reaches the log\<close>

definition st_enabled :: "log_globals \<Rightarrow> log_stm \<Rightarrow> bool" where
  "st_enabled g st \<longleftrightarrow> level_value (g_logLevel g) \<le> level_value (st_level st) \<and> log_t g"

definition st_text :: "log_stm \<Rightarrow> string" where
  "st_text st = log_text (st_tm st) (st_usec st) (st_tid st) (st_file st) (st_line st) (st_level st) (st_msg st)"

definition st_fits :: "log_stm \<Rightarrow> bool" where
  "st_fits st \<longleftrightarrow> length (st_file st) < 128 \<and> int_min \<le> st_line st \<and> st_line st \<le> int_max \<and>
     length (st_text st) < 1024"

lemma log_call_eq:
  assumes "st_fits st"
  shows "log_call env st w =
    (if \<not> st_enabled (ls_globals w) st then Some (Inr w)
     else case g_output (ls_globals w) of
         Default_Output \<Rightarrow> Some (Inr (defaultOutput (st_text st) w))
       | File_Output \<Rightarrow> append_file env (st_now st) (st_now2 st) (st_text st) w)"
proof -
  have "log_statement (g_logLevel (ls_globals w)) (log_t (ls_globals w)) (st_tm st) (st_usec st)
      (st_tid st) (st_file st) (st_line st) (st_level st) (st_msg st) =
    (if \<not> st_enabled (ls_globals w) st then Inr None else Inr (Some (st_text st)))"
    using assms log_statement_eq [of "st_file st" "st_line st" "g_logLevel (ls_globals w)"]
    by (simp add: st_fits_def st_enabled_def st_text_def log_text_def)
  then show ?thesis by (simp add: log_call_def)
qed

definition logged :: "log_globals \<Rightarrow> log_stm list \<Rightarrow> string list" where
  "logged g sts = map st_text (filter (st_enabled g) sts)"

lemma append_file_ok:
  assumes "append_file env now now2 s w = Some (Inr w')" and "lf_ok (ls_file w)"
  shows "lf_ok (ls_file w') \<and> ls_globals w' = ls_globals w \<and> ls_stdout w' = ls_stdout w \<and>
    asylog (ls_file w') = asylog (ls_file w) \<and> rollSize (ls_file w') = rollSize (ls_file w) \<and>
    (if asylog (ls_file w) then bq_queue (ls_queue w') = bq_queue (ls_queue w) @ [s] \<and> ls_file w' = ls_file w
     else all_text (ls_file w') = all_text (ls_file w) @ s \<and> ls_queue w' = ls_queue w)"
proof (cases "asylog (ls_file w)")
  case True
  then show ?thesis
    using assms by (auto simp: append_file_def bq_push_def split: if_splits)
next
  case False
  then obtain lf where lf: "append_direct env True now now2 s (ls_file w) = Inr lf" "w' = w\<lparr>ls_file := lf\<rparr>"
    using assms(1) by (auto simp: append_file_def res_simps)
  have "asylog lf = asylog (ls_file w)"
    using lf(1) by (auto simp: append_direct_def write_line_def rollFile_def close_file_def Let_def
      split: if_splits option.splits)
  with append_direct_ok [OF lf(1) assms(2)] False show ?thesis by (simp add: lf(2))
qed

lemma log_run_file:
  assumes "log_run env sts w = Some (Inr w')" and "\<forall>st \<in> set sts. st_fits st"
    and "g_output (ls_globals w) = File_Output" and "lf_ok (ls_file w)"
  shows "ls_stdout w' = ls_stdout w \<and> lf_ok (ls_file w') \<and> rollSize (ls_file w') = rollSize (ls_file w) \<and>
    (if asylog (ls_file w)
     then bq_queue (ls_queue w') = bq_queue (ls_queue w) @ logged (ls_globals w) sts \<and> ls_file w' = ls_file w
     else all_text (ls_file w') = all_text (ls_file w) @ concat (logged (ls_globals w) sts) \<and> ls_queue w' = ls_queue w)"
  using assms
proof (induction sts arbitrary: w)
  case (Cons st sts)
  then obtain w1 where w1: "log_call env st w = Some (Inr w1)" "log_run env sts w1 = Some (Inr w')"
    by (auto split: option.splits sum.splits)
  show ?case
  proof (cases "st_enabled (ls_globals w) st")
    case False
    then have "w1 = w" using w1(1) Cons.prems(2) by (simp add: log_call_eq)
    with Cons.IH [of w] Cons.prems w1(2) False show ?thesis by (simp add: logged_def)
  next
    case True
    then have "append_file env (st_now st) (st_now2 st) (st_text st) w = Some (Inr w1)"
      using w1(1) Cons.prems(2,3) by (simp add: log_call_eq)
    note a = append_file_ok [OF this Cons.prems(4)]
    with Cons.IH [OF w1(2)] Cons.prems(2,3) True show ?thesis
      by (auto simp: logged_def split: if_splits)
  qed
qed (simp add: logged_def)

text \<open>
  C13: from the statements to the log. Open a log file, make it the output function, and run any
  log statements that fit the line buffer, with any level set. Exactly the statements of that
  level or above are logged, each as its one line, in the order they ran: in direct mode the
  texts of the files, oldest first, are those lines and nothing else, and the count of written
  bytes is the length of the open file, which is below the roll size; in asynchronous mode the
  lines are in the queue and no file is touched. Nothing goes to the standard output.
\<close>

theorem log_pipeline:
  assumes "new_log_file env cwd log_dir asy limit checkN now0 = Inr lf0" and "0 < limit"
    and "log_run env sts \<lparr>ls_globals = setOuputFunc File_Output (setLogLevel level init_globals),
      ls_file = lf0, ls_queue = new_block_queue n, ls_stdout = []\<rparr> = Some (Inr w)"
    and "\<forall>st \<in> set sts. st_fits st"
  shows "(let lines = map st_text (filter (\<lambda>st. level_value level \<le> level_value (st_level st)) sts)
    in (if asy then bq_queue (ls_queue w) = lines \<and> ls_file w = lf0
        else concat (map snd (lf_closed (ls_file w))) @ lf_text (ls_file w) = concat lines \<and>
          bq_queue (ls_queue w) = [] \<and> writenBytes (ls_file w) = int (length (lf_text (ls_file w))) \<and>
          writenBytes (ls_file w) < limit) \<and> ls_stdout w = [])"
proof -
  let ?g = "setOuputFunc File_Output (setLogLevel level init_globals)"
  have "asylog lf0 = asy"
    using assms(1) by (auto simp: new_log_file_def rollFile_def close_file_def res_simps Let_def split: if_splits)
  moreover have "lf_ok lf0 \<and> all_text lf0 = [] \<and> rollSize lf0 = limit" using new_log_file_ok [OF assms(1,2)] by simp
  moreover have "g_output ?g = File_Output" by (simp add: setOuputFunc_def)
  moreover have "logged ?g sts = map st_text (filter (\<lambda>st. level_value level \<le> level_value (st_level st)) sts)"
    by (simp add: logged_def st_enabled_def [abs_def] setOuputFunc_def setLogLevel_def init_globals_def)
  ultimately show ?thesis
    using log_run_file [OF assms(3,4)] by (auto simp: Let_def all_text_def lf_ok_def new_block_queue_def)
qed

definition demo_stm :: "log_level \<Rightarrow> string \<Rightarrow> log_stm" where
  "demo_stm level msg = \<lparr>st_tm = env_localtime demo_log_env 0, st_usec = 6, st_tid = 7, st_file = ''x.cc'',
     st_line = 8, st_level = level, st_msg = msg, st_now = 100, st_now2 = 100\<rparr>"

theorem log_pipeline_witness:
  "\<exists>lf0 w. new_log_file demo_log_env ''/srv'' [] False 4000 9 100 = Inr lf0 \<and>
    log_run demo_log_env [demo_stm INFO ''a'', demo_stm ERROR ''b'']
      \<lparr>ls_globals = setOuputFunc File_Output (setLogLevel ERROR init_globals), ls_file = lf0,
       ls_queue = new_block_queue 5, ls_stdout = []\<rparr> = Some (Inr w) \<and>
    concat (map snd (lf_closed (ls_file w))) @ lf_text (ls_file w) = st_text (demo_stm ERROR ''b'')"
proof -
  let ?sts = "[demo_stm INFO ''a'', demo_stm ERROR ''b'']"
  obtain lf0 where lf0: "new_log_file demo_log_env ''/srv'' [] False 4000 9 100 = Inr lf0" "\<not> asylog lf0"
      "rollSize lf0 = 4000" "writenBytes lf0 = 0" "count_lines lf0 = 0" "checkEveryN lf0 = 9"
    by (simp add: new_log_file_def rollFile_def demo_log_env_def close_file_def)
  let ?w0 = "\<lparr>ls_globals = setOuputFunc File_Output (setLogLevel ERROR init_globals), ls_file = lf0,
       ls_queue = new_block_queue 5, ls_stdout = []\<rparr>"
  have "list_all (\<lambda>st. length (st_file st) < 128 \<and> length (st_text st) < 1024) ?sts" by code_simp
  then have fits: "\<forall>st \<in> set ?sts. st_fits st" and short: "length (st_text (demo_stm ERROR ''b'')) < 1024"
    by (simp_all add: st_fits_def demo_stm_def)
  have "log_call demo_log_env (demo_stm INFO ''a'') ?w0 = Some (Inr ?w0)"
    using fits by (simp add: log_call_eq st_enabled_def setOuputFunc_def setLogLevel_def init_globals_def demo_stm_def)
  moreover have "\<exists>w. log_call demo_log_env (demo_stm ERROR ''b'') ?w0 = Some (Inr w)"
    using fits short lf0(2-) by (simp add: log_call_eq st_enabled_def setOuputFunc_def setLogLevel_def
      init_globals_def append_file_def append_direct_def write_line_def Let_def)
  ultimately obtain w where w: "log_run demo_log_env ?sts ?w0 = Some (Inr w)" by auto
  have level: "st_level (demo_stm l m) = l" for l m by (simp add: demo_stm_def)
  have "concat (map snd (lf_closed (ls_file w))) @ lf_text (ls_file w) = st_text (demo_stm ERROR ''b'')"
    using log_pipeline [OF lf0(1) _ w fits] by (simp add: Let_def level)
  with lf0(1) w show ?thesis by blast
qed

end
