(* ===== verification/ThreadStart.thy ===== *)
theory ThreadStart
  imports Prelude
begin

text \<open>
  \<open>base/Thread.h\<close> and \<open>base/Thread.cc\<close>: \<open>start\<close> creates a thread and waits until it runs,
  \<open>join\<close> waits for its end. The handshake of \<open>start\<close> is a step relation over the two
  threads. The new thread increments the counter and signals without taking the mutex, so
  both can happen between the test of the counter and the wait; these are separate steps.
\<close>

datatype parent_pc = Before | Test | Decided | Waiting | Returned
datatype child_pc = Absent | Created | Counted | Signalled

record thread =
  th_started :: bool
  th_joined :: bool
  th_detached :: bool
  cond_num :: int
  parent :: parent_pc
  child :: child_pc

definition new_thread :: "bool \<Rightarrow> thread" where
  "new_thread detach = \<lparr>th_started = False, th_joined = False, th_detached = detach, cond_num = 0,
     parent = Before, child = Absent\<rparr>"

text \<open>The part of \<open>start\<close> up to the lock: the assertion, and \<open>pthread_create\<close>.\<close>

definition start_begin :: "thread \<Rightarrow> thread result" where
  "start_begin t =
     (if th_started t then Inl Assert_Failed
      else Inr (t\<lparr>th_started := True, parent := Test, child := Created\<rparr>))"

text \<open>The loop of \<open>start\<close>, with the mutex held: one test of the counter.\<close>

definition start_test :: "thread \<Rightarrow> thread" where
  "start_test t = t\<lparr>parent := (if cond_num t = 0 then Decided else Returned)\<rparr>"

text \<open>\<open>ThreadData::run\<close> up to the call of the function.\<close>

definition run_count :: "thread \<Rightarrow> thread" where
  "run_count t = t\<lparr>cond_num := cond_num t + 1, child := Counted\<rparr>"

definition run_signal :: "thread \<Rightarrow> thread" where
  "run_signal t = t\<lparr>child := Signalled, parent := (if parent t = Waiting then Test else parent t)\<rparr>"

definition thread_join :: "thread \<Rightarrow> thread result" where
  "thread_join t =
     (if \<not> th_started t \<or> th_joined t \<or> th_detached t then Inl Assert_Failed
      else Inr (t\<lparr>th_joined := True\<rparr>))"

text \<open>Without spurious wake-ups.\<close>

inductive thread_step :: "thread \<Rightarrow> thread \<Rightarrow> bool" where
  create: "parent t = Before \<Longrightarrow> start_begin t = Inr t' \<Longrightarrow> thread_step t t'"
| test: "parent t = Test \<Longrightarrow> thread_step t (start_test t)"
| sleep: "parent t = Decided \<Longrightarrow> thread_step t (t\<lparr>parent := Waiting\<rparr>)"
| count: "child t = Created \<Longrightarrow> thread_step t (run_count t)"
| signal: "child t = Counted \<Longrightarrow> thread_step t (run_signal t)"

lemmas thread_ops = start_begin_def start_test_def run_count_def run_signal_def

definition thread_inv :: "thread \<Rightarrow> bool" where
  "thread_inv t \<longleftrightarrow> cond_num t = (if child t = Counted \<or> child t = Signalled then 1 else 0) \<and>
     (parent t = Before \<longleftrightarrow> child t = Absent) \<and> (th_started t \<longleftrightarrow> parent t \<noteq> Before) \<and>
     (parent t = Returned \<longrightarrow> cond_num t = 1)"

lemma thread_inv_step: "thread_step t t' \<Longrightarrow> thread_inv t \<Longrightarrow> thread_inv t'"
  by (induction rule: thread_step.induct) (auto simp: thread_inv_def thread_ops split: if_splits)

interpretation thread_runs: step_invariant thread_step thread_inv
  by unfold_locales (rule thread_inv_step)

text \<open>
  \<open>start\<close> returns only when the new thread is running: it has then counted itself, exactly
  once. A second \<open>start\<close> of the same object fails its assertion.
\<close>

lemma thread_start_returns:
  assumes "thread_step\<^sup>*\<^sup>* (new_thread detach) t" and "parent t = Returned"
  shows "cond_num t = 1 \<and> (child t = Counted \<or> child t = Signalled) \<and> th_started t \<and>
    start_begin t = Inl Assert_Failed"
proof -
  have "thread_inv (new_thread detach)"
    by (simp add: thread_inv_def new_thread_def)
  from thread_runs.run [OF assms(1) this] assms(2) show ?thesis
    by (auto simp: thread_inv_def thread_ops split: if_splits)
qed

text \<open>A run in which the new thread is late, and the parent sleeps before it counts.\<close>

lemma thread_run_good:
  "\<exists>t. thread_step\<^sup>*\<^sup>* (new_thread False) t \<and> parent t = Returned"
proof -
  let ?t0 = "new_thread False"
  let ?t1 = "?t0\<lparr>th_started := True, parent := Test, child := Created\<rparr>"
  let ?t2 = "run_count ?t1"
  have "thread_step ?t0 ?t1"
    by (rule thread_step.create) (simp_all add: thread_ops new_thread_def)
  moreover have "thread_step ?t1 ?t2" by (rule thread_step.count) simp
  moreover have "thread_step ?t2 (start_test ?t2)" by (rule thread_step.test) (simp add: thread_ops)
  ultimately have "thread_step\<^sup>*\<^sup>* ?t0 (start_test ?t2)"
    by (meson rtranclp.rtrancl_into_rtrancl rtranclp.rtrancl_refl)
  moreover have "parent (start_test ?t2) = Returned" by (simp add: thread_ops new_thread_def)
  ultimately show ?thesis by blast
qed

lemma thread_start_returns_witness:
  "\<exists>t. thread_step\<^sup>*\<^sup>* (new_thread False) t \<and> parent t = Returned \<and> cond_num t = 1"
proof -
  obtain t where t: "thread_step\<^sup>*\<^sup>* (new_thread False) t" "parent t = Returned"
    using thread_run_good by blast
  from thread_start_returns [OF t] t show ?thesis by blast
qed

text \<open>
  \<open>start\<close> can hang. There is a run in which the new thread counts itself and signals after
  the parent has seen a zero counter and before it waits: the signal is lost, the parent
  waits although the counter is one, and no step is left that could wake it.
\<close>

lemma thread_start_hangs:
  "\<exists>t. thread_step\<^sup>*\<^sup>* (new_thread detach) t \<and> parent t = Waiting \<and> cond_num t = 1 \<and>
    child t = Signalled \<and> (\<forall>t'. \<not> thread_step t t')"
proof -
  let ?t0 = "new_thread detach"
  let ?t1 = "?t0\<lparr>th_started := True, parent := Test, child := Created\<rparr>"
  let ?t2 = "start_test ?t1"
  let ?t3 = "run_count ?t2"
  let ?t4 = "run_signal ?t3"
  let ?t5 = "?t4\<lparr>parent := Waiting\<rparr>"
  have "thread_step ?t0 ?t1"
    by (rule thread_step.create) (simp_all add: thread_ops new_thread_def)
  moreover have "thread_step ?t1 ?t2" by (rule thread_step.test) simp
  moreover have "thread_step ?t2 ?t3" by (rule thread_step.count) (simp add: thread_ops)
  moreover have "thread_step ?t3 ?t4" by (rule thread_step.signal) (simp add: thread_ops)
  moreover have "thread_step ?t4 ?t5"
    by (rule thread_step.sleep) (simp add: thread_ops new_thread_def)
  ultimately have "thread_step\<^sup>*\<^sup>* ?t0 ?t5"
    by (meson rtranclp.rtrancl_into_rtrancl rtranclp.rtrancl_refl)
  moreover have "\<not> thread_step ?t5 t'" for t'
    by (auto simp: thread_ops elim!: thread_step.cases)
  moreover have "cond_num ?t5 = 1" "child ?t5 = Signalled"
    by (simp_all add: thread_ops new_thread_def)
  ultimately show ?thesis by (intro exI [of _ ?t5]) simp
qed

end
