(* ===== verification/Startup.thy ===== *)
theory Startup
  imports SystemTypes Logging ThreadStart
begin

text \<open>
  \<open>main.cc\<close>, with the constructor, \<open>start\<close> and \<open>join\<close> of \<open>http/HttpServer.h\<close> and
  \<open>net/TcpServer.cc\<close>: the program is put together and its loop entered. What runs then is the
  system of theory \<open>Reactor\<close>; the theorems here say what the constants of \<open>main\<close> make of it.
\<close>

subsection \<open>Ending the threads\<close>

text \<open>\<open>EventLoopThreadPool::join\<close>, which the servers' \<open>join\<close> call: every thread, in order.\<close>

fun pool_join :: "thread list \<Rightarrow> thread list result" where
  "pool_join [] = Inr []"
| "pool_join (t # ts) = res_bind (thread_join t) (\<lambda>t'. res_map (Cons t') (pool_join ts))"

definition server_join :: "thread list \<Rightarrow> thread list result" where
  "server_join ts = pool_join ts"

lemma pool_join_ok:
  "pool_join ts = Inr ts' \<longleftrightarrow> (\<forall>t \<in> set ts. th_started t \<and> \<not> th_joined t \<and> \<not> th_detached t) \<and>
     ts' = map (\<lambda>t. t\<lparr>th_joined := True\<rparr>) ts"
proof (induction ts arbitrary: ts')
  case (Cons t ts)
  show ?case
    using Cons.IH by (auto simp: thread_join_def res_simps)
qed auto

lemma pool_join_twice:
  assumes "pool_join ts = Inr ts'" and "ts \<noteq> []"
  shows "\<exists>e. pool_join ts' = Inl e"
proof (cases "pool_join ts'")
  case (Inr ts'')
  obtain t where "t \<in> set ts" using assms(2) by (cases ts) auto
  then have "t\<lparr>th_joined := True\<rparr> \<in> set ts'" using assms(1) by (simp add: pool_join_ok)
  with Inr show ?thesis by (fastforce simp: pool_join_ok)
qed blast

subsection \<open>Round robin in the running server\<close>

definition robin_ok :: "nat \<Rightarrow> system \<Rightarrow> bool" where
  "robin_ok n s \<longleftrightarrow> num (srv_pool (sy_srv s)) = n \<and> loops (srv_pool (sy_srv s)) = map Some [0..<n] \<and>
     currentLoop (srv_pool (sy_srv s)) =
       (if nextConnId (sy_srv s) = 0 then - 1 else (nextConnId (sy_srv s) - 1) mod int n) \<and>
     0 \<le> nextConnId (sy_srv s) \<and>
     (\<forall>i. sy_conn s i \<noteq> None \<longrightarrow> 0 \<le> i \<and> i < nextConnId (sy_srv s) \<and> sy_home s i = nat (i mod int n))"

text \<open>Every step but an acceptance leaves the pool, the counter and the homes alone.\<close>

definition same_homes :: "system \<Rightarrow> system \<Rightarrow> bool" where
  "same_homes s s' \<longleftrightarrow> srv_pool (sy_srv s') = srv_pool (sy_srv s) \<and>
     nextConnId (sy_srv s') = nextConnId (sy_srv s) \<and> sy_home s' = sy_home s \<and>
     (\<forall>i. sy_conn s i = None \<longrightarrow> sy_conn s' i = None)"

lemma robin_ok_same: "robin_ok n s \<Longrightarrow> same_homes s s' \<Longrightarrow> robin_ok n s'"
  unfolding robin_ok_def same_homes_def by metis

lemma same_homes_refl: "same_homes s s"
  by (simp add: same_homes_def)

lemma same_homes_trans: "same_homes s s1 \<Longrightarrow> same_homes s1 s2 \<Longrightarrow> same_homes s s2"
  by (auto simp: same_homes_def)

lemma removals_pool [simp]:
  "srv_pool (fold removeConnection rs srv) = srv_pool srv" "nextConnId (fold removeConnection rs srv) = nextConnId srv"
  by (induction rs arbitrary: srv) (simp_all add: removeConnection_def queueInLoop_def)

lemma same_homes_put_back: "sy_conn s ident \<noteq> None \<Longrightarrow> same_homes s (put_back ident c io s)"
  by (auto simp: same_homes_def put_back_def map_of_smap_assign)

lemma same_homes_on_conn: "on_conn h answers ident s = Inr s' \<Longrightarrow> same_homes s s'"
  by (auto simp: on_conn_def res_simps split: option.splits intro: same_homes_put_back)

lemma removal_pool:
  "removeConnectionInLoop c srv = Inr (c', srv') \<Longrightarrow>
    srv_pool srv' = srv_pool srv \<and> nextConnId srv' = nextConnId srv"
  by (auto simp: removeConnectionInLoop_def res_simps split: if_splits option.splits)

lemma same_homes_remove:
  assumes "sys_remove ident s = Inr s'"
  shows "same_homes s s'"
proof -
  obtain c c' where c: "removeConnectionInLoop c (sy_srv s) = Inr (c', sy_srv s')" "sy_home s' = sy_home s"
    using assms by (auto simp: sys_remove_def res_simps split: option.splits)
  from removal_fields [OF c(1)] removal_pool [OF c(1)] c(2) show ?thesis
    by (simp add: same_homes_def map_of_smap_erase)
qed

lemma same_homes_task:
  assumes "sys_task t s = Inr s'"
  shows "same_homes s s'"
proof (cases t)
  case (Add_Timer r)
  then show ?thesis using assms by (auto simp: same_homes_def run_add_timer_def)
qed (use assms in \<open>auto simp: sys_establish_def intro: same_homes_on_conn same_homes_remove\<close>)

lemma same_homes_run_timer: "same_homes s (run_timer now r s)"
proof (cases "timer_run (\<lambda>ident. sy_conn s ident \<noteq> None) (timer_heap (sy_srv s) r)")
  case None
  then show ?thesis by (simp add: run_timer_def same_homes_def)
next
  case (Some ident)
  show ?thesis
  proof (cases "sy_conn s ident")
    case None
    with Some show ?thesis by (simp add: run_timer_def same_homes_def)
  next
    case c: (Some c)
    obtain c' io' heap added where h: "handleTimer now c (handler_io [] ident s) (timer_heap (sy_srv s)) =
        (c', io', heap, added)" by (metis prod_cases4)
    have "same_homes s (put_back ident c' io' s)" by (rule same_homes_put_back) (simp add: c)
    then show ?thesis
      using Some c h by (simp add: run_timer_def Let_def queue_timers same_homes_def)
  qed
qed

lemma same_homes_tick:
  assumes "sys_tick now now2 s = Inr s'"
  shows "same_homes s s'"
proof -
  obtain ts s1 where loop: "expire_loop (run_timer now2) now (timers (timerq (sy_srv s))) s = (ts, s1)"
    by fastforce
  then obtain tq where s': "s' = s1\<lparr>sy_srv := (sy_srv s1)\<lparr>timerq := tq\<rparr>\<rparr>"
    using assms by (auto simp: sys_tick_def tq_handleRead_def res_simps)
  have "same_homes s s1"
    using expire_loop_inv [of "same_homes s" "run_timer now2" s] same_homes_refl
      same_homes_trans [OF _ same_homes_run_timer] loop
    by (metis snd_conv)
  then show ?thesis by (simp add: s' same_homes_def)
qed

lemma accepted_next:
  assumes "accepted cb ctx now fd srv = Inr srv'" and "getNextLoop (srv_pool srv) = (Some l, p)"
  shows "srv_pool srv' = p \<and> nextConnId srv' = nextConnId srv + 1"
  using assms unfolding accepted_def
  by (cases "conn_hold_seconds srv \<ge> 0") (auto simp: queueInLoop_def Let_def)

lemma robin_ok_accept:
  assumes "sys_accept now fd second reopened s = Inr s'" and "robin_ok n s" and "0 < n"
  shows "robin_ok n s'"
proof (cases "fd \<ge> 0")
  case False
  then show ?thesis
    using assms by (auto simp: sys_accept_def newConnection_def robin_ok_def)
next
  case True
  let ?id = "nextConnId (sy_srv s)" and ?p = "srv_pool (sy_srv s)"
  note ok = assms(2) [unfolded robin_ok_def]
  obtain srv where acc: "accepted onConnection None now fd (sy_srv s) = Inr srv" "sy_srv s' = srv"
      "sy_home s' = (sy_home s)(?id := the (fst (getNextLoop ?p)))"
    using assms(1) True by (auto simp: sys_accept_def newConnection_def res_simps Let_def)
  have "(currentLoop ?p + 1) mod int n = ?id mod int n"
    using ok by (auto simp: mod_add_left_eq)
  moreover have "nat (?id mod int n) < n" using assms(3) by (simp add: nat_less_iff)
  ultimately have nxt: "getNextLoop ?p = (Some (nat (?id mod int n)), ?p\<lparr>currentLoop := ?id mod int n\<rparr>)"
    using ok assms(3) by (simp add: getNextLoop_def Let_def)
  obtain d where d: "conns srv = smap_assign ?id d (conns (sy_srv s))"
    using accepted_conn [OF acc(1)] by blast
  have "sy_conn s' = (sy_conn s)(?id \<mapsto> d)" by (simp add: acc(2) d map_of_smap_assign)
  with accepted_next [OF acc(1) nxt] ok show ?thesis
    by (auto simp: robin_ok_def acc(2,3) nxt)
qed

lemma robin_ok_step:
  assumes "sys_step env s s'" and "robin_ok n s" and "0 < n"
  shows "robin_ok n s'"
  using assms(1)
proof (cases rule: sys_step.cases)
  case (accept fd now second reopened)
  with robin_ok_accept assms(2,3) show ?thesis by blast
next
  case (task l t)
  have "same_homes s (take_task l t s)" by (simp add: same_homes_def take_task_def)
  with same_homes_task [OF task(2)] assms(2) show ?thesis
    by (blast intro: robin_ok_same same_homes_trans)
next
  case (readable ident now reads writes)
  then show ?thesis
    using assms(2) unfolding sys_read_def by (blast intro: robin_ok_same same_homes_on_conn)
next
  case (writable ident writes)
  then show ?thesis
    using assms(2) unfolding sys_write_event_def by (blast intro: robin_ok_same same_homes_on_conn)
next
  case (tick now now2)
  then show ?thesis using assms(2) by (blast intro: robin_ok_same same_homes_tick)
qed

interpretation robin_runs: step_invariant "sys_step env" "\<lambda>s. robin_ok n s \<and> 0 < n" for env n
  by unfold_locales (auto intro: robin_ok_step)

subsection \<open>The program\<close>

text \<open>
  What the system, the database and the clock answer while the program starts. The pool is
  given as \<open>EventLoopThreadPool::start\<close> leaves it (theory \<open>ThreadPool\<close>).
\<close>

record answers =
  an_now :: timestamp                        \<comment> \<open>the clock in the constructor of the timer queue\<close>
  an_now2 :: timestamp
  an_inet_pton :: "string \<Rightarrow> ip_address option"
  an_bind :: "sockaddr_in \<Rightarrow> bool"
  an_socket :: int
  an_idle :: int
  an_log :: log_env
  an_cwd :: string
  an_log_now :: int
  an_mysql :: "nat \<Rightarrow> nat option"
  an_select :: "nat option \<Rightarrow> (string option \<times> string option) list option"
  an_listen :: int
  an_eventfd :: "nat \<Rightarrow> int"                \<comment> \<open>by number of the loop\<close>
  an_timerfd :: int

definition main_loop_number :: nat where "main_loop_number = 5"

text \<open>\<open>HttpServer::HttpServer\<close> passes its arguments on to the server.\<close>

definition http_server ::
    "answers \<Rightarrow> nat \<Rightarrow> string \<Rightarrow> int \<Rightarrow> nat \<Rightarrow> int \<Rightarrow> int \<Rightarrow> int \<Rightarrow>
      http_context option tcp_server result" where
  "http_server a loop ip port poolSize mode hold checks =
     res_bind (new_timer_queue checks (an_now a) (an_now2 a)) (\<lambda>tq.
       construct_server (an_inet_pton a) (an_bind a) (an_socket a) ip port
         (new_thread_pool loop poolSize) tq mode hold (an_idle a))"

definition start_io :: "sql_pool \<Rightarrow> server_io" where
  "start_io p = \<lparr>io_poll = new_epoll, io_writes = [], io_sent = [], io_fin = False, io_removals = [],
     io_closed = [], users = [], sql = p\<rparr>"

record program =
  pr_system :: system
  pr_globals :: log_globals
  pr_log :: log_file
  pr_accept :: channel
  pr_poll :: epoll

definition answer_fds :: "answers \<Rightarrow> loop_fds" where
  "answer_fds a = \<lparr>lf_wakeup = an_eventfd a, lf_timer = an_timerfd a, lf_listen = an_socket a\<rparr>"

definition main_program :: "answers \<Rightarrow> thread_pool \<Rightarrow> program result" where
  "main_program a started =
     (let (w, ep1) = wakeup_channel (an_eventfd a main_loop_number) new_epoll;
          (t, ep2) = timer_channel (an_timerfd a) ep1 in
     res_bind (http_server a main_loop_number [] 8000 5 1 10 3) (\<lambda>srv.
     let g1 = setLogLevel ERROR init_globals in
     res_bind (new_log_file (an_log a) (an_cwd a) [] True (200 * 1024 * 1024) 1024 (an_log_now a)) (\<lambda>log.
     let g2 = setOuputFunc File_Output g1 in
     res_bind (sql_pool_init (an_mysql a) (an_select a) ''localhost'' ''root'' ''lyd110'' ''myDB'' 3306 8 1
         (start_io (new_pool 0))) (\<lambda>io.
     res_bind (server_start (an_listen a) (listen_channel (an_socket a)) ep2) (\<lambda>(ch, ep).
       Inr \<lparr>pr_system = new_system (answer_fds a) (srv\<lparr>srv_pool := started\<rparr>) (users io) (sql io), pr_globals = g2,
         pr_log = log, pr_accept = ch, pr_poll = ep\<rparr>)))))"

subsection \<open>When the program reaches its loop\<close>

lemma pool_connect_iff:
  "(\<exists>p'. pool_connect conn i n p = Inr p') \<longleftrightarrow> (\<forall>j < n. conn (i + j) \<noteq> None)"
proof (induction n arbitrary: i p)
  case (Suc n)
  show ?case
    by (cases "conn i") (auto simp: Suc.IH All_less_Suc2)
qed simp

lemma pool_connect_conns:
  "pool_connect conn i n p = Inr p' \<Longrightarrow> connList p' = connList p @ map (the \<circ> conn) [i..<i + n] \<and>
    m_FreeConn p' = m_FreeConn p + int n"
  by (induction conn i n p rule: pool_connect.induct) (auto split: option.splits simp: upt_conv_Cons simp del: upt_Suc)

definition full_rows :: "(string option \<times> string option) list \<Rightarrow> bool" where
  "full_rows rows \<longleftrightarrow> list_all (\<lambda>(name, password). name \<noteq> None \<and> password \<noteq> None) rows"

lemma load_users_iff: "(\<exists>m'. load_users rows m = Inr m') \<longleftrightarrow> full_rows rows"
  by (induction rows m rule: load_users.induct) (auto simp: full_rows_def)

lemma sql_pool_init_iff:
  "(\<exists>io'. sql_pool_init conn select url user password dbName port 8 close_log (start_io (new_pool any)) = Inr io') \<longleftrightarrow>
    (\<forall>i < 8. conn i \<noteq> None) \<and> (\<exists>rows. select (conn 0) = Some rows \<and> full_rows rows)"
proof (cases "\<forall>i < 8. conn i \<noteq> None")
  case False
  let ?p = "(new_pool any)\<lparr>m_url := url, m_Port := [char_of (nat (port mod 256))], m_User := user,
    m_PassWord := password, m_DatabaseName := dbName, m_close_log := close_log\<rparr>"
  obtain e where "pool_connect conn 0 8 ?p = Inl e"
    using pool_connect_iff [of conn 0 8 ?p] False by (cases "pool_connect conn 0 8 ?p") auto
  then show ?thesis using False by (auto simp: sql_pool_init_def pool_init_def start_io_def)
next
  case True
  let ?p = "(new_pool any)\<lparr>m_url := url, m_Port := [char_of (nat (port mod 256))], m_User := user,
    m_PassWord := password, m_DatabaseName := dbName, m_close_log := close_log\<rparr>"
  obtain p1 where p1: "pool_connect conn 0 8 ?p = Inr p1"
    using pool_connect_iff [of conn 0 8 ?p] True by auto
  obtain c where c: "conn 0 = Some c" using True by fastforce
  have l: "connList p1 = c # map (the \<circ> conn) [1..<8]" "m_FreeConn p1 = 8"
    using pool_connect_conns [OF p1] c by (simp_all add: new_pool_def upt_conv_Cons)
  show ?thesis
    using True l c load_users_iff [of _ "[]"]
    by (auto simp: sql_pool_init_def pool_init_def start_io_def p1 GetConnection_def pool_take_def
      ReleaseConnection_def res_simps split: option.splits)
qed

lemma new_log_file_iff:
  "(\<exists>lf. new_log_file env cwd [] asy limit checkN now = Inr lf) \<longleftrightarrow> length cwd + 7 < 128 \<and>
    env_can_open env (cwd @ ''/logdir'' @ ''/'' @ getCurrentName env now)"
  by (simp add: new_log_file_def rollFile_def Let_def)

text \<open>The address of port 8000 of every interface.\<close>

definition any_address :: sockaddr_in where
  "any_address = zero_addr\<lparr>sin_family := AF_INET, sin_port := htons 8000, sin_addr := INADDR_ANY\<rparr>"

lemma http_server_eq:
  "http_server a loop [] 8000 n mode hold 3 =
    (if an_bind a any_address
     then new_server (setReuseAddr (an_socket a) (setReusePort (an_socket a) (open_socket (an_socket a) Map.empty)))
       True True (new_thread_pool loop n)
       (resetTimerfd (addTime 3000000 (an_now a)) (an_now2 a) \<lparr>timers = [], check_per_seconds = 3, armed = []\<rparr>)
       mode hold (an_idle a)
     else Inl Assert_Failed)"
  by (simp add: http_server_def new_timer_queue_def check_micros_def
    construct_server_def listen_address_def any_address_def new_server_def Let_def)


lemma main_program_iff:
  "(\<exists>pr. main_program a p = Inr pr) \<longleftrightarrow> an_bind a any_address \<and>
    (\<exists>lf. new_log_file (an_log a) (an_cwd a) [] True (200 * 1024 * 1024) 1024 (an_log_now a) = Inr lf) \<and>
    (\<exists>io. sql_pool_init (an_mysql a) (an_select a) ''localhost'' ''root'' ''lyd110'' ''myDB'' 3306 8 1
      (start_io (new_pool 0)) = Inr io) \<and> an_listen a = 0"
proof -
  obtain w ep1 t ep2 where "wakeup_channel (an_eventfd a main_loop_number) new_epoll = (w, ep1)"
      "timer_channel (an_timerfd a) ep1 = (t, ep2)" by fastforce
  moreover obtain ch ep where "enableReading (listen_channel (an_socket a)) ep2 = (ch, ep)" by fastforce
  ultimately show ?thesis
    by (cases "an_bind a any_address"; cases "an_listen a = 0")
      (auto simp: main_program_def http_server_eq new_server_def server_start_def res_simps Let_def)
qed

lemma new_server_pool:
  "new_server fds True True p tq mode hold spare = Inr srv \<Longrightarrow>
    new_server fds True True p' tq mode hold spare = Inr (srv\<lparr>srv_pool := p'\<rparr>)"
  by (auto simp: new_server_def)

lemma main_program_system:
  assumes "main_program a p = Inr pr"
  shows "\<exists>fds tq srv us pl. new_server fds True True p tq 1 10 (an_idle a) = Inr srv \<and>
    pr_system pr = new_system (answer_fds a) srv us pl \<and> pr_globals pr = setOuputFunc File_Output (setLogLevel ERROR init_globals)"
proof -
  obtain srv us pl where srv: "http_server a main_loop_number [] 8000 5 1 10 3 = Inr srv"
      "pr_system pr = new_system (answer_fds a) (srv\<lparr>srv_pool := p\<rparr>) us pl"
      "pr_globals pr = setOuputFunc File_Output (setLogLevel ERROR init_globals)"
    using assms by (auto simp: main_program_def res_simps Let_def split: prod.splits)
  then show ?thesis
    using new_server_pool [of _ "new_thread_pool main_loop_number 5" _ 1 10 "an_idle a" srv p]
    unfolding http_server_eq by (metis Inl_Inr_False)
qed



subsection \<open>What it then does\<close>

text \<open>Starting the pool leaves the main loop and the round robin alone, and comes to its end.\<close>

definition pool_fresh :: "nat \<Rightarrow> pool_start \<Rightarrow> bool" where
  "pool_fresh base w \<longleftrightarrow> base_loop (ps_pool w) = base \<and> currentLoop (ps_pool w) = - 1"

interpretation fresh_runs: step_invariant start_step "pool_fresh base" for base
  by unfold_locales (erule start_step.cases; simp add: pool_fresh_def enter_loop_def)

lemma pool_fresh_new: "pool_fresh base (new_pool_start base n)"
  by (simp add: pool_fresh_def new_pool_start_def new_thread_pool_def)

lemma start_finishes: "start_inv n w \<Longrightarrow> \<exists>m w'. (start_step ^^ m) w w' \<and> ps_pc w' = Finished"
proof (induction "start_weight w" arbitrary: w rule: less_induct)
  case less
  show ?case
  proof (cases "ps_pc w = Finished")
    case True
    then have "(start_step ^^ 0) w w" by simp
    with True show ?thesis by blast
  next
    case False
    obtain w1 where w1: "start_step w w1" using start_progress [OF less.prems False] by blast
    obtain m w' where "(start_step ^^ m) w1 w'" "ps_pc w' = Finished"
      using less.hyps [OF start_weight_step [OF w1 less.prems] start_inv_step [OF w1 less.prems]] by blast
    with relpowp_Suc_I2 [of start_step, OF w1] show ?thesis by blast
  qed
qed

lemma started_pool:
  assumes "(start_step ^^ m) (new_pool_start base n) w" and "ps_pc w = Finished"
  shows "num (ps_pool w) = n \<and> loops (ps_pool w) = map Some [0..<n] \<and> currentLoop (ps_pool w) = - 1 \<and>
    base_loop (ps_pool w) = base"
  using start_runs.run_n [OF assms(1) start_inv_new] fresh_runs.run_n [OF assms(1) pool_fresh_new] assms(2)
  by (simp add: start_inv_def pool_fresh_def)

lemma robin_ok_new:
  assumes "new_server fds True True p tq mode hold spare = Inr srv" and "num p = n"
    and "loops p = map Some [0..<n]" and "currentLoop p = - 1"
  shows "robin_ok n (new_system lfs srv us pl)"
  using assms by (auto simp: new_server_def robin_ok_def new_system_def)

text \<open>What holds whenever the program runs.\<close>

lemma main_runs:
  assumes "(start_step ^^ m) (new_pool_start main_loop_number 5) w" and "ps_pc w = Finished"
    and "main_program a (ps_pool w) = Inr pr" and "distinct [an_eventfd a main_loop_number, an_timerfd a, an_socket a]"
    and "(sys_step env)\<^sup>*\<^sup>* (pr_system pr) s"
  shows "sys_ok s \<and> robin_ok 5 s \<and> sys_typed s \<and>
    pr_globals pr = setOuputFunc File_Output (setLogLevel ERROR init_globals)"
proof -
  obtain fds tq srv us pl where srv: "new_server fds True True (ps_pool w) tq 1 10 (an_idle a) = Inr srv"
      "pr_system pr = new_system (answer_fds a) srv us pl"
      "pr_globals pr = setOuputFunc File_Output (setLogLevel ERROR init_globals)"
    using main_program_system [OF assms(3)] by blast
  note run = assms(5) [unfolded srv(2)]
  have "own_fds_ok (answer_fds a) (ps_pool w)"
    using assms(4) started_pool [OF assms(1,2)] by (simp add: own_fds_ok_def answer_fds_def)
  then have "sys_ok s" by (rule sys_runs.run [OF run sys_ok_new [OF srv(1)]])
  moreover have "robin_ok 5 s"
    using robin_runs.run [OF run, of 5] robin_ok_new [OF srv(1)] started_pool [OF assms(1,2)] by simp
  moreover have "sys_typed s"
    using typed_runs.run [OF run] srv(1) by (auto simp: new_server_def new_system_def sys_typed_def)
  ultimately show ?thesis using srv(3) by blast
qed

text \<open>The poller of the main loop is the one that \<open>main\<close> has built up.\<close>

lemma main_poller:
  assumes "main_program a p = Inr pr" and "base_loop p = main_loop_number"
  shows "sy_poll (pr_system pr) main_loop_number = pr_poll pr \<and>
    pr_accept pr \<in> set (sy_own (pr_system pr) main_loop_number)"
proof -
  obtain w ep1 t ep2 where own: "wakeup_channel (an_eventfd a main_loop_number) new_epoll = (w, ep1)"
      "timer_channel (an_timerfd a) ep1 = (t, ep2)" by fastforce
  obtain ch ep where ch: "enableReading (listen_channel (an_socket a)) ep2 = (ch, ep)" by fastforce
  obtain srv us pl where "pr_system pr = new_system (answer_fds a) (srv\<lparr>srv_pool := p\<rparr>) us pl"
      "pr_accept pr = ch" "pr_poll pr = ep"
    using assms(1) own ch by (auto simp: main_program_def server_start_def res_simps Let_def split: if_splits)
  then show ?thesis
    using own ch assms(2) by (simp add: new_system_def loop_poll_def main_loop_poll_def answer_fds_def)
qed

text \<open>A client is accepted.\<close>

lemma accept_enabled:
  assumes "sys_ok s" and "robin_ok n s" and "0 < n" and "fd \<notin> open_fds s" and "0 \<le> fd"
  shows "\<exists>s1 d. sys_step env s s1 \<and> sys_accept now fd 0 0 s = Inr s1 \<and>
    sy_conn s1 (nextConnId (sy_srv s)) = Some d \<and> conn_fd d = fd \<and> chan_index (conn_channel d) = kNew"
proof -
  let ?p = "srv_pool (sy_srv s)" and ?id = "nextConnId (sy_srv s)"
  have "\<exists>l p'. getNextLoop ?p = (Some l, p')"
    using assms(2,3) by (auto simp: robin_ok_def getNextLoop_def Let_def nat_less_iff)
  then have "\<exists>srv'. accepted onConnection None now fd (sy_srv s) = Inr srv'"
    by (cases "conn_hold_seconds (sy_srv s) \<ge> 0") (auto simp: accepted_def Let_def)
  then obtain srv' where acc: "accepted onConnection None now fd (sy_srv s) = Inr srv'" by blast
  then obtain s1 where s1: "sys_accept now fd 0 0 s = Inr s1" "sy_srv s1 = srv'"
    using assms(5) by (simp add: sys_accept_def newConnection_def Let_def)
  obtain d where d: "conns srv' = smap_assign ?id d (conns (sy_srv s))" "conn_fd d = fd" "chan_index (conn_channel d) = kNew"
    using accepted_fields [OF acc] by blast
  have "lf_listen (sy_fds s) \<in> chan_fd ` set (sy_own s (main_loop (sy_srv s)))"
    using assms(1) by (simp add: sys_ok_def loops_ok_def)
  from own_reported [OF assms(1) this] assms(4) s1(1) have "sys_step env s s1" by (rule sys_step.accept)
  with s1 d show ?thesis by (simp add: map_of_smap_assign)
qed


text \<open>
  C9: the running program, from \<open>main\<close> on. Once the five threads of the pool have started and
  \<open>main\<close> has set the server up, whatever the clients, the kernel and the scheduling do: the
  connection with number \<open>i\<close> belongs to the loop of thread \<open>i mod 5\<close>, no other loop ever watches
  its descriptor, so in particular the main loop does not; it is level-triggered and has its
  parsing context. No statement of a level below \<open>ERROR\<close> is output.
\<close>

theorem main_serves:
  assumes "(start_step ^^ m) (new_pool_start main_loop_number 5) w" and "ps_pc w = Finished"
    and "main_program a (ps_pool w) = Inr pr" and "distinct [an_eventfd a main_loop_number, an_timerfd a, an_socket a]"
    and "(sys_step env)\<^sup>*\<^sup>* (pr_system pr) s" and "sy_conn s i = Some c"
  shows "0 \<le> i \<and> sy_home s i = nat (i mod 5) \<and>
    (\<forall>l. watching (sy_poll s l) (conn_fd c) \<noteq> None \<longrightarrow> l = nat (i mod 5)) \<and>
    watching (sy_poll s main_loop_number) (conn_fd c) = None \<and>
    conn_mode c = 1 \<and> conn_context c \<noteq> None \<and>
    (\<forall>st. st_enabled (pr_globals pr) st \<longrightarrow> level_value ERROR \<le> level_value (st_level st))"
proof -
  note running = main_runs [OF assms(1-5)]
  have ok: "sys_ok s" and typed: "sys_typed s" and globals: "pr_globals pr = setOuputFunc File_Output (setLogLevel ERROR init_globals)"
    using running by blast+
  from running have home: "0 \<le> i" "sy_home s i = nat (i mod 5)" using assms(6) by (auto simp: robin_ok_def)
  have only: "l = sy_home s i" if l: "watching (sy_poll s l) (conn_fd c) \<noteq> None" for l
  proof -
    have "own_watch (sy_own s l) (conn_fd c) = None"
      using ok assms(6) unfolding sys_ok_def polls_ok_def comp_def by metis
    then obtain j d where j: "sy_conn s j = Some d" "sy_home s j = l" "conn_fd d = conn_fd c"
      using ok l unfolding sys_ok_def polls_ok_def comp_def by metis
    moreover have "fds_ok (sy_conn s)" using ok by (simp add: sys_ok_def)
    ultimately have "j = i" using assms(6) unfolding fds_ok_def by blast
    with j(2) show ?thesis by simp
  qed
  have "nat (i mod 5) < 5" by (simp add: nat_less_iff)
  then have "watching (sy_poll s main_loop_number) (conn_fd c) = None"
    using only [of main_loop_number] home(2)
    by (cases "watching (sy_poll s main_loop_number) (conn_fd c)") (simp_all add: main_loop_number_def)
  moreover have "conn_mode c = 1 \<and> conn_context c \<noteq> None"
    using assms(6) typed unfolding sys_typed_def http_typed_def conn_typed_def by simp
  moreover have "level_value ERROR \<le> level_value (st_level st)" if "st_enabled (pr_globals pr) st" for st
    using that by (simp add: globals st_enabled_def setOuputFunc_def setLogLevel_def)
  ultimately show ?thesis
    using only home by metis
qed

definition demo_answers :: answers where
  "demo_answers = \<lparr>an_now = Timestamp 0, an_now2 = Timestamp 1, an_inet_pton = (\<lambda>_. None), an_bind = (\<lambda>_. True),
     an_socket = 4, an_idle = 5, an_log = demo_log_env, an_cwd = ''/srv'', an_log_now = 100,
     an_mysql = Some, an_select = (\<lambda>_. Some [(Some ''ann'', Some ''pw'')]), an_listen = 0,
     an_eventfd = (\<lambda>l. 20 + int l), an_timerfd = 18\<rparr>"


lemma demo_program: "\<exists>pr. main_program demo_answers p = Inr pr"
  by (simp only: main_program_iff new_log_file_iff sql_pool_init_iff)
    (simp add: demo_answers_def demo_log_env_def full_rows_def)

text \<open>The system as \<open>main\<close> leaves it, with its first connection.\<close>

lemma demo_first:
  assumes "(start_step ^^ m) (new_pool_start main_loop_number 5) w" and "ps_pc w = Finished"
    and "main_program demo_answers (ps_pool w) = Inr pr"
  shows "7 \<notin> open_fds (pr_system pr) \<and> nextConnId (sy_srv (pr_system pr)) = 0"
proof -
  obtain fds tq srv us pl where srv: "new_server fds True True (ps_pool w) tq 1 10 (an_idle demo_answers) = Inr srv"
      "pr_system pr = new_system (answer_fds demo_answers) srv us pl"
    using main_program_system [OF assms(3)] by blast
  have keep: "chan_fd ch = chan_fd c" if "enableReading c ep = (ch, ep')" for c ch ep ep'
    using that by (auto simp: enableReading_def updateChannel_def Let_def split: if_splits)
  have "chan_fd ` set (fst (loop_poll (answer_fds demo_answers) p l)) \<subseteq> {4, 18, 20 + int l}" for p l
    by (auto simp: loop_poll_def main_loop_poll_def pool_loop_poll_def wakeup_channel_def timer_channel_def
      listen_channel_def answer_fds_def demo_answers_def own_channel_def new_channel_def dest!: keep split: prod.split)
  then have "7 \<notin> chan_fd ` set (fst (loop_poll (answer_fds demo_answers) p l))" for p l
    using subsetD by fastforce
  then show ?thesis using srv(1) by (auto simp: srv(2) open_fds_def new_system_def new_server_def)
qed


theorem main_serves_witness:
  "\<exists>m w pr s c. (start_step ^^ m) (new_pool_start main_loop_number 5) w \<and>
    main_program demo_answers (ps_pool w) = Inr pr \<and> (sys_step demo_env)\<^sup>*\<^sup>* (pr_system pr) s \<and>
    sy_conn s 0 = Some c \<and> sy_home s 0 = 0 \<and> conn_mode c = 1"
proof -
  obtain m w where w: "(start_step ^^ m) (new_pool_start main_loop_number 5) w" "ps_pc w = Finished"
    using start_finishes [OF start_inv_new] by blast
  obtain pr where pr: "main_program demo_answers (ps_pool w) = Inr pr" using demo_program by blast
  have fds: "distinct [an_eventfd demo_answers main_loop_number, an_timerfd demo_answers, an_socket demo_answers]"
    by (simp add: demo_answers_def)
  note start = main_runs [OF w pr fds rtranclp.rtrancl_refl]
  obtain s c where s: "sys_step demo_env (pr_system pr) s" "sy_conn s 0 = Some c"
    using accept_enabled [of "pr_system pr" 5 7 demo_env "Timestamp 0"] start demo_first [OF w pr] by auto
  from s(1) have run: "(sys_step demo_env)\<^sup>*\<^sup>* (pr_system pr) s" by blast
  have "sy_home s 0 = 0 \<and> conn_mode c = 1" using main_serves [OF w pr fds run s(2)] by simp
  with w(1) pr run s(2) show ?thesis by blast
qed

end
