(* ===== verification/EventLoop.thy ===== *)
theory EventLoop
  imports Prelude
begin

text \<open>
  \<open>net/EventLoop.h\<close> and \<open>net/EventLoop.cc\<close>: one thread polls, handles events and runs the
  tasks that any thread has queued. The state is what the loop and the threads that queue
  share: the task vector, the counter of the event descriptor, and how far the loop thread
  is. A step is what happens between two points at which another thread can interfere;
  \<open>queueInLoop\<close> is two steps, the push under the mutex and the write to the descriptor. The
  loop thread itself may queue tasks, from an event handler or a task, like any other.

  \<open>el_queued\<close> and \<open>el_done\<close> record the history: all tasks queued, and all tasks run.
\<close>

datatype loop_phase = Testing | Polling | Handling bool | Swapping | Running | Stopped

record 'a event_loop =
  tasks :: "'a list"       \<comment> \<open>\<open>tasks_\<close>\<close>
  t_task :: "'a list"      \<comment> \<open>the local vector, as far as it has not run\<close>
  eventfd :: nat
  quit :: bool
  phase :: loop_phase
  el_waking :: nat         \<comment> \<open>threads between the push and the write\<close>
  el_queued :: "'a list"
  el_done :: "'a list"

definition new_event_loop :: "'a event_loop" where
  "new_event_loop = \<lparr>tasks = [], t_task = [], eventfd = 0, quit = False, phase = Testing,
     el_waking = 0, el_queued = [], el_done = []\<rparr>"

definition queue_push :: "'a \<Rightarrow> 'a event_loop \<Rightarrow> 'a event_loop" where
  "queue_push x w = w\<lparr>tasks := tasks w @ [x], el_waking := el_waking w + 1, el_queued := el_queued w @ [x]\<rparr>"

definition wakeup :: "'a event_loop \<Rightarrow> 'a event_loop" where
  "wakeup w = w\<lparr>eventfd := eventfd w + 1, el_waking := el_waking w - 1\<rparr>"

definition loop_handleRead :: "'a event_loop \<Rightarrow> 'a event_loop" where
  "loop_handleRead w = w\<lparr>eventfd := 0\<rparr>"

definition swap_tasks :: "'a event_loop \<Rightarrow> 'a event_loop" where
  "swap_tasks w = w\<lparr>tasks := [], t_task := tasks w\<rparr>"

text \<open>
  \<open>epollWait\<close> may report the event descriptor only when its counter is positive. It may leave
  it out, when the result array is full or the wait times out.
\<close>

inductive loop_step :: "'a event_loop \<Rightarrow> 'a event_loop \<Rightarrow> bool" where
  push: "loop_step w (queue_push x w)"
| wake: "0 < el_waking w \<Longrightarrow> loop_step w (wakeup w)"
| enter: "phase w = Testing \<Longrightarrow> \<not> quit w \<Longrightarrow> loop_step w (w\<lparr>phase := Polling\<rparr>)"
| leave: "phase w = Testing \<Longrightarrow> quit w \<Longrightarrow> loop_step w (w\<lparr>phase := Stopped\<rparr>)"
| poll: "phase w = Polling \<Longrightarrow> b \<longrightarrow> 0 < eventfd w \<Longrightarrow> loop_step w (w\<lparr>phase := Handling b\<rparr>)"
| poll_fails: "phase w = Polling \<Longrightarrow> loop_step w (w\<lparr>phase := Handling False, quit := True\<rparr>)"
| handle: "phase w = Handling b \<Longrightarrow>
    loop_step w ((if b then loop_handleRead w else w)\<lparr>phase := Swapping\<rparr>)"
| swap: "phase w = Swapping \<Longrightarrow> loop_step w ((swap_tasks w)\<lparr>phase := Running\<rparr>)"
| run: "phase w = Running \<Longrightarrow> t_task w = x # xs \<Longrightarrow>
    loop_step w (w\<lparr>t_task := xs, el_done := el_done w @ [x]\<rparr>)"
| again: "phase w = Running \<Longrightarrow> t_task w = [] \<Longrightarrow> loop_step w (w\<lparr>phase := Testing\<rparr>)"

definition loop_inv :: "'a event_loop \<Rightarrow> bool" where
  "loop_inv w \<longleftrightarrow> el_queued w = el_done w @ t_task w @ tasks w \<and>
     (t_task w \<noteq> [] \<longrightarrow> phase w = Running) \<and>
     (tasks w \<noteq> [] \<longrightarrow> 0 < eventfd w \<or> 0 < el_waking w \<or> phase w = Swapping \<or> (\<exists>b. phase w = Handling b))"

lemmas loop_ops = queue_push_def wakeup_def loop_handleRead_def swap_tasks_def

lemma loop_inv_step: "loop_step w w' \<Longrightarrow> loop_inv w \<Longrightarrow> loop_inv w'"
  by (induction rule: loop_step.induct) (auto simp: loop_inv_def loop_ops)

interpretation loop_runs: step_invariant loop_step loop_inv
  by unfold_locales (rule loop_inv_step)

lemma loop_inv_new: "loop_inv new_event_loop"
  by (simp add: loop_inv_def new_event_loop_def)

lemma loop_runs_all:
  assumes "phase w = Running"
  shows "\<exists>w'. loop_step\<^sup>*\<^sup>* w w' \<and> phase w' = Testing \<and> el_done w' = el_done w @ t_task w \<and>
    el_queued w' = el_queued w \<and> tasks w' = tasks w"
  using assms
proof (induction "t_task w" arbitrary: w)
  case Nil
  then have "loop_step w (w\<lparr>phase := Testing\<rparr>)" by (intro loop_step.again) simp_all
  with Nil show ?case by (intro exI [of _ "w\<lparr>phase := Testing\<rparr>"]) auto
next
  case (Cons x xs)
  let ?w = "w\<lparr>t_task := xs, el_done := el_done w @ [x]\<rparr>"
  have "loop_step w ?w" using Cons by (intro loop_step.run) simp_all
  moreover obtain w' where "loop_step\<^sup>*\<^sup>* ?w w'" "phase w' = Testing"
      "el_done w' = el_done ?w @ t_task ?w" "el_queued w' = el_queued ?w" "tasks w' = tasks ?w"
    using Cons(1) [of ?w] Cons(3) by auto
  ultimately show ?case
    using Cons(2) by (intro exI [of _ w']) (auto intro: converse_rtranclp_into_rtranclp)
qed

text \<open>
  Tasks run once and in order. However threads queue tasks while the loop polls, handles
  events and runs tasks: the tasks that have run are the first ones queued, in the order of
  the pushes, and all others are still in the vector or in the batch being run.
\<close>

lemma event_loop_fifo:
  assumes "loop_step\<^sup>*\<^sup>* new_event_loop w"
  shows "el_queued w = el_done w @ t_task w @ tasks w"
  using loop_runs.run [OF assms loop_inv_new] by (simp add: loop_inv_def)

lemma event_loop_fifo_witness:
  "\<exists>w. loop_step\<^sup>*\<^sup>* new_event_loop w \<and> el_queued w = [3 :: nat] \<and>
    el_queued w = el_done w @ t_task w @ tasks w"
proof -
  have run: "loop_step\<^sup>*\<^sup>* new_event_loop (queue_push (3 :: nat) new_event_loop)"
    by (intro r_into_rtranclp loop_step.push)
  from event_loop_fifo [OF run] run show ?thesis
    by (intro exI [of _ "queue_push 3 new_event_loop"]) (simp add: queue_push_def new_event_loop_def)
qed

text \<open>
  The loop does not sleep on a queued task. When the loop is about to wait while tasks
  are queued, and no thread is on its way to the event descriptor, then the descriptor is
  readable, so that the wait returns at once; and one turn of the loop, undisturbed, runs all
  tasks queued so far.
\<close>

lemma event_loop_wakes:
  assumes "loop_step\<^sup>*\<^sup>* new_event_loop w" and "phase w = Polling"
    and "el_waking w = 0" and "tasks w \<noteq> []"
  shows "0 < eventfd w \<and>
    (\<exists>w'. loop_step w (w\<lparr>phase := Handling True\<rparr>) \<and> loop_step\<^sup>*\<^sup>* (w\<lparr>phase := Handling True\<rparr>) w' \<and>
      el_done w' = el_queued w \<and> phase w' = Testing)"
proof -
  have inv: "loop_inv w" by (rule loop_runs.run [OF assms(1) loop_inv_new])
  then have fd: "0 < eventfd w" using assms(2-4) by (auto simp: loop_inv_def)
  let ?w1 = "w\<lparr>phase := Handling True\<rparr>"
  let ?w2 = "(loop_handleRead ?w1)\<lparr>phase := Swapping\<rparr>"
  let ?w3 = "(swap_tasks ?w2)\<lparr>phase := Running\<rparr>"
  have s1: "loop_step w ?w1" using assms(2) fd by (intro loop_step.poll) simp_all
  have s2: "loop_step ?w1 ?w2" using loop_step.handle [of ?w1 True] by simp
  have s3: "loop_step ?w2 ?w3" by (intro loop_step.swap) simp
  obtain w' where w': "loop_step\<^sup>*\<^sup>* ?w3 w'" "phase w' = Testing"
      "el_done w' = el_done ?w3 @ t_task ?w3"
    using loop_runs_all [of ?w3] by auto
  have "t_task w = []" and "el_queued w = el_done w @ t_task w @ tasks w"
    using inv assms(2) by (simp_all add: loop_inv_def)
  then have "el_done ?w3 @ t_task ?w3 = el_queued w"
    by (simp add: loop_ops)
  with w'(3) have "el_done w' = el_queued w" by simp
  moreover have "loop_step\<^sup>*\<^sup>* ?w1 w'"
    using converse_rtranclp_into_rtranclp [of loop_step, OF s2
        converse_rtranclp_into_rtranclp [of loop_step, OF s3 w'(1)]] .
  ultimately show ?thesis using fd s1 w'(2) by blast
qed

lemma event_loop_wakes_witness:
  "\<exists>w. loop_step\<^sup>*\<^sup>* new_event_loop w \<and> phase w = Polling \<and> tasks w = [3 :: nat] \<and> 0 < eventfd w"
proof -
  let ?w1 = "new_event_loop\<lparr>phase := Polling\<rparr> :: nat event_loop"
  let ?w3 = "wakeup (queue_push 3 ?w1)"
  have "loop_step new_event_loop ?w1"
    by (intro loop_step.enter) (simp_all add: new_event_loop_def)
  moreover have "loop_step ?w1 (queue_push 3 ?w1)" by (rule loop_step.push)
  moreover have "loop_step (queue_push 3 ?w1) ?w3"
    by (rule loop_step.wake) (simp add: queue_push_def)
  ultimately have run: "loop_step\<^sup>*\<^sup>* new_event_loop ?w3"
    by (meson rtranclp.rtrancl_into_rtrancl rtranclp.rtrancl_refl)
  have w3: "phase ?w3 = Polling" "el_waking ?w3 = 0" "tasks ?w3 = [3]"
    by (simp_all add: loop_ops new_event_loop_def)
  have "0 < eventfd ?w3"
    using event_loop_wakes [OF run w3(1,2)] unfolding w3(3) by simp
  then show ?thesis by (intro exI [of _ ?w3] conjI run w3)
qed

text \<open>
  A failed wait ends the loop for good. \<open>epoll_wait\<close> returns -1 also when a signal
  interrupts it; the loop then takes this one turn and stops, and whatever is queued
  afterwards never runs.
\<close>

lemma event_loop_ends:
  assumes "quit w" and "phase w = Testing" and "loop_step\<^sup>*\<^sup>* w w'"
  shows "el_done w' = el_done w \<and> t_task w' = t_task w \<and> (\<exists>xs. tasks w' = tasks w @ xs)"
proof -
  have "el_done w' = el_done w \<and> t_task w' = t_task w \<and> (\<exists>xs. tasks w' = tasks w @ xs) \<and> quit w' \<and>
      (phase w' = Testing \<or> phase w' = Stopped)"
    using assms(3)
  proof (induction rule: rtranclp_induct)
    case base
    with assms(1,2) show ?case by simp
  next
    case (step y z)
    from step(2,3) show ?case
      by (cases rule: loop_step.cases) (auto simp: loop_ops)
  qed
  then show ?thesis by blast
qed

end
