(* ===== verification/Monitor.thy ===== *)
theory Monitor
  imports Prelude "HOL-Library.Multiset"
begin

text \<open>
  \<open>base/Mutex.h\<close> and \<open>base/Condition.h\<close>: a mutex with its guard, and a condition variable.
  The two classes hand their calls to the POSIX threads library; what the model says of those
  calls is what POSIX says. Threads are numbers. \<open>lock\<close> gives \<open>None\<close> where the caller has to
  wait. \<open>pthread_cond_wait\<close> gives up the mutex and joins the waiting threads in one step; the
  woken thread takes the mutex again with \<open>lock\<close>. Which waiting thread a signal wakes is the
  library's choice, an argument \<open>k\<close> here.
\<close>

record mutex =
  mx_owner :: "nat option"

definition new_mutex :: mutex where
  "new_mutex = \<lparr>mx_owner = None\<rparr>"

definition mutex_lock :: "nat \<Rightarrow> mutex \<Rightarrow> mutex option" where
  "mutex_lock t m = (if mx_owner m = None then Some (m\<lparr>mx_owner := Some t\<rparr>) else None)"

text \<open>Only the thread that holds a mutex may give it up.\<close>

definition mutex_unlock :: "nat \<Rightarrow> mutex \<Rightarrow> mutex result" where
  "mutex_unlock t m = (if mx_owner m = Some t then Inr (m\<lparr>mx_owner := None\<rparr>) else Inl Not_Owner)"

text \<open>\<open>MutexRAII\<close>: its constructor and its destructor.\<close>

definition guard_enter :: "nat \<Rightarrow> mutex \<Rightarrow> mutex option" where
  "guard_enter t m = mutex_lock t m"

definition guard_leave :: "nat \<Rightarrow> mutex \<Rightarrow> mutex result" where
  "guard_leave t m = mutex_unlock t m"

record cond_var =
  cv_waiters :: "nat list"

definition new_cond :: cond_var where
  "new_cond = \<lparr>cv_waiters = []\<rparr>"

definition cond_wait :: "nat \<Rightarrow> cond_var \<Rightarrow> mutex \<Rightarrow> (cond_var \<times> mutex) result" where
  "cond_wait t c m = res_map (Pair (c\<lparr>cv_waiters := cv_waiters c @ [t]\<rparr>)) (mutex_unlock t m)"

text \<open>The threads that are woken, and the condition after the call.\<close>

definition wakeUpOne :: "nat \<Rightarrow> cond_var \<Rightarrow> nat list \<times> cond_var" where
  "wakeUpOne k c =
     (if cv_waiters c = [] then ([], c)
      else let t = cv_waiters c ! (k mod length (cv_waiters c))
           in ([t], c\<lparr>cv_waiters := remove1 t (cv_waiters c)\<rparr>))"

definition wakeUpAll :: "cond_var \<Rightarrow> nat list \<times> cond_var" where
  "wakeUpAll c = (cv_waiters c, c\<lparr>cv_waiters := []\<rparr>)"

text \<open>A wake-up without a signal.\<close>

definition cond_wake :: "nat \<Rightarrow> cond_var \<Rightarrow> cond_var" where
  "cond_wake t c = c\<lparr>cv_waiters := remove1 t (cv_waiters c)\<rparr>"

subsection \<open>What the operations promise\<close>

lemma mutex_lock_Some [simp]:
  "mutex_lock t m = Some m' \<longleftrightarrow> mx_owner m = None \<and> m' = m\<lparr>mx_owner := Some t\<rparr>"
  unfolding mutex_lock_def by (metis option.inject option.distinct(1))

lemma mutex_unlock_Inr [simp]:
  "mutex_unlock t m = Inr m' \<longleftrightarrow> mx_owner m = Some t \<and> m' = m\<lparr>mx_owner := None\<rparr>"
  unfolding mutex_unlock_def by (metis sum.inject(2) Inl_Inr_False)

lemma cond_wait_Inr [simp]:
  "cond_wait t c m = Inr (c', m') \<longleftrightarrow> mx_owner m = Some t \<and> m' = m\<lparr>mx_owner := None\<rparr> \<and>
    c' = c\<lparr>cv_waiters := cv_waiters c @ [t]\<rparr>"
  unfolding cond_wait_def res_simps mutex_unlock_Inr by blast

lemma wakeUpOne_cases:
  assumes "wakeUpOne k c = (ts, c')"
  obtains (none) "cv_waiters c = []" "ts = []" "c' = c"
  | (one) t where "t \<in> set (cv_waiters c)" "ts = [t]" "c' = cond_wake t c"
proof (cases "cv_waiters c = []")
  case True
  show thesis by (rule none) (use assms True in \<open>simp_all add: wakeUpOne_def\<close>)
next
  case False
  then have "k mod length (cv_waiters c) < length (cv_waiters c)" by simp
  then have "cv_waiters c ! (k mod length (cv_waiters c)) \<in> set (cv_waiters c)" by (rule nth_mem)
  then show thesis
    by (rule one) (use assms False in \<open>simp_all add: wakeUpOne_def cond_wake_def Let_def\<close>)
qed

text \<open>A signal reaches a waiting thread if there is one, and every waiting thread can be it.\<close>

lemma wakeUpOne_any:
  "t \<in> set (cv_waiters c) \<Longrightarrow> \<exists>k. wakeUpOne k c = ([t], cond_wake t c)"
proof -
  assume "t \<in> set (cv_waiters c)"
  then obtain k where "k < length (cv_waiters c)" "cv_waiters c ! k = t" by (auto simp: in_set_conv_nth)
  then have "wakeUpOne k c = ([t], cond_wake t c)"
    by (auto simp: wakeUpOne_def cond_wake_def Let_def)
  then show ?thesis ..
qed

subsection \<open>Threads and their positions\<close>

text \<open>
  A program of several threads is a list of positions, one for each thread. The mutex belongs
  to the thread whose position is in a critical section, and the threads a condition knows are
  those that wait for it.
\<close>

definition excl :: "('p \<Rightarrow> bool) \<Rightarrow> nat option \<Rightarrow> 'p list \<Rightarrow> bool" where
  "excl crit own ps \<longleftrightarrow> (\<forall>t. own = Some t \<longleftrightarrow> t < length ps \<and> crit (ps ! t))"

definition waiters_ok :: "nat list \<Rightarrow> ('p \<Rightarrow> bool) \<Rightarrow> 'p list \<Rightarrow> bool" where
  "waiters_ok ws P ps \<longleftrightarrow> distinct ws \<and> (\<forall>t. t \<in> set ws \<longleftrightarrow> t < length ps \<and> P (ps ! t))"

lemma at_goto:
  "u < length (ps[t := p]) \<and> P (ps[t := p] ! u) \<longleftrightarrow>
     (if u = t then t < length ps \<and> P p else u < length ps \<and> P (ps ! u))"
  by (auto simp: nth_list_update)

lemma excl_goto: "excl crit own ps \<Longrightarrow> crit p = crit (ps ! t) \<Longrightarrow> excl crit own (ps[t := p])"
  unfolding excl_def at_goto by metis

lemma excl_enter: "excl crit None ps \<Longrightarrow> t < length ps \<Longrightarrow> crit p \<Longrightarrow> excl crit (Some t) (ps[t := p])"
  unfolding excl_def at_goto by (metis option.inject option.distinct(1))

lemma excl_leave: "excl crit (Some t) ps \<Longrightarrow> \<not> crit p \<Longrightarrow> excl crit None (ps[t := p])"
  unfolding excl_def at_goto by (metis option.inject option.distinct(1))

lemma waiters_goto: "waiters_ok ws P ps \<Longrightarrow> P p = P (ps ! t) \<Longrightarrow> waiters_ok ws P (ps[t := p])"
  unfolding waiters_ok_def at_goto by metis

lemma waiters_join:
  assumes "waiters_ok ws P ps" and "t < length ps" and "\<not> P (ps ! t)" and "P p"
  shows "waiters_ok (ws @ [t]) P (ps[t := p])"
  using assms unfolding waiters_ok_def at_goto by auto

lemma waiters_wake:
  assumes "waiters_ok ws P ps" and "t \<in> set ws" and "\<not> P p"
  shows "waiters_ok (remove1 t ws) P (ps[t := p])"
  using assms unfolding waiters_ok_def at_goto by auto

text \<open>What all threads together add up to.\<close>

definition tally :: "('p \<Rightarrow> 'b :: comm_monoid_add) \<Rightarrow> 'p list \<Rightarrow> 'b" where
  "tally f ps = sum_list (map f ps)"

lemma tally_update: "t < length ps \<Longrightarrow> tally f (ps[t := p]) + f (ps ! t) = tally f ps + f p"
proof (induction ps arbitrary: t)
  case (Cons q ps)
  show ?case
  proof (cases t)
    case (Suc u)
    with Cons.IH [of u] Cons.prems show ?thesis by (simp add: tally_def ac_simps)
  qed (simp add: tally_def ac_simps)
qed simp

lemma tally_member:
  fixes f :: "'p \<Rightarrow> 'b multiset" and g :: "'p \<Rightarrow> nat"
  shows "x \<in># tally f ps \<longleftrightarrow> (\<exists>p \<in> set ps. x \<in># f p)"
    and "tally g ps = 0 \<longleftrightarrow> (\<forall>p \<in> set ps. g p = 0)"
  by (induction ps) (auto simp: tally_def)

lemma tally_replicate: "f p = 0 \<Longrightarrow> tally f (replicate m p) = 0"
  unfolding tally_def by (induction m) simp_all

end
