(* ===== verification/LoopThreads.thy ===== *)
theory LoopThreads
  imports EventLoop Monitor "HOL-Library.Word"
begin

text \<open>
  \<open>net/EventLoop.cc\<close> once more, at the level of its mutex: each thread has a position, thread 0
  inside \<open>loop\<close>, and any of them inside \<open>queueInLoop\<close>; one statement of one thread is a step.
  Thread 0 calls \<open>queueInLoop\<close> too, from an event handler or from a task. The counter of the
  event descriptor has its 64 bits: a write that would pass its maximum fails, and
  \<open>wakeup\<close> only logs that. The theory shows that the steps of theory \<open>EventLoop\<close> describe this.
\<close>

subsection \<open>The threads of a loop\<close>

datatype loop_pc =
    L_Other
  | L_Test | L_Poll | L_Wakeup | L_Handle | L_Lock | L_Swap | L_Unlock | L_Run | L_Task | L_Stop

datatype 'a queue_pc = Q_Lock 'a | Q_Push 'a | Q_Unlock | Q_Wake

datatype 'a loop_thread_pc = Own loop_pc | Queueing loop_pc "'a queue_pc"

record 'a loop_threads =
  lt_tasks :: "'a list"
  lt_local :: "'a list"
  lt_eventfd :: "64 word"
  lt_quit :: bool
  lt_mutex :: mutex
  lt_pcs :: "'a loop_thread_pc list"
  lt_queued :: "'a list"
  lt_done :: "'a list"

definition new_loop_threads :: "nat \<Rightarrow> 'a loop_threads" where
  "new_loop_threads others = \<lparr>lt_tasks = [], lt_local = [], lt_eventfd = 0, lt_quit = False,
     lt_mutex = new_mutex, lt_pcs = Own L_Test # replicate others (Own L_Other), lt_queued = [], lt_done = []\<rparr>"

definition lt_goto :: "nat \<Rightarrow> 'a loop_thread_pc \<Rightarrow> 'a loop_threads \<Rightarrow> 'a loop_threads" where
  "lt_goto t q s = s\<lparr>lt_pcs := (lt_pcs s)[t := q]\<rparr>"

text \<open>\<open>write\<close> of one to the event descriptor, whose counter stops at \<open>2 ^ 64 - 2\<close>.\<close>

definition eventfd_write :: "64 word \<Rightarrow> 64 word" where
  "eventfd_write n = (if n < - 2 then n + 1 else n)"

text \<open>What \<open>epollWait\<close> answers: an error, or whether the event descriptor is among the events.\<close>

datatype poll_answer = Poll_Fails | Poll_Returns bool

text \<open>
  The next statement of thread \<open>t\<close>, or \<open>None\<close> if it cannot go on by itself. Handlers and tasks do
  at these positions what they do; only their calls of \<open>queueInLoop\<close> concern the loop.
\<close>

fun loop_move :: "nat \<Rightarrow> poll_answer \<Rightarrow> 'a loop_thread_pc \<Rightarrow> 'a loop_threads \<Rightarrow> 'a loop_threads result option" where
  "loop_move t a (Own L_Other) s = None"
| "loop_move t a (Own L_Stop) s = None"
| "loop_move t a (Own L_Test) s = Some (Inr (lt_goto t (Own (if lt_quit s then L_Stop else L_Poll)) s))"
| "loop_move t a (Own L_Poll) s =
     (case a of
        Poll_Fails \<Rightarrow> Some (Inr (lt_goto t (Own L_Lock) (s\<lparr>lt_quit := True\<rparr>)))
      | Poll_Returns b \<Rightarrow>
          if b \<and> lt_eventfd s = 0 then None
          else Some (Inr (lt_goto t (Own (if b then L_Wakeup else L_Handle)) s)))"
| "loop_move t a (Own L_Wakeup) s = Some (Inr (lt_goto t (Own L_Handle) (s\<lparr>lt_eventfd := 0\<rparr>)))"
| "loop_move t a (Own L_Handle) s = Some (Inr (lt_goto t (Own L_Lock) s))"
| "loop_move t a (Own L_Lock) s =
     map_option (\<lambda>m. Inr (lt_goto t (Own L_Swap) (s\<lparr>lt_mutex := m\<rparr>))) (guard_enter t (lt_mutex s))"
| "loop_move t a (Own L_Swap) s =
     Some (Inr (lt_goto t (Own L_Unlock) (s\<lparr>lt_tasks := [], lt_local := lt_tasks s\<rparr>)))"
| "loop_move t a (Own L_Unlock) s =
     Some (res_map (\<lambda>m. lt_goto t (Own L_Run) (s\<lparr>lt_mutex := m\<rparr>)) (guard_leave t (lt_mutex s)))"
| "loop_move t a (Own L_Run) s = Some (Inr
     (case lt_local s of
        [] \<Rightarrow> lt_goto t (Own L_Test) s
      | x # xs \<Rightarrow> lt_goto t (Own L_Task) (s\<lparr>lt_local := xs, lt_done := lt_done s @ [x]\<rparr>)))"
| "loop_move t a (Own L_Task) s = Some (Inr (lt_goto t (Own L_Run) s))"
| "loop_move t a (Queueing p (Q_Lock x)) s =
     map_option (\<lambda>m. Inr (lt_goto t (Queueing p (Q_Push x)) (s\<lparr>lt_mutex := m\<rparr>))) (guard_enter t (lt_mutex s))"
| "loop_move t a (Queueing p (Q_Push x)) s = Some (Inr (lt_goto t (Queueing p Q_Unlock)
     (s\<lparr>lt_tasks := lt_tasks s @ [x], lt_queued := lt_queued s @ [x]\<rparr>)))"
| "loop_move t a (Queueing p Q_Unlock) s =
     Some (res_map (\<lambda>m. lt_goto t (Queueing p Q_Wake) (s\<lparr>lt_mutex := m\<rparr>)) (guard_leave t (lt_mutex s)))"
| "loop_move t a (Queueing p Q_Wake) s =
     Some (Inr (lt_goto t (Own p) (s\<lparr>lt_eventfd := eventfd_write (lt_eventfd s)\<rparr>)))"

text \<open>Where \<open>queueInLoop\<close> is called: by other threads, by event handlers, and by tasks.\<close>

fun may_queue :: "loop_pc \<Rightarrow> bool" where
  "may_queue L_Other = True"
| "may_queue L_Wakeup = True"
| "may_queue L_Handle = True"
| "may_queue L_Task = True"
| "may_queue p = False"

inductive loop_thread_step :: "'a loop_threads \<Rightarrow> 'a loop_threads \<Rightarrow> bool" where
  call: "t < length (lt_pcs s) \<Longrightarrow> lt_pcs s ! t = Own p \<Longrightarrow> may_queue p \<Longrightarrow>
    loop_thread_step s (lt_goto t (Queueing p (Q_Lock x)) s)"
| move: "t < length (lt_pcs s) \<Longrightarrow> loop_move t a (lt_pcs s ! t) s = Some (Inr s') \<Longrightarrow> loop_thread_step s s'"

subsection \<open>Where the threads are\<close>

fun lt_critical :: "'a loop_thread_pc \<Rightarrow> bool" where
  "lt_critical (Own p) \<longleftrightarrow> p = L_Swap \<or> p = L_Unlock"
| "lt_critical (Queueing p (Q_Push x)) = True"
| "lt_critical (Queueing p Q_Unlock) = True"
| "lt_critical (Queueing p q) = False"

fun lt_home :: "'a loop_thread_pc \<Rightarrow> loop_pc" where
  "lt_home (Own p) = p"
| "lt_home (Queueing p q) = p"

text \<open>Threads between the push and the write.\<close>

fun lt_waking :: "'a loop_thread_pc \<Rightarrow> nat" where
  "lt_waking (Queueing p Q_Unlock) = 1"
| "lt_waking (Queueing p Q_Wake) = 1"
| "lt_waking q = 0"

fun phase_of :: "loop_pc \<Rightarrow> loop_phase" where
  "phase_of L_Test = Testing"
| "phase_of L_Poll = Polling"
| "phase_of L_Wakeup = Handling True"
| "phase_of L_Handle = Swapping"
| "phase_of L_Lock = Swapping"
| "phase_of L_Swap = Swapping"
| "phase_of L_Stop = Stopped"
| "phase_of p = Running"

text \<open>The loop runs in thread 0, and only handlers and tasks queue from there.\<close>

fun lt_placed :: "nat \<Rightarrow> 'a loop_thread_pc \<Rightarrow> bool" where
  "lt_placed t (Own p) \<longleftrightarrow> (p = L_Other \<longleftrightarrow> t \<noteq> 0)"
| "lt_placed t (Queueing p q) \<longleftrightarrow> (p = L_Other \<longleftrightarrow> t \<noteq> 0) \<and> may_queue p"

definition lt_ok :: "'a loop_threads \<Rightarrow> bool" where
  "lt_ok s \<longleftrightarrow> excl lt_critical (mx_owner (lt_mutex s)) (lt_pcs s) \<and> lt_pcs s \<noteq> [] \<and>
     (\<forall>t < length (lt_pcs s). lt_placed t (lt_pcs s ! t))"

definition lt_rel :: "'a loop_threads \<Rightarrow> 'a event_loop \<Rightarrow> bool" where
  "lt_rel s w \<longleftrightarrow> lt_ok s \<and> tasks w = lt_tasks s \<and> t_task w = lt_local s \<and> quit w = lt_quit s \<and>
     phase w = phase_of (lt_home (lt_pcs s ! 0)) \<and> el_waking w = tally lt_waking (lt_pcs s) \<and>
     el_queued w = lt_queued s \<and> el_done w = lt_done s \<and> (0 < EventLoop.eventfd w \<longleftrightarrow> lt_eventfd s \<noteq> 0)"

lemma lt_goto_simps [simp]:
  "lt_tasks (lt_goto t q s) = lt_tasks s" "lt_local (lt_goto t q s) = lt_local s"
  "lt_eventfd (lt_goto t q s) = lt_eventfd s" "lt_quit (lt_goto t q s) = lt_quit s"
  "lt_mutex (lt_goto t q s) = lt_mutex s" "lt_pcs (lt_goto t q s) = (lt_pcs s)[t := q]"
  "lt_queued (lt_goto t q s) = lt_queued s" "lt_done (lt_goto t q s) = lt_done s"
  by (simp_all add: lt_goto_def)

lemma eventfd_write_pos [simp]: "eventfd_write n \<noteq> 0"
proof -
  have "n \<noteq> - 1" if "n < - 2" using that by auto
  moreover have "(0 :: 64 word) < - 2" by (simp add: word_less_nat_alt)
  ultimately show ?thesis by (auto simp: eventfd_write_def eq_neg_iff_add_eq_0)
qed

lemma lt_inside:
  assumes "lt_ok s" and "t < length (lt_pcs s)" and "lt_critical (lt_pcs s ! t)"
  shows "mx_owner (lt_mutex s) = Some t"
  using assms by (auto simp: lt_ok_def excl_def)

lemma lt_waking_update:
  "t < length ps \<Longrightarrow> tally lt_waking (ps[t := q]) + lt_waking (ps ! t) = tally lt_waking ps + lt_waking q"
  by (rule tally_update)

subsection \<open>The simulation\<close>

text \<open>
  One statement: the thread goes from its position to \<open>q\<close>. What it does to the rest has to be
  followed by the atomic loop.
\<close>

lemma lt_follow:
  assumes "lt_rel s w" and "t < length (lt_pcs s)" and "lt_pcs s' = (lt_pcs s)[t := q]"
    and "excl lt_critical (mx_owner (lt_mutex s')) ((lt_pcs s)[t := q])"
    and "lt_placed t (lt_pcs s ! t) \<Longrightarrow> lt_placed t q"
    and "loop_step\<^sup>*\<^sup>* w w'"
    and "tasks w' = lt_tasks s'" and "t_task w' = lt_local s'" and "quit w' = lt_quit s'"
    and "phase w' = (if t = 0 then phase_of (lt_home q) else phase w)"
    and "el_waking w' + lt_waking (lt_pcs s ! t) = el_waking w + lt_waking q"
    and "el_queued w' = lt_queued s'" and "el_done w' = lt_done s'" and "0 < EventLoop.eventfd w' \<longleftrightarrow> lt_eventfd s' \<noteq> 0"
  shows "\<exists>w'. loop_step\<^sup>*\<^sup>* w w' \<and> lt_rel s' w'"
proof -
  have ok: "lt_ok s" using assms(1) by (simp add: lt_rel_def)
  have "lt_ok s'"
    using ok assms(2-5) by (auto simp: lt_ok_def nth_list_update)
  moreover have "phase w' = phase_of (lt_home (lt_pcs s' ! 0))"
    using assms(1-3,10) by (simp add: lt_rel_def nth_list_update split: if_splits)
  moreover have "el_waking w' = tally lt_waking (lt_pcs s')"
    using assms(1,3,11) lt_waking_update [OF assms(2), of q] by (simp add: lt_rel_def)
  ultimately have "lt_rel s' w'" using assms(7-9,12-14) by (simp add: lt_rel_def)
  with assms(6) show ?thesis by blast
qed

lemma lt_main:
  assumes "lt_rel s w" and "t < length (lt_pcs s)" and "lt_pcs s ! t = Own p" and "p \<noteq> L_Other"
  shows "t = 0 \<and> phase w = phase_of p"
  using assms by (auto simp: lt_rel_def lt_ok_def)

lemma lt_excl: "lt_rel s w \<Longrightarrow> excl lt_critical (mx_owner (lt_mutex s)) (lt_pcs s)"
  by (simp add: lt_rel_def lt_ok_def)

text \<open>A statement that the atomic loop does not see.\<close>

lemma lt_silent:
  assumes "lt_rel s w" and "t < length (lt_pcs s)" and "lt_pcs s' = (lt_pcs s)[t := q]"
    and "excl lt_critical (mx_owner (lt_mutex s')) ((lt_pcs s)[t := q])"
    and "lt_placed t (lt_pcs s ! t) \<Longrightarrow> lt_placed t q"
    and "phase_of (lt_home q) = phase_of (lt_home (lt_pcs s ! t))" and "lt_waking q = lt_waking (lt_pcs s ! t)"
    and "lt_tasks s' = lt_tasks s" and "lt_local s' = lt_local s" and "lt_quit s' = lt_quit s"
    and "lt_queued s' = lt_queued s" and "lt_done s' = lt_done s" and "lt_eventfd s' = lt_eventfd s"
  shows "\<exists>w'. loop_step\<^sup>*\<^sup>* w w' \<and> lt_rel s' w'"
  using assms(1) by (intro lt_follow [OF assms(1-5) rtranclp.rtrancl_refl]) (auto simp: lt_rel_def assms(6-13))

lemma lt_enter:
  assumes "lt_rel s w" and "t < length (lt_pcs s)" and "guard_enter t (lt_mutex s) = Some m" and "lt_critical q"
    and "lt_placed t (lt_pcs s ! t) \<Longrightarrow> lt_placed t q"
    and "phase_of (lt_home q) = phase_of (lt_home (lt_pcs s ! t))" and "lt_waking q = lt_waking (lt_pcs s ! t)"
  shows "\<exists>w'. loop_step\<^sup>*\<^sup>* w w' \<and> lt_rel (lt_goto t q (s\<lparr>lt_mutex := m\<rparr>)) w'"
proof (rule lt_silent [OF assms(1,2) _ _ assms(5-7)])
  show "excl lt_critical (mx_owner (lt_mutex (lt_goto t q (s\<lparr>lt_mutex := m\<rparr>)))) ((lt_pcs s)[t := q])"
    using lt_excl [OF assms(1)] assms(2-4) by (auto simp: guard_enter_def intro!: excl_enter)
qed simp_all

lemma lt_leave:
  assumes "lt_rel s w" and "t < length (lt_pcs s)" and "lt_critical (lt_pcs s ! t)" and "\<not> lt_critical q"
    and "lt_placed t (lt_pcs s ! t) \<Longrightarrow> lt_placed t q"
    and "phase_of (lt_home q) = phase_of (lt_home (lt_pcs s ! t))" and "lt_waking q = lt_waking (lt_pcs s ! t)"
  shows "\<exists>m w'. guard_leave t (lt_mutex s) = Inr m \<and> loop_step\<^sup>*\<^sup>* w w' \<and>
    lt_rel (lt_goto t q (s\<lparr>lt_mutex := m\<rparr>)) w'"
proof -
  have own: "mx_owner (lt_mutex s) = Some t"
    using assms(1-3) lt_inside by (auto simp: lt_rel_def)
  let ?m = "lt_mutex s\<lparr>mx_owner := None\<rparr>"
  have "\<exists>w'. loop_step\<^sup>*\<^sup>* w w' \<and> lt_rel (lt_goto t q (s\<lparr>lt_mutex := ?m\<rparr>)) w'"
  proof (rule lt_silent [OF assms(1,2) _ _ assms(5-7)])
    show "excl lt_critical (mx_owner (lt_mutex (lt_goto t q (s\<lparr>lt_mutex := ?m\<rparr>)))) ((lt_pcs s)[t := q])"
      using lt_excl [OF assms(1)] own assms(4) by (simp add: excl_leave)
  qed simp_all
  then show ?thesis by (simp add: guard_leave_def own)
qed

text \<open>A statement of the loop that is a step of the atomic loop, or two.\<close>

lemma lt_loop:
  assumes "lt_rel s w" and "t < length (lt_pcs s)" and "lt_pcs s ! t = Own p" and "p \<noteq> L_Other" and "q \<noteq> L_Other"
    and "lt_pcs s' = (lt_pcs s)[t := Own q]" and "lt_mutex s' = lt_mutex s" and "lt_critical (Own q) = lt_critical (lt_pcs s ! t)"
    and "loop_step\<^sup>*\<^sup>* w w'" and "tasks w' = lt_tasks s'" and "t_task w' = lt_local s'" and "quit w' = lt_quit s'"
    and "phase w' = phase_of q" and "el_waking w' = el_waking w"
    and "el_queued w' = lt_queued s'" and "el_done w' = lt_done s'" and "0 < EventLoop.eventfd w' \<longleftrightarrow> lt_eventfd s' \<noteq> 0"
  shows "\<exists>w'. loop_step\<^sup>*\<^sup>* w w' \<and> lt_rel s' w'"
proof (rule lt_follow [OF assms(1,2,6) _ _ assms(9-12) _ _ assms(15-17)])
  show "excl lt_critical (mx_owner (lt_mutex s')) ((lt_pcs s)[t := Own q])"
    using lt_excl [OF assms(1)] assms(7,8) by (simp add: excl_goto)
qed (use assms lt_main [OF assms(1-4)] in simp_all)

lemma lt_poll:
  assumes "lt_rel s w" and "t < length (lt_pcs s)" and "lt_pcs s ! t = Own L_Poll"
    and "loop_move t a (lt_pcs s ! t) s = Some r"
  shows "\<exists>s' w'. r = Inr s' \<and> loop_step\<^sup>*\<^sup>* w w' \<and> lt_rel s' w'"
proof -
  have w: "phase w = Polling" "tasks w = lt_tasks s" "t_task w = lt_local s" "quit w = lt_quit s" "el_queued w = lt_queued s"
      "el_done w = lt_done s" "0 < EventLoop.eventfd w \<longleftrightarrow> lt_eventfd s \<noteq> 0"
    using assms(1) lt_main [OF assms(1-3)] by (simp_all add: lt_rel_def)
  consider (fails) "a = Poll_Fails" | (wake) "a = Poll_Returns True" | (other) "a = Poll_Returns False"
    by (cases a) (metis (full_types))+
  then show ?thesis
  proof cases
    case fails
    let ?w1 = "w\<lparr>phase := Handling False, quit := True\<rparr>"
    have "loop_step w ?w1" using w(1) by (rule loop_step.poll_fails)
    moreover have "loop_step ?w1 (?w1\<lparr>phase := Swapping\<rparr>)" using loop_step.handle [of ?w1 False] by simp
    ultimately have "loop_step\<^sup>*\<^sup>* w (?w1\<lparr>phase := Swapping\<rparr>)" by (meson converse_rtranclp_into_rtranclp r_into_rtranclp)
    from lt_loop [OF assms(1-3) _ _ _ _ _ this, of L_Lock] fails assms(3,4) w show ?thesis by auto
  next
    case wake
    then have fd: "lt_eventfd s \<noteq> 0" and r: "r = Inr (lt_goto t (Own L_Wakeup) s)"
      using assms(3,4) by (auto split: if_splits)
    then have "loop_step w (w\<lparr>phase := Handling True\<rparr>)" using w(1,7) by (intro loop_step.poll) simp_all
    then have "loop_step\<^sup>*\<^sup>* w (w\<lparr>phase := Handling True\<rparr>)" ..
    from lt_loop [OF assms(1-3) _ _ _ _ _ this, of L_Wakeup] r assms(3) w show ?thesis by auto
  next
    case other
    let ?w1 = "w\<lparr>phase := Handling False\<rparr>"
    have "loop_step w ?w1" using w(1) by (intro loop_step.poll) simp_all
    moreover have "loop_step ?w1 (?w1\<lparr>phase := Swapping\<rparr>)" using loop_step.handle [of ?w1 False] by simp
    ultimately have "loop_step\<^sup>*\<^sup>* w (?w1\<lparr>phase := Swapping\<rparr>)" by (meson converse_rtranclp_into_rtranclp r_into_rtranclp)
    from lt_loop [OF assms(1-3) _ _ _ _ _ this, of L_Handle] other assms(3,4) w show ?thesis by auto
  qed
qed

text \<open>Whatever a thread executes is right, and the atomic loop can follow.\<close>

lemma lt_own_move:
  assumes "lt_rel s w" and "t < length (lt_pcs s)" and "lt_pcs s ! t = Own p"
    and "loop_move t a (lt_pcs s ! t) s = Some r"
  shows "\<exists>s' w'. r = Inr s' \<and> loop_step\<^sup>*\<^sup>* w w' \<and> lt_rel s' w'"
proof -
  have same: "tasks w = lt_tasks s" "t_task w = lt_local s" "quit w = lt_quit s" "el_queued w = lt_queued s"
      "el_done w = lt_done s" "0 < EventLoop.eventfd w \<longleftrightarrow> lt_eventfd s \<noteq> 0"
    using assms(1) by (simp_all add: lt_rel_def)
  have phase: "phase w = phase_of p" if "p \<noteq> L_Other" using lt_main [OF assms(1-3) that] by blast
  note loop = lt_loop [OF assms(1-3) _ _ _ _ _ r_into_rtranclp [of loop_step]]
  note quiet = lt_silent [OF assms(1,2)]
  show ?thesis
  proof (cases p)
    case L_Test
    have "loop_step w (w\<lparr>phase := if lt_quit s then Stopped else Polling\<rparr>)"
      using phase L_Test same(3) by (auto intro: loop_step.enter loop_step.leave)
    from loop [OF _ _ _ _ _ this, of "if lt_quit s then L_Stop else L_Poll"] same assms(3,4) L_Test show ?thesis by auto
  next
    case L_Poll
    with lt_poll [OF assms(1,2) _ assms(4)] assms(3) show ?thesis by blast
  next
    case L_Wakeup
    have "loop_step w ((loop_handleRead w)\<lparr>phase := Swapping\<rparr>)"
      using loop_step.handle [of w True] phase L_Wakeup by simp
    from loop [OF _ _ _ _ _ this, of L_Handle] same assms(3,4) L_Wakeup show ?thesis
      by (auto simp: loop_handleRead_def)
  next
    case L_Handle
    from quiet [of "lt_goto t (Own L_Lock) s" "Own L_Lock"] excl_goto [OF lt_excl [OF assms(1)]] assms(3,4) L_Handle
    show ?thesis by auto
  next
    case L_Lock
    then obtain m where "guard_enter t (lt_mutex s) = Some m" "r = Inr (lt_goto t (Own L_Swap) (s\<lparr>lt_mutex := m\<rparr>))"
      using assms(3,4) by auto
    with lt_enter [OF assms(1,2) this(1), of "Own L_Swap"] assms(3) L_Lock show ?thesis by simp
  next
    case L_Swap
    have "loop_step w ((swap_tasks w)\<lparr>phase := Running\<rparr>)" using phase L_Swap by (intro loop_step.swap) simp
    from loop [OF _ _ _ _ _ this, of L_Unlock] same assms(3,4) L_Swap show ?thesis by (auto simp: swap_tasks_def)
  next
    case L_Unlock
    with lt_leave [OF assms(1,2), of "Own L_Run"] assms(3,4) show ?thesis by auto
  next
    case L_Run
    show ?thesis
    proof (cases "lt_local s")
      case Nil
      then have "loop_step w (w\<lparr>phase := Testing\<rparr>)" using phase L_Run same(2) by (intro loop_step.again) simp_all
      from loop [OF _ _ _ _ _ this, of L_Test] same assms(3,4) L_Run Nil show ?thesis by auto
    next
      case (Cons x xs)
      then have "loop_step w (w\<lparr>t_task := xs, el_done := el_done w @ [x]\<rparr>)"
        using phase L_Run same(2) by (intro loop_step.run) simp_all
      from loop [OF _ _ _ _ _ this, of L_Task] same assms(3,4) L_Run Cons phase show ?thesis by auto
    qed
  next
    case L_Task
    from quiet [of "lt_goto t (Own L_Run) s" "Own L_Run"] excl_goto [OF lt_excl [OF assms(1)]] assms(3,4) L_Task
    show ?thesis by auto
  qed (use assms(3,4) in simp_all)
qed

lemma lt_queue_move:
  assumes "lt_rel s w" and "t < length (lt_pcs s)" and "lt_pcs s ! t = Queueing p q"
    and "loop_move t a (lt_pcs s ! t) s = Some r"
  shows "\<exists>s' w'. r = Inr s' \<and> loop_step\<^sup>*\<^sup>* w w' \<and> lt_rel s' w'"
proof -
  have same: "tasks w = lt_tasks s" "t_task w = lt_local s" "quit w = lt_quit s" "el_queued w = lt_queued s"
      "el_done w = lt_done s" "0 < EventLoop.eventfd w \<longleftrightarrow> lt_eventfd s \<noteq> 0" "el_waking w = tally lt_waking (lt_pcs s)"
    using assms(1) by (simp_all add: lt_rel_def)
  have phase: "phase w = phase_of p" if "t = 0" using assms(1,3) that by (simp add: lt_rel_def)
  note follow = lt_follow [OF assms(1,2) _ _ _ r_into_rtranclp [of loop_step]]
  note excl = excl_goto [OF lt_excl [OF assms(1)]]
  show ?thesis
  proof (cases q)
    case (Q_Lock x)
    then obtain m where "guard_enter t (lt_mutex s) = Some m"
        "r = Inr (lt_goto t (Queueing p (Q_Push x)) (s\<lparr>lt_mutex := m\<rparr>))"
      using assms(3,4) by auto
    with lt_enter [OF assms(1,2) this(1), of "Queueing p (Q_Push x)"] assms(3) Q_Lock show ?thesis by simp
  next
    case (Q_Push x)
    from follow [OF _ _ _ loop_step.push, of _ "Queueing p Q_Unlock" x] same phase excl assms(3,4) Q_Push
    show ?thesis by (auto simp: queue_push_def)
  next
    case Q_Unlock
    with lt_leave [OF assms(1,2), of "Queueing p Q_Wake"] assms(3,4) show ?thesis by auto
  next
    case Q_Wake
    have "lt_waking (lt_pcs s ! t) \<le> tally lt_waking (lt_pcs s)"
      using lt_waking_update [OF assms(2), of "Own p"] by simp
    then have "0 < el_waking w" using same(7) assms(3) Q_Wake by simp
    note wakes = follow [OF _ _ _ loop_step.wake [OF this], where q = "Own p"]
    have "may_queue p" using assms(1-3) by (auto simp: lt_rel_def lt_ok_def)
    then have "p \<noteq> L_Swap" "p \<noteq> L_Unlock" by auto
    then have "excl lt_critical (mx_owner (lt_mutex s)) ((lt_pcs s)[t := Own p])"
      using excl [of "Own p" t] assms(3) Q_Wake by simp
    then have "\<exists>w'. loop_step\<^sup>*\<^sup>* w w' \<and> lt_rel (lt_goto t (Own p) (s\<lparr>lt_eventfd := eventfd_write (lt_eventfd s)\<rparr>)) w'"
      using same phase assms(3) Q_Wake \<open>0 < el_waking w\<close> by (intro wakes) (simp_all add: wakeup_def)
    moreover have "r = Inr (lt_goto t (Own p) (s\<lparr>lt_eventfd := eventfd_write (lt_eventfd s)\<rparr>))"
      using assms(3,4) Q_Wake by simp
    ultimately show ?thesis by blast
  qed
qed

lemma lt_move:
  assumes "lt_rel s w" and "t < length (lt_pcs s)" and "loop_move t a (lt_pcs s ! t) s = Some r"
  shows "\<exists>s' w'. r = Inr s' \<and> loop_step\<^sup>*\<^sup>* w w' \<and> lt_rel s' w'"
  using lt_own_move [OF assms(1,2) _ assms(3)] lt_queue_move [OF assms(1,2) _ assms(3)]
  by (cases "lt_pcs s ! t") blast+

lemma lt_step:
  assumes "loop_thread_step s s'" and "lt_rel s w"
  shows "\<exists>w'. loop_step\<^sup>*\<^sup>* w w' \<and> lt_rel s' w'"
  using assms(1)
proof (cases rule: loop_thread_step.cases)
  case (call t p x)
  from lt_silent [OF assms(2) call(2), of s' "Queueing p (Q_Lock x)"] call
    excl_goto [OF lt_excl [OF assms(2)], of "Queueing p (Q_Lock x)" t]
  show ?thesis by (auto elim: may_queue.elims)
next
  case (move t a)
  from lt_move [OF assms(2) this] show ?thesis by blast
qed

interpretation loop_sim: simulation loop_thread_step loop_step lt_rel
  by unfold_locales (rule lt_step)

lemma lt_rel_new: "lt_rel (new_loop_threads n) new_event_loop"
  by (auto simp: lt_rel_def lt_ok_def excl_def new_loop_threads_def new_event_loop_def new_mutex_def
    nth_Cons tally_def sum_list_replicate split: nat.splits)

subsection \<open>The loop at the level of its mutex is the loop\<close>

text \<open>
  C6: the loop and \<open>queueInLoop\<close> over the mutex. Whatever the threads do, one statement at a
  time, in any interleaving, any number of calls of \<open>queueInLoop\<close> at once, from other threads,
  from handlers and from tasks: no statement goes wrong, no two threads are inside the lock at
  once, the state is one that the loop with atomic critical sections can reach, and the tasks
  that have run are the first ones queued, in the order in which they entered the vector.
\<close>

theorem event_loop_refines:
  assumes "loop_thread_step\<^sup>*\<^sup>* (new_loop_threads n) s"
  shows "(\<exists>w. loop_step\<^sup>*\<^sup>* new_event_loop w \<and> tasks w = lt_tasks s \<and> t_task w = lt_local s \<and>
      el_queued w = lt_queued s \<and> el_done w = lt_done s \<and> phase w = phase_of (lt_home (lt_pcs s ! 0))) \<and>
    lt_queued s = lt_done s @ lt_local s @ lt_tasks s \<and>
    (\<forall>t < length (lt_pcs s). \<forall>u < length (lt_pcs s).
      lt_critical (lt_pcs s ! t) \<longrightarrow> lt_critical (lt_pcs s ! u) \<longrightarrow> t = u) \<and>
    (\<forall>t < length (lt_pcs s). \<forall>a e. loop_move t a (lt_pcs s ! t) s \<noteq> Some (Inl e))"
proof -
  obtain w where w: "loop_step\<^sup>*\<^sup>* new_event_loop w" "lt_rel s w"
    using loop_sim.run [OF assms lt_rel_new] by blast
  have inv: "loop_inv w" by (rule loop_runs.run [OF w(1) loop_inv_new])
  note rel = w(2) [unfolded lt_rel_def]
  have "\<exists>w. loop_step\<^sup>*\<^sup>* new_event_loop w \<and> tasks w = lt_tasks s \<and> t_task w = lt_local s \<and>
      el_queued w = lt_queued s \<and> el_done w = lt_done s \<and> phase w = phase_of (lt_home (lt_pcs s ! 0))"
    using w(1) rel by (intro exI [of _ w]) simp
  moreover have "lt_queued s = lt_done s @ lt_local s @ lt_tasks s" using inv rel by (simp add: loop_inv_def)
  moreover have "t = u" if "t < length (lt_pcs s)" "u < length (lt_pcs s)" "lt_critical (lt_pcs s ! t)"
      "lt_critical (lt_pcs s ! u)" for t u
    using lt_inside [OF conjunct1 [OF rel] that(1,3)] lt_inside [OF conjunct1 [OF rel] that(2,4)] by simp
  moreover have "loop_move t a (lt_pcs s ! t) s \<noteq> Some (Inl e)" if "t < length (lt_pcs s)" for t a e
    using lt_move [OF w(2) that, of a "Inl e"] by blast
  ultimately show ?thesis by (intro conjI allI impI) blast+
qed

subsection \<open>No task is forgotten\<close>

text \<open>The holder of the mutex leaves its critical section without anyone's help.\<close>

lemma lt_free:
  assumes "lt_ok s" and "\<not> lt_critical (lt_pcs s ! 0)"
  shows "\<exists>s' ys. loop_thread_step\<^sup>*\<^sup>* s s' \<and> mx_owner (lt_mutex s') = None \<and> lt_pcs s' ! 0 = lt_pcs s ! 0 \<and>
    lt_pcs s' \<noteq> [] \<and> lt_tasks s' = lt_tasks s @ ys \<and> lt_done s' = lt_done s"
proof (cases "mx_owner (lt_mutex s)")
  case None
  with assms(1) show ?thesis by (auto simp: lt_ok_def)
next
  case (Some t)
  then have t: "t < length (lt_pcs s)" "lt_critical (lt_pcs s ! t)" "lt_placed t (lt_pcs s ! t)"
    using assms(1) by (auto simp: lt_ok_def excl_def)
  then have "t \<noteq> 0" using assms(2) by (cases "t = 0") auto
  let ?free = "\<lambda>s q. lt_goto t q (s\<lparr>lt_mutex := lt_mutex s\<lparr>mx_owner := None\<rparr>\<rparr>)"
  have leave: "loop_thread_step s1 (?free s1 (Queueing p Q_Wake))"
    if "t < length (lt_pcs s1)" "lt_pcs s1 ! t = Queueing p Q_Unlock" "mx_owner (lt_mutex s1) = Some t" for s1 p
    using that by (intro loop_thread_step.move [where t = t]) (simp_all add: guard_leave_def mutex_unlock_def)
  consider (push) p x where "lt_pcs s ! t = Queueing p (Q_Push x)" | (unlock) p where "lt_pcs s ! t = Queueing p Q_Unlock"
    using t(2,3) \<open>t \<noteq> 0\<close> by (cases "lt_pcs s ! t" rule: lt_critical.cases) auto
  then show ?thesis
  proof cases
    case push
    let ?s1 = "lt_goto t (Queueing p Q_Unlock) (s\<lparr>lt_tasks := lt_tasks s @ [x], lt_queued := lt_queued s @ [x]\<rparr>)"
    have "loop_thread_step s ?s1" using t(1) push by (intro loop_thread_step.move [where t = t]) simp_all
    moreover have "loop_thread_step ?s1 (?free ?s1 (Queueing p Q_Wake))" using t(1) Some by (intro leave) simp_all
    ultimately have "loop_thread_step\<^sup>*\<^sup>* s (?free ?s1 (Queueing p Q_Wake))"
      by (meson converse_rtranclp_into_rtranclp r_into_rtranclp)
    then show ?thesis
      using \<open>t \<noteq> 0\<close> t(1) by (intro exI [of _ "?free ?s1 (Queueing p Q_Wake)"] exI [of _ "[x]"]) auto
  next
    case unlock
    then have "loop_thread_step s (?free s (Queueing p Q_Wake))" using t(1) Some by (intro leave) simp_all
    then show ?thesis
      using \<open>t \<noteq> 0\<close> t(1) by (intro exI [of _ "?free s (Queueing p Q_Wake)"] exI [of _ "[]"]) auto
  qed
qed

text \<open>A thread past its push writes to the descriptor without anyone's help.\<close>

lemma lt_wakes:
  assumes "lt_ok s" and "t < length (lt_pcs s)" and "lt_waking (lt_pcs s ! t) \<noteq> 0" and "t \<noteq> 0"
  shows "\<exists>s'. loop_thread_step\<^sup>*\<^sup>* s s' \<and> lt_eventfd s' \<noteq> 0 \<and> lt_pcs s' ! 0 = lt_pcs s ! 0 \<and>
    lt_tasks s' = lt_tasks s \<and> lt_done s' = lt_done s"
proof -
  have writes: "\<exists>s'. loop_thread_step s1 s' \<and> lt_eventfd s' \<noteq> 0 \<and> lt_pcs s' ! 0 = lt_pcs s1 ! 0 \<and>
      lt_tasks s' = lt_tasks s1 \<and> lt_done s' = lt_done s1"
    if "t < length (lt_pcs s1)" "lt_pcs s1 ! t = Queueing p Q_Wake" for s1 :: "'a loop_threads" and p
    using that assms(4)
    by (intro exI [of _ "lt_goto t (Own p) (s1\<lparr>lt_eventfd := eventfd_write (lt_eventfd s1)\<rparr>)"] conjI
        loop_thread_step.move [where t = t]) simp_all
  consider (wake) p where "lt_pcs s ! t = Queueing p Q_Wake" | (unlock) p where "lt_pcs s ! t = Queueing p Q_Unlock"
    using assms(3) by (cases "lt_pcs s ! t" rule: lt_waking.cases) auto
  then show ?thesis
  proof cases
    case wake
    with writes [OF assms(2)] show ?thesis by blast
  next
    case unlock
    then have "mx_owner (lt_mutex s) = Some t" using lt_inside [OF assms(1,2)] by simp
    let ?s1 = "lt_goto t (Queueing p Q_Wake) (s\<lparr>lt_mutex := lt_mutex s\<lparr>mx_owner := None\<rparr>\<rparr>)"
    have "loop_thread_step s ?s1"
      using assms(2) unlock \<open>mx_owner (lt_mutex s) = Some t\<close>
      by (intro loop_thread_step.move [where t = t]) (simp_all add: guard_leave_def mutex_unlock_def)
    moreover obtain s' where "loop_thread_step ?s1 s'" "lt_eventfd s' \<noteq> 0" "lt_pcs s' ! 0 = lt_pcs s ! 0"
        "lt_tasks s' = lt_tasks s" "lt_done s' = lt_done s"
      using writes [of ?s1] assms(2,4) by auto
    ultimately show ?thesis by (meson converse_rtranclp_into_rtranclp r_into_rtranclp)
  qed
qed

text \<open>One turn of the loop from its lock on, undisturbed.\<close>

lemma lt_runs:
  "lt_pcs s \<noteq> [] \<Longrightarrow> lt_pcs s ! 0 = Own L_Run \<Longrightarrow> \<exists>s'. loop_thread_step\<^sup>*\<^sup>* s s' \<and> lt_pcs s' ! 0 = Own L_Test \<and>
    lt_done s' = lt_done s @ lt_local s"
proof (induction "lt_local s" arbitrary: s)
  case Nil
  then have "loop_thread_step s (lt_goto 0 (Own L_Test) s)"
    by (intro loop_thread_step.move [where t = 0]) (simp_all split: list.split)
  with Nil show ?case by (intro exI [of _ "lt_goto 0 (Own L_Test) s"]) auto
next
  case (Cons x xs)
  let ?s1 = "lt_goto 0 (Own L_Task) (s\<lparr>lt_local := xs, lt_done := lt_done s @ [x]\<rparr>)"
  let ?s2 = "lt_goto 0 (Own L_Run) ?s1"
  have "loop_thread_step s ?s1"
    using Cons.prems Cons.hyps(2) [symmetric] by (intro loop_thread_step.move [where t = 0]) simp_all
  moreover have "loop_thread_step ?s1 ?s2"
    using Cons by (intro loop_thread_step.move [where t = 0]) simp_all
  moreover obtain s' where "loop_thread_step\<^sup>*\<^sup>* ?s2 s'" "lt_pcs s' ! 0 = Own L_Test" "lt_done s' = lt_done s @ x # xs"
    using Cons.hyps(1) [of ?s2] Cons.prems by auto
  ultimately show ?case using Cons.hyps(2) by (metis converse_rtranclp_into_rtranclp)
qed

lemma lt_turn:
  assumes "lt_pcs s \<noteq> []" and "lt_pcs s ! 0 = Own L_Lock" and "mx_owner (lt_mutex s) = None"
  shows "\<exists>s'. loop_thread_step\<^sup>*\<^sup>* s s' \<and> lt_pcs s' ! 0 = Own L_Test \<and> lt_done s' = lt_done s @ lt_tasks s"
proof -
  let ?s1 = "lt_goto 0 (Own L_Swap) (s\<lparr>lt_mutex := lt_mutex s\<lparr>mx_owner := Some 0\<rparr>\<rparr>)"
  let ?s2 = "lt_goto 0 (Own L_Unlock) (?s1\<lparr>lt_tasks := [], lt_local := lt_tasks s\<rparr>)"
  let ?s3 = "lt_goto 0 (Own L_Run) (?s2\<lparr>lt_mutex := lt_mutex s\<lparr>mx_owner := None\<rparr>\<rparr>)"
  have s1: "loop_thread_step s ?s1"
    using assms by (intro loop_thread_step.move [where t = 0]) (simp_all add: guard_enter_def mutex_lock_def)
  have s2: "loop_thread_step ?s1 ?s2"
    using assms by (intro loop_thread_step.move [where t = 0]) simp_all
  have s3: "loop_thread_step ?s2 ?s3"
    using assms by (intro loop_thread_step.move [where t = 0]) (simp_all add: guard_leave_def mutex_unlock_def)
  obtain s' where s': "loop_thread_step\<^sup>*\<^sup>* ?s3 s'" "lt_pcs s' ! 0 = Own L_Test" "lt_done s' = lt_done s @ lt_tasks s"
    using lt_runs [of ?s3] assms(1) by auto
  have "loop_thread_step\<^sup>*\<^sup>* s s'"
    by (rule converse_rtranclp_into_rtranclp [OF s1 converse_rtranclp_into_rtranclp [OF s2
        converse_rtranclp_into_rtranclp [OF s3 s'(1)]]])
  with s'(2,3) show ?thesis by blast
qed

lemma lt_reachable_ok: "lt_rel s w \<Longrightarrow> loop_thread_step\<^sup>*\<^sup>* s s' \<Longrightarrow> lt_ok s'"
  using loop_sim.run [of s s' w] by (auto simp: lt_rel_def)

lemma lt_holder_moves:
  "lt_critical (lt_pcs s ! t) \<Longrightarrow> mx_owner (lt_mutex s) = Some t \<Longrightarrow> \<exists>s'. \<forall>a. loop_move t a (lt_pcs s ! t) s = Some (Inr s')"
  by (cases "lt_pcs s ! t" rule: lt_critical.cases) (auto simp: guard_leave_def mutex_unlock_def)

text \<open>Once the descriptor is readable, the loop leaves its wait and runs what is queued.\<close>

lemma lt_polled:
  assumes "lt_rel s w" and "lt_pcs s ! 0 = Own L_Poll" and "lt_eventfd s \<noteq> 0"
  shows "\<exists>s' ys. loop_thread_step\<^sup>*\<^sup>* s s' \<and> lt_pcs s' ! 0 = Own L_Test \<and> lt_done s' = lt_done s @ lt_tasks s @ ys"
proof -
  have ne: "lt_pcs s \<noteq> []" using assms(1) by (simp add: lt_rel_def lt_ok_def)
  let ?s1 = "lt_goto 0 (Own L_Wakeup) s"
  let ?s2 = "lt_goto 0 (Own L_Handle) (?s1\<lparr>lt_eventfd := 0\<rparr>)"
  let ?s3 = "lt_goto 0 (Own L_Lock) ?s2"
  have s1: "loop_thread_step s ?s1"
    using ne assms(2,3) by (intro loop_thread_step.move [where t = 0 and a = "Poll_Returns True"]) simp_all
  have s2: "loop_thread_step ?s1 ?s2" using ne by (intro loop_thread_step.move [where t = 0]) simp_all
  have s3: "loop_thread_step ?s2 ?s3" using ne by (intro loop_thread_step.move [where t = 0]) simp_all
  have to3: "loop_thread_step\<^sup>*\<^sup>* s ?s3"
    by (rule converse_rtranclp_into_rtranclp [OF s1 converse_rtranclp_into_rtranclp [OF s2
        r_into_rtranclp [of loop_thread_step, OF s3]]])
  obtain s4 ys where s4: "loop_thread_step\<^sup>*\<^sup>* ?s3 s4" "mx_owner (lt_mutex s4) = None" "lt_pcs s4 ! 0 = Own L_Lock"
      "lt_pcs s4 \<noteq> []" "lt_tasks s4 = lt_tasks s @ ys" "lt_done s4 = lt_done s"
    using lt_free [OF lt_reachable_ok [OF assms(1) to3]] ne by auto
  obtain s' where "loop_thread_step\<^sup>*\<^sup>* s4 s'" "lt_pcs s' ! 0 = Own L_Test" "lt_done s' = lt_done s @ lt_tasks s @ ys"
    using lt_turn [OF s4(4,3,2)] s4(5,6) by auto
  moreover have "loop_thread_step\<^sup>*\<^sup>* s s'" using to3 s4(1) calculation(1) by (meson rtranclp_trans)
  ultimately show ?thesis by blast
qed

text \<open>
  C30: no task is forgotten. In every state that the threads can reach: the thread inside the lock
  can go on, whatever the others do. If the loop is about to wait while tasks are queued, then
  the event descriptor is readable, or a thread is on its way from its push to the write; and
  from there the loop comes to run all tasks queued so far, in order, although other threads may
  be inside \<open>queueInLoop\<close>, and although a write fails when the counter is at its maximum.
\<close>

theorem event_loop_no_lost_task:
  assumes "loop_thread_step\<^sup>*\<^sup>* (new_loop_threads n) s"
  shows "(\<forall>t. mx_owner (lt_mutex s) = Some t \<longrightarrow> (\<exists>s'. \<forall>a. loop_move t a (lt_pcs s ! t) s = Some (Inr s'))) \<and>
    (lt_pcs s ! 0 = Own L_Poll \<and> lt_tasks s \<noteq> [] \<longrightarrow>
      (lt_eventfd s \<noteq> 0 \<or> (\<exists>t < length (lt_pcs s). lt_waking (lt_pcs s ! t) \<noteq> 0)) \<and>
      (\<exists>s' ys. loop_thread_step\<^sup>*\<^sup>* s s' \<and> lt_pcs s' ! 0 = Own L_Test \<and> lt_done s' = lt_queued s @ ys))"
proof -
  obtain w where w: "loop_step\<^sup>*\<^sup>* new_event_loop w" "lt_rel s w"
    using loop_sim.run [OF assms lt_rel_new] by blast
  have inv: "loop_inv w" by (rule loop_runs.run [OF w(1) loop_inv_new])
  have ok: "lt_ok s" using w(2) by (simp add: lt_rel_def)
  have "\<exists>s'. \<forall>a. loop_move t a (lt_pcs s ! t) s = Some (Inr s')" if "mx_owner (lt_mutex s) = Some t" for t
  proof (rule lt_holder_moves [OF _ that])
    show "lt_critical (lt_pcs s ! t)" using that ok unfolding lt_ok_def excl_def by blast
  qed
  moreover have "(lt_eventfd s \<noteq> 0 \<or> (\<exists>t < length (lt_pcs s). lt_waking (lt_pcs s ! t) \<noteq> 0)) \<and>
      (\<exists>s' ys. loop_thread_step\<^sup>*\<^sup>* s s' \<and> lt_pcs s' ! 0 = Own L_Test \<and> lt_done s' = lt_queued s @ ys)"
    if poll: "lt_pcs s ! 0 = Own L_Poll" and queued: "lt_tasks s \<noteq> []"
  proof -
    have rel: "phase w = Polling" "tasks w = lt_tasks s" "el_waking w = tally lt_waking (lt_pcs s)"
        "0 < EventLoop.eventfd w \<longleftrightarrow> lt_eventfd s \<noteq> 0" "lt_local s = t_task w" "lt_queued s = el_queued w" "lt_done s = el_done w"
      using w(2) poll by (simp_all add: lt_rel_def)
    have all: "lt_queued s = lt_done s @ lt_tasks s" using inv rel by (auto simp: loop_inv_def)
    have "lt_eventfd s \<noteq> 0 \<or> tally lt_waking (lt_pcs s) \<noteq> 0"
      using inv rel queued by (auto simp: loop_inv_def)
    then have woken: "lt_eventfd s \<noteq> 0 \<or> (\<exists>t < length (lt_pcs s). lt_waking (lt_pcs s ! t) \<noteq> 0)"
      by (auto simp: tally_member in_set_conv_nth)
    have "\<exists>s1. loop_thread_step\<^sup>*\<^sup>* s s1 \<and> lt_eventfd s1 \<noteq> 0 \<and> lt_pcs s1 ! 0 = lt_pcs s ! 0 \<and>
        lt_tasks s1 = lt_tasks s \<and> lt_done s1 = lt_done s"
      using woken
    proof (elim disjE exE conjE)
      fix t assume t: "t < length (lt_pcs s)" "lt_waking (lt_pcs s ! t) \<noteq> 0"
      then have "t \<noteq> 0" using poll by (cases "t = 0") auto
      with lt_wakes [OF ok t] show ?thesis .
    qed blast
    then obtain s1 where s1: "loop_thread_step\<^sup>*\<^sup>* s s1" "lt_eventfd s1 \<noteq> 0" "lt_pcs s1 ! 0 = Own L_Poll"
        "lt_tasks s1 = lt_tasks s" "lt_done s1 = lt_done s"
      using poll by auto
    obtain w1 where "lt_rel s1 w1" using loop_sim.run [OF s1(1) w(2)] by blast
    from lt_polled [OF this s1(3,2)] obtain s' ys where "loop_thread_step\<^sup>*\<^sup>* s1 s'" "lt_pcs s' ! 0 = Own L_Test"
        "lt_done s' = lt_queued s @ ys"
      by (auto simp: s1(4,5) all)
    with woken s1(1) show ?thesis by (meson rtranclp_trans)
  qed
  ultimately show ?thesis by blast
qed

text \<open>Two threads queue at once while the loop is about to wait.\<close>

fun loop_moves :: "(nat \<times> 'a option) list \<Rightarrow> 'a loop_threads \<Rightarrow> 'a loop_threads option" where
  "loop_moves [] s = Some s"
| "loop_moves ((t, Some x) # ms) s =
     (if t < length (lt_pcs s) \<and> lt_pcs s ! t = Own L_Other
      then loop_moves ms (lt_goto t (Queueing L_Other (Q_Lock x)) s) else None)"
| "loop_moves ((t, None) # ms) s =
     (if t < length (lt_pcs s)
      then (case loop_move t (Poll_Returns True) (lt_pcs s ! t) s of Some (Inr s') \<Rightarrow> loop_moves ms s' | _ \<Rightarrow> None)
      else None)"

lemma loop_moves_run: "loop_moves ms s = Some s' \<Longrightarrow> loop_thread_step\<^sup>*\<^sup>* s s'"
proof (induction ms s rule: loop_moves.induct)
  case (2 t x ms s)
  then have "loop_thread_step s (lt_goto t (Queueing L_Other (Q_Lock x)) s)"
    by (intro loop_thread_step.call) (auto split: if_splits)
  moreover have "loop_thread_step\<^sup>*\<^sup>* (lt_goto t (Queueing L_Other (Q_Lock x)) s) s'"
    using 2 by (auto split: if_splits)
  ultimately show ?case by (rule converse_rtranclp_into_rtranclp)
next
  case (3 t ms s)
  then obtain s1 where t: "t < length (lt_pcs s)" and s1: "loop_move t (Poll_Returns True) (lt_pcs s ! t) s = Some (Inr s1)"
      "loop_moves ms s1 = Some s'"
    by (auto split: if_splits option.splits sum.splits)
  from loop_thread_step.move [OF t s1(1)] 3(1) [OF t s1(1) refl s1(2)] show ?case
    by (rule converse_rtranclp_into_rtranclp)
qed simp

definition demo_loop_threads :: "nat loop_threads option" where
  "demo_loop_threads = loop_moves [(0, None), (1, Some 3), (2, Some 4), (2, None), (2, None), (2, None)] (new_loop_threads 2)"

lemma demo_loop_reached:
  "\<exists>s. demo_loop_threads = Some s \<and> loop_thread_step\<^sup>*\<^sup>* (new_loop_threads 2) s \<and> lt_queued s = [4] \<and> lt_tasks s = [4] \<and>
    lt_eventfd s = 0 \<and> lt_pcs s ! 0 = Own L_Poll"
proof -
  have "map_option (\<lambda>s. (lt_queued s, lt_tasks s, lt_eventfd s, lt_pcs s ! 0)) demo_loop_threads = Some ([4], [4], 0, Own L_Poll)"
    by code_simp
  then obtain s where "demo_loop_threads = Some s" "lt_queued s = [4]" "lt_tasks s = [4]" "lt_eventfd s = 0"
      "lt_pcs s ! 0 = Own L_Poll"
    by auto
  with loop_moves_run show ?thesis unfolding demo_loop_threads_def by blast
qed

theorem event_loop_refines_witness:
  "\<exists>s. demo_loop_threads = Some s \<and> lt_queued s = [4] \<and> lt_queued s = lt_done s @ lt_local s @ lt_tasks s"
proof -
  obtain s where s: "demo_loop_threads = Some s" "loop_thread_step\<^sup>*\<^sup>* (new_loop_threads 2) s" "lt_queued s = [4]"
    using demo_loop_reached by blast
  from event_loop_refines [OF s(2)] s(1,3) show ?thesis by blast
qed

theorem event_loop_no_lost_task_witness:
  "\<exists>s s' ys. demo_loop_threads = Some s \<and> lt_eventfd s = 0 \<and> lt_tasks s = [4] \<and>
     loop_thread_step\<^sup>*\<^sup>* s s' \<and> lt_done s' = 4 # ys"
proof -
  obtain s where s: "demo_loop_threads = Some s" "loop_thread_step\<^sup>*\<^sup>* (new_loop_threads 2) s" "lt_queued s = [4]"
      "lt_tasks s = [4]" "lt_eventfd s = 0" "lt_pcs s ! 0 = Own L_Poll"
    using demo_loop_reached by blast
  then have "lt_pcs s ! 0 = Own L_Poll \<and> lt_tasks s \<noteq> []" by simp
  then obtain s' ys where "loop_thread_step\<^sup>*\<^sup>* s s'" "lt_done s' = lt_queued s @ ys"
    using event_loop_no_lost_task [OF s(2)] by blast
  with s show ?thesis by auto
qed

end
