(* ===== verification/BlockQueueThreads.thy ===== *)
theory BlockQueueThreads
  imports BlockQueue Monitor
begin

text \<open>
  \<open>base/BlockQueue.h\<close> once more, at the level of its mutex and its two condition variables:
  each thread has a program counter inside \<open>push_back\<close> or \<open>pop_front\<close>, and one statement of
  one thread is a step. The theory shows that theory \<open>BlockQueue\<close>, where a whole critical
  section is one step, describes it: a forward simulation, in which the critical section
  counts as done when it signals.
\<close>

subsection \<open>Threads in the queue\<close>

text \<open>
  Where a thread is. The flag of a position is set once the thread has waited: the library
  then takes the mutex on its behalf, at \<open>Push_Enter\<close> as at the guard's constructor.
\<close>

datatype 'a bq_pc =
    Outside
  | Push_Enter 'a bool | Push_Test 'a bool | Push_Wait 'a | Push_Add 'a bool | Push_Signal 'a bool
  | Push_Leave
  | Pop_Enter bool | Pop_Test bool | Pop_Wait | Pop_Take bool | Pop_Signal 'a bool | Pop_Leave 'a

record 'a bq_threads =
  bt_queue :: "'a block_queue"
  bt_mutex :: mutex
  waitForEmpty :: cond_var
  waitForFull :: cond_var
  bt_pcs :: "'a bq_pc list"
  bt_in :: "'a list"
  bt_out :: "'a list"

definition new_bq_threads :: "int \<Rightarrow> nat \<Rightarrow> 'a bq_threads" where
  "new_bq_threads maxSize threads = \<lparr>bt_queue = new_block_queue maxSize, bt_mutex = new_mutex,
     waitForEmpty = new_cond, waitForFull = new_cond, bt_pcs = replicate threads Outside,
     bt_in = [], bt_out = []\<rparr>"

definition goto :: "nat \<Rightarrow> 'a bq_pc \<Rightarrow> 'a bq_threads \<Rightarrow> 'a bq_threads" where
  "goto t p s = s\<lparr>bt_pcs := (bt_pcs s)[t := p]\<rparr>"

fun woken :: "'a bq_pc \<Rightarrow> 'a bq_pc" where
  "woken (Push_Wait x) = Push_Enter x True"
| "woken Pop_Wait = Pop_Enter True"
| "woken p = p"

definition wake :: "nat list \<Rightarrow> 'a bq_threads \<Rightarrow> 'a bq_threads" where
  "wake ts s = fold (\<lambda>t s. goto t (woken (bt_pcs s ! t)) s) ts s"

text \<open>
  The next statement of thread \<open>t\<close>, or \<open>None\<close> if it cannot go on by itself. \<open>k\<close> is the choice
  of a signal.
\<close>

fun bq_move :: "nat \<Rightarrow> nat \<Rightarrow> 'a bq_pc \<Rightarrow> 'a bq_threads \<Rightarrow> 'a bq_threads result option" where
  "bq_move t k Outside s = None"
| "bq_move t k (Push_Enter x b) s =
     map_option (\<lambda>m. Inr (goto t (Push_Test x b) (s\<lparr>bt_mutex := m\<rparr>))) (guard_enter t (bt_mutex s))"
| "bq_move t k (Push_Test x b) s = Some
     (if used (bt_queue s) = capacity (bt_queue s)
      then res_map (\<lambda>(c, m). goto t (Push_Wait x) (s\<lparr>waitForEmpty := c, bt_mutex := m\<rparr>))
        (cond_wait t (waitForEmpty s) (bt_mutex s))
      else Inr (goto t (Push_Add x b) s))"
| "bq_move t k (Push_Wait x) s = None"
| "bq_move t k (Push_Add x b) s = Some (Inr (goto t (Push_Signal x b)
     (s\<lparr>bt_queue := (bt_queue s)\<lparr>bq_queue := bq_queue (bt_queue s) @ [x], used := used (bt_queue s) + 1\<rparr>,
       bt_in := bt_in s @ [x]\<rparr>)))"
| "bq_move t k (Push_Signal x b) s =
     (case wakeUpOne k (waitForFull s) of (ts, c) \<Rightarrow>
       Some (Inr (wake ts (goto t Push_Leave (s\<lparr>waitForFull := c\<rparr>)))))"
| "bq_move t k Push_Leave s =
     Some (res_map (\<lambda>m. goto t Outside (s\<lparr>bt_mutex := m\<rparr>)) (guard_leave t (bt_mutex s)))"
| "bq_move t k (Pop_Enter b) s =
     map_option (\<lambda>m. Inr (goto t (Pop_Test b) (s\<lparr>bt_mutex := m\<rparr>))) (guard_enter t (bt_mutex s))"
| "bq_move t k (Pop_Test b) s = Some
     (if used (bt_queue s) = 0
      then res_map (\<lambda>(c, m). goto t Pop_Wait (s\<lparr>waitForFull := c, bt_mutex := m\<rparr>))
        (cond_wait t (waitForFull s) (bt_mutex s))
      else Inr (goto t (Pop_Take b) s))"
| "bq_move t k Pop_Wait s = None"
| "bq_move t k (Pop_Take b) s = Some
     (case bq_queue (bt_queue s) of
        [] \<Rightarrow> Inl Bad_Range
      | x # xs \<Rightarrow> Inr (goto t (Pop_Signal x b)
          (s\<lparr>bt_queue := (bt_queue s)\<lparr>bq_queue := xs, used := used (bt_queue s) - 1\<rparr>,
            bt_out := bt_out s @ [x]\<rparr>)))"
| "bq_move t k (Pop_Signal x b) s =
     (case wakeUpOne k (waitForEmpty s) of (ts, c) \<Rightarrow>
       Some (Inr (wake ts (goto t (Pop_Leave x) (s\<lparr>waitForEmpty := c\<rparr>)))))"
| "bq_move t k (Pop_Leave x) s =
     Some (res_map (\<lambda>m. goto t Outside (s\<lparr>bt_mutex := m\<rparr>)) (guard_leave t (bt_mutex s)))"

inductive bq_thread_step :: "'a bq_threads \<Rightarrow> 'a bq_threads \<Rightarrow> bool" where
  call_push: "t < length (bt_pcs s) \<Longrightarrow> bt_pcs s ! t = Outside \<Longrightarrow>
    bq_thread_step s (goto t (Push_Enter x False) s)"
| call_pop: "t < length (bt_pcs s) \<Longrightarrow> bt_pcs s ! t = Outside \<Longrightarrow>
    bq_thread_step s (goto t (Pop_Enter False) s)"
| move: "t < length (bt_pcs s) \<Longrightarrow> bq_move t k (bt_pcs s ! t) s = Some (Inr s') \<Longrightarrow> bq_thread_step s s'"
| wakes_empty: "t \<in> set (cv_waiters (waitForEmpty s)) \<Longrightarrow>
    bq_thread_step s (wake [t] (s\<lparr>waitForEmpty := cond_wake t (waitForEmpty s)\<rparr>))"
| wakes_full: "t \<in> set (cv_waiters (waitForFull s)) \<Longrightarrow>
    bq_thread_step s (wake [t] (s\<lparr>waitForFull := cond_wake t (waitForFull s)\<rparr>))"

subsection \<open>Mutual exclusion\<close>

fun critical :: "'a bq_pc \<Rightarrow> bool" where
  "critical (Push_Test x b) = True"
| "critical (Push_Add x b) = True"
| "critical (Push_Signal x b) = True"
| "critical Push_Leave = True"
| "critical (Pop_Test b) = True"
| "critical (Pop_Take b) = True"
| "critical (Pop_Signal x b) = True"
| "critical (Pop_Leave x) = True"
| "critical p = False"

fun push_waiting :: "'a bq_pc \<Rightarrow> bool" where
  "push_waiting (Push_Wait x) = True"
| "push_waiting p = False"

definition locks_ok :: "'a bq_threads \<Rightarrow> bool" where
  "locks_ok s \<longleftrightarrow> excl critical (mx_owner (bt_mutex s)) (bt_pcs s) \<and>
     waiters_ok (cv_waiters (waitForEmpty s)) push_waiting (bt_pcs s) \<and>
     waiters_ok (cv_waiters (waitForFull s)) (\<lambda>p. p = Pop_Wait) (bt_pcs s)"

lemma goto_simps [simp]:
  "bt_queue (goto t p s) = bt_queue s" "bt_mutex (goto t p s) = bt_mutex s"
  "waitForEmpty (goto t p s) = waitForEmpty s" "waitForFull (goto t p s) = waitForFull s"
  "bt_pcs (goto t p s) = (bt_pcs s)[t := p]" "bt_in (goto t p s) = bt_in s" "bt_out (goto t p s) = bt_out s"
  by (simp_all add: goto_def)

lemma wake_simps [simp]: "wake [] s = s" "wake [t] s = goto t (woken (bt_pcs s ! t)) s"
  by (simp_all add: wake_def)

lemma goto_update [simp]:
  "goto t p (s\<lparr>bt_mutex := m\<rparr>) = (goto t p s)\<lparr>bt_mutex := m\<rparr>"
  "goto t p (s\<lparr>waitForFull := c\<rparr>) = (goto t p s)\<lparr>waitForFull := c\<rparr>"
  "goto t p (s\<lparr>waitForEmpty := c\<rparr>) = (goto t p s)\<lparr>waitForEmpty := c\<rparr>"
  by (simp_all add: goto_def)

fun kind_of :: "'a bq_pc \<Rightarrow> bool \<times> bool \<times> bool" where
  "kind_of p = (critical p, push_waiting p, p = Pop_Wait)"

lemma locks_ok_goto: "locks_ok s \<Longrightarrow> kind_of p = kind_of (bt_pcs s ! t) \<Longrightarrow> locks_ok (goto t p s)"
  by (simp add: locks_ok_def excl_goto waiters_goto)

lemma locks_ok_enter:
  assumes "locks_ok s" and "mx_owner (bt_mutex s) = None" and "t < length (bt_pcs s)"
    and "kind_of (bt_pcs s ! t) = (False, False, False)" and "kind_of p = (True, False, False)"
  shows "locks_ok (goto t p s\<lparr>bt_mutex := bt_mutex s\<lparr>mx_owner := Some t\<rparr>\<rparr>)"
  using assms by (simp add: locks_ok_def excl_enter waiters_goto)

lemma locks_ok_leave:
  assumes "locks_ok s" and "mx_owner (bt_mutex s) = Some t"
    and "kind_of (bt_pcs s ! t) = (True, False, False)" and "kind_of p = (False, False, False)"
  shows "locks_ok (goto t p s\<lparr>bt_mutex := bt_mutex s\<lparr>mx_owner := None\<rparr>\<rparr>)"
  using assms by (simp add: locks_ok_def excl_leave waiters_goto)

lemma locks_ok_wait:
  assumes "locks_ok s" and "mx_owner (bt_mutex s) = Some t" and "t < length (bt_pcs s)"
    and "kind_of (bt_pcs s ! t) = (True, False, False)"
  shows "locks_ok (goto t (Push_Wait x) s\<lparr>waitForEmpty := waitForEmpty s\<lparr>cv_waiters :=
      cv_waiters (waitForEmpty s) @ [t]\<rparr>, bt_mutex := bt_mutex s\<lparr>mx_owner := None\<rparr>\<rparr>)"
    and "locks_ok (goto t Pop_Wait s\<lparr>waitForFull := waitForFull s\<lparr>cv_waiters :=
      cv_waiters (waitForFull s) @ [t]\<rparr>, bt_mutex := bt_mutex s\<lparr>mx_owner := None\<rparr>\<rparr>)"
  using assms by (simp_all add: locks_ok_def excl_leave waiters_goto waiters_join)

lemma locks_ok_wake:
  assumes "locks_ok s"
  shows "t \<in> set (cv_waiters (waitForFull s)) \<Longrightarrow>
      locks_ok (wake [t] (s\<lparr>waitForFull := cond_wake t (waitForFull s)\<rparr>))"
    and "t \<in> set (cv_waiters (waitForEmpty s)) \<Longrightarrow>
      locks_ok (wake [t] (s\<lparr>waitForEmpty := cond_wake t (waitForEmpty s)\<rparr>))"
proof -
  assume t: "t \<in> set (cv_waiters (waitForFull s))"
  then have "bt_pcs s ! t = Pop_Wait" using assms by (auto simp: locks_ok_def waiters_ok_def)
  with assms t show "locks_ok (wake [t] (s\<lparr>waitForFull := cond_wake t (waitForFull s)\<rparr>))"
    by (simp add: locks_ok_def cond_wake_def excl_goto waiters_goto waiters_wake)
next
  assume t: "t \<in> set (cv_waiters (waitForEmpty s))"
  then obtain x where "bt_pcs s ! t = Push_Wait x"
    using assms unfolding locks_ok_def waiters_ok_def by (metis push_waiting.elims(2))
  with assms t show "locks_ok (wake [t] (s\<lparr>waitForEmpty := cond_wake t (waitForEmpty s)\<rparr>))"
    by (simp add: locks_ok_def cond_wake_def excl_goto waiters_goto waiters_wake)
qed

lemma locks_ok_signal:
  assumes "locks_ok s"
  shows "wakeUpOne k (waitForFull s) = (ts, c) \<Longrightarrow> locks_ok (wake ts (s\<lparr>waitForFull := c\<rparr>))"
    and "wakeUpOne k (waitForEmpty s) = (ts, c) \<Longrightarrow> locks_ok (wake ts (s\<lparr>waitForEmpty := c\<rparr>))"
  using assms locks_ok_wake [OF assms] by (auto elim!: wakeUpOne_cases simp del: wake_simps(2))

lemma inside:
  assumes "locks_ok s" and "t < length (bt_pcs s)" and "critical (bt_pcs s ! t)"
  shows "mx_owner (bt_mutex s) = Some t"
  using assms by (auto simp: locks_ok_def excl_def)

subsection \<open>Who waits and who has been woken\<close>

fun push_sleeps :: "'a bq_pc \<Rightarrow> 'a multiset" where
  "push_sleeps (Push_Wait x) = {#x#}"
| "push_sleeps p = {#}"

fun push_awake :: "'a bq_pc \<Rightarrow> 'a multiset" where
  "push_awake (Push_Enter x b) = (if b then {#x#} else {#})"
| "push_awake (Push_Test x b) = (if b then {#x#} else {#})"
| "push_awake (Push_Add x b) = (if b then {#x#} else {#})"
| "push_awake (Push_Signal x b) = (if b then {#x#} else {#})"
| "push_awake p = {#}"

fun pop_sleeps :: "'a bq_pc \<Rightarrow> nat" where
  "pop_sleeps Pop_Wait = 1"
| "pop_sleeps p = 0"

fun pop_awake :: "'a bq_pc \<Rightarrow> nat" where
  "pop_awake (Pop_Enter b) = of_bool b"
| "pop_awake (Pop_Test b) = of_bool b"
| "pop_awake (Pop_Take b) = of_bool b"
| "pop_awake (Pop_Signal x b) = of_bool b"
| "pop_awake p = 0"

definition counts :: "'a bq_pc list \<Rightarrow> 'a bq_world \<Rightarrow> bool" where
  "counts ps w \<longleftrightarrow> mset (push_wait w) = tally push_sleeps ps \<and> mset (push_ready w) = tally push_awake ps \<and>
     pop_wait w = tally pop_sleeps ps \<and> pop_ready w = tally pop_awake ps"

text \<open>What one thread adds to the counts, and the change when it moves.\<close>

definition adds :: "'a bq_pc \<Rightarrow> 'a multiset \<times> 'a multiset \<times> nat \<times> nat" where
  "adds p = (push_sleeps p, push_awake p, pop_sleeps p, pop_awake p)"

lemma counts_move:
  assumes "counts ps w" and "t < length ps"
    and "mset (push_wait w') + push_sleeps (ps ! t) = mset (push_wait w) + push_sleeps p"
    and "mset (push_ready w') + push_awake (ps ! t) = mset (push_ready w) + push_awake p"
    and "pop_wait w' + pop_sleeps (ps ! t) = pop_wait w + pop_sleeps p"
    and "pop_ready w' + pop_awake (ps ! t) = pop_ready w + pop_awake p"
  shows "counts (ps[t := p]) w'"
proof -
  note upd = tally_update [OF assms(2), of _ p] and cnt = assms(1) [unfolded counts_def]
  have "mset (push_wait w') = tally push_sleeps (ps[t := p])"
    using upd [of push_sleeps] cnt assms(3) by (metis add_right_cancel)
  moreover have "mset (push_ready w') = tally push_awake (ps[t := p])"
    using upd [of push_awake] cnt assms(4) by (metis add_right_cancel)
  moreover have "pop_wait w' = tally pop_sleeps (ps[t := p])"
    using upd [of pop_sleeps] cnt assms(5) by simp
  moreover have "pop_ready w' = tally pop_awake (ps[t := p])"
    using upd [of pop_awake] cnt assms(6) by simp
  ultimately show ?thesis by (simp add: counts_def)
qed

lemma pop_sleeps_eq: "pop_sleeps p = of_bool (p = Pop_Wait)"
  by (cases p) simp_all

lemma counts_member:
  assumes "counts ps w" and "t < length ps"
  shows "ps ! t = Push_Wait x \<Longrightarrow> x \<in> set (push_wait w)"
    and "x \<in># push_awake (ps ! t) \<Longrightarrow> x \<in> set (push_ready w)"
    and "ps ! t = Pop_Wait \<Longrightarrow> 0 < pop_wait w"
    and "pop_awake (ps ! t) = 1 \<Longrightarrow> 0 < pop_ready w"
proof -
  note cnt = assms(1) [unfolded counts_def] and mem = nth_mem [OF assms(2)]
  show "x \<in> set (push_wait w)" if "ps ! t = Push_Wait x"
  proof -
    have "x \<in># push_sleeps (ps ! t)" by (simp add: that)
    with mem have "x \<in># tally push_sleeps ps" unfolding tally_member by blast
    with cnt show ?thesis by (metis set_mset_mset)
  qed
  show "x \<in> set (push_ready w)" if "x \<in># push_awake (ps ! t)"
  proof -
    have "x \<in># tally push_awake ps" using mem that unfolding tally_member by blast
    with cnt show ?thesis by (metis set_mset_mset)
  qed
  show "0 < pop_wait w" if "ps ! t = Pop_Wait"
  proof -
    have "pop_sleeps (ps ! t) \<noteq> 0" by (simp add: that)
    with mem have "tally pop_sleeps ps \<noteq> 0" by (metis tally_member(2))
    with cnt show ?thesis by simp
  qed
  show "0 < pop_ready w" if "pop_awake (ps ! t) = 1"
  proof -
    have "tally pop_awake ps \<noteq> 0" using mem that unfolding tally_member by fastforce
    with cnt show ?thesis by simp
  qed
qed

lemma counts_none:
  assumes "counts ps w"
  shows "waiters_ok [] push_waiting ps \<Longrightarrow> push_wait w = []"
    and "waiters_ok [] (\<lambda>p. p = Pop_Wait) ps \<Longrightarrow> pop_wait w = 0"
proof -
  assume "waiters_ok [] push_waiting ps"
  then have "\<forall>p \<in> set ps. \<not> push_waiting p" by (auto simp: waiters_ok_def in_set_conv_nth)
  then have "\<forall>p \<in> set ps. push_sleeps p = {#}" by (metis push_sleeps.simps push_waiting.elims(3))
  then have "tally push_sleeps ps = {#}"
    unfolding tally_def by (induction ps) auto
  with assms show "push_wait w = []" by (simp add: counts_def)
next
  assume "waiters_ok [] (\<lambda>p. p = Pop_Wait) ps"
  then have "\<forall>p \<in> set ps. p \<noteq> Pop_Wait" by (auto simp: waiters_ok_def in_set_conv_nth)
  then have "\<forall>p \<in> set ps. pop_sleeps p = 0" by (simp add: pop_sleeps_eq)
  with assms show "pop_wait w = 0" by (simp add: counts_def tally_member)
qed

lemma counts_same [simp]:
  "counts ps (w\<lparr>bw_q := q\<rparr>) = counts ps w" "counts ps (w\<lparr>bw_in := xs\<rparr>) = counts ps w"
  "counts ps (w\<lparr>bw_out := xs\<rparr>) = counts ps w"
  by (simp_all add: counts_def)

lemma counts_wake_full:
  assumes "counts (bt_pcs s) w" and "locks_ok s" and "t \<in> set (cv_waiters (waitForFull s))"
  shows "0 < pop_wait w \<and> counts (bt_pcs (wake [t] s)) (w\<lparr>pop_wait := pop_wait w - 1, pop_ready := pop_ready w + 1\<rparr>)"
proof -
  have t: "t < length (bt_pcs s)" "bt_pcs s ! t = Pop_Wait"
    using assms(2,3) by (auto simp: locks_ok_def waiters_ok_def)
  note pos = counts_member(3) [OF assms(1) t]
  have "counts ((bt_pcs s)[t := Pop_Enter True]) (w\<lparr>pop_wait := pop_wait w - 1, pop_ready := pop_ready w + 1\<rparr>)"
    using pos by (intro counts_move [OF assms(1) t(1)]) (simp_all add: t(2))
  with pos show ?thesis by (simp add: t(2))
qed

lemma counts_wake_empty:
  assumes "counts (bt_pcs s) w" and "locks_ok s" and "t \<in> set (cv_waiters (waitForEmpty s))"
  shows "\<exists>x \<in> set (push_wait w). counts (bt_pcs (wake [t] s))
    (w\<lparr>push_wait := remove1 x (push_wait w), push_ready := x # push_ready w\<rparr>)"
proof -
  obtain x where t: "t < length (bt_pcs s)" "bt_pcs s ! t = Push_Wait x"
    using assms(2,3) unfolding locks_ok_def waiters_ok_def by (metis push_waiting.elims(2))
  note x = counts_member(1) [OF assms(1) t]
  have "counts ((bt_pcs s)[t := Push_Enter x True])
      (w\<lparr>push_wait := remove1 x (push_wait w), push_ready := x # push_ready w\<rparr>)"
    using x by (intro counts_move [OF assms(1) t(1)]) (simp_all add: t(2))
  with x show ?thesis by (intro bexI [of _ x]) (simp_all add: t(2))
qed

lemma counts_signal_pop:
  assumes "counts (bt_pcs s) w" and "locks_ok s" and "wakeUpOne k (waitForFull s) = (ts, c)"
  shows "counts (bt_pcs (wake ts s)) (signal_pop w)"
  using assms(3)
proof (cases rule: wakeUpOne_cases)
  case none
  have "waiters_ok [] (\<lambda>p. p = Pop_Wait) (bt_pcs s)" using assms(2) none(1) by (simp add: locks_ok_def)
  from counts_none(2) [OF assms(1) this] assms(1) show ?thesis by (simp add: none(2) signal_pop_def)
next
  case (one t)
  from counts_wake_full [OF assms(1,2) one(1)] show ?thesis
    unfolding one(2) signal_pop_def by (simp del: wake_simps)
qed

lemma counts_signal_push:
  assumes "counts (bt_pcs s) w" and "locks_ok s" and "wakeUpOne k (waitForEmpty s) = (ts, c)"
  shows "\<exists>w'. signal_push w w' \<and> counts (bt_pcs (wake ts s)) w' \<and> bw_q w' = bw_q w \<and> bw_in w' = bw_in w \<and>
    bw_out w' = bw_out w"
  using assms(3)
proof (cases rule: wakeUpOne_cases)
  case none
  have "waiters_ok [] push_waiting (bt_pcs s)" using assms(2) none(1) by (simp add: locks_ok_def)
  from counts_none(1) [OF assms(1) this] assms(1) show ?thesis
    by (intro exI [of _ w]) (simp add: none(2) signal_push.none)
next
  case (one t)
  from counts_wake_empty [OF assms(1,2) one(1)] obtain x where x: "x \<in> set (push_wait w)"
    "counts (bt_pcs (wake [t] s)) (w\<lparr>push_wait := remove1 x (push_wait w), push_ready := x # push_ready w\<rparr>)"
    by blast
  show ?thesis
    unfolding one(2) using signal_push.one [OF x(1)] x(2)
    by (intro exI [of _ "w\<lparr>push_wait := remove1 x (push_wait w), push_ready := x # push_ready w\<rparr>"])
      (simp del: wake_simps)
qed

subsection \<open>The simulation\<close>

text \<open>
  Where the thread in the critical section has changed the deque but not signalled, the
  atomic model is still before the operation.
\<close>

definition same_queue :: "'a bq_threads \<Rightarrow> 'a bq_world \<Rightarrow> bool" where
  "same_queue s w \<longleftrightarrow> bt_queue s = bw_q w \<and> bt_in s = bw_in w \<and> bt_out s = bw_out w"

fun in_step :: "'a bq_pc \<Rightarrow> 'a bq_threads \<Rightarrow> 'a bq_world \<Rightarrow> bool" where
  "in_step (Push_Signal x b) s w \<longleftrightarrow> bq_push x (bw_q w) = Some (bt_queue s) \<and>
     bt_in s = bw_in w @ [x] \<and> bt_out s = bw_out w"
| "in_step (Pop_Signal x b) s w \<longleftrightarrow> bq_pop (bw_q w) = Some (Inr (x, bt_queue s)) \<and>
     bt_in s = bw_in w \<and> bt_out s = bw_out w @ [x]"
| "in_step (Push_Add x b) s w \<longleftrightarrow> same_queue s w \<and> used (bt_queue s) \<noteq> capacity (bt_queue s)"
| "in_step (Pop_Take b) s w \<longleftrightarrow> same_queue s w \<and> used (bt_queue s) \<noteq> 0"
| "in_step p s w \<longleftrightarrow> same_queue s w"

definition at_lock :: "'a bq_threads \<Rightarrow> 'a bq_pc" where
  "at_lock s = (case mx_owner (bt_mutex s) of None \<Rightarrow> Outside | Some t \<Rightarrow> bt_pcs s ! t)"

definition bq_rel :: "int \<Rightarrow> 'a bq_threads \<Rightarrow> 'a bq_world \<Rightarrow> bool" where
  "bq_rel n s w \<longleftrightarrow> locks_ok s \<and> bq_inv n w \<and> counts (bt_pcs s) w \<and> in_step (at_lock s) s w"

lemma at_lock_inside: "locks_ok s \<Longrightarrow> t < length (bt_pcs s) \<Longrightarrow> critical (bt_pcs s ! t) \<Longrightarrow> at_lock s = bt_pcs s ! t"
  by (simp add: at_lock_def inside)

lemma at_lock_goto:
  assumes "locks_ok s" and "\<not> critical (bt_pcs s ! t)"
  shows "at_lock (goto t p s) = at_lock s"
proof (cases "mx_owner (bt_mutex s)")
  case (Some u)
  with assms have "u \<noteq> t" unfolding locks_ok_def excl_def by blast
  with Some show ?thesis by (simp add: at_lock_def)
qed (simp add: at_lock_def)

lemma at_lock_here:
  "locks_ok s \<Longrightarrow> t < length (bt_pcs s) \<Longrightarrow> critical (bt_pcs s ! t) \<Longrightarrow> at_lock (goto t p s) = p"
  by (simp add: at_lock_def inside)

lemma in_step_fields [simp]:
  "in_step q (goto t p s) w = in_step q s w" "in_step q (s\<lparr>bt_mutex := m\<rparr>) w = in_step q s w"
  "in_step q (s\<lparr>waitForFull := c\<rparr>) w = in_step q s w" "in_step q (s\<lparr>waitForEmpty := c\<rparr>) w = in_step q s w"
  by (cases q; simp add: same_queue_def)+

lemma in_step_world [simp]:
  "in_step q s (w\<lparr>push_wait := xs\<rparr>) = in_step q s w" "in_step q s (w\<lparr>push_ready := xs\<rparr>) = in_step q s w"
  "in_step q s (w\<lparr>pop_wait := k\<rparr>) = in_step q s w" "in_step q s (w\<lparr>pop_ready := k\<rparr>) = in_step q s w"
  by (cases q; simp add: same_queue_def)+

lemma at_lock_fields [simp]:
  "at_lock (s\<lparr>waitForFull := c\<rparr>) = at_lock s" "at_lock (s\<lparr>waitForEmpty := c\<rparr>) = at_lock s"
  by (simp_all add: at_lock_def split: option.split)

lemma counts_silent: "counts ps w \<Longrightarrow> t < length ps \<Longrightarrow> adds p = adds (ps ! t) \<Longrightarrow> counts (ps[t := p]) w"
  by (rule counts_move [of ps w t w p]) (simp_all add: adds_def)

text \<open>A statement that changes neither the queue nor the counts.\<close>

lemma sim_silent:
  assumes "bq_rel n s w" and "t < length (bt_pcs s)" and "adds p = adds (bt_pcs s ! t)"
    and "bt_pcs s' = (bt_pcs s)[t := p]" and "locks_ok s'" and "in_step (at_lock s') s' w"
  shows "\<exists>w'. bq_step\<^sup>*\<^sup>* w w' \<and> bq_rel n s' w'"
  using assms counts_silent [of "bt_pcs s" w t p] by (auto simp: bq_rel_def)

lemma sim_step:
  assumes "bq_rel n s w" and "bq_step w w'" and "locks_ok s'" and "counts (bt_pcs s') w'"
    and "in_step (at_lock s') s' w'"
  shows "\<exists>w'. bq_step\<^sup>*\<^sup>* w w' \<and> bq_rel n s' w'"
  using assms bq_inv_step [OF assms(2)] by (auto simp: bq_rel_def)

lemma sim_enter:
  assumes "bq_rel n s w" and "t < length (bt_pcs s)" and "guard_enter t (bt_mutex s) = Some m"
    and "kind_of (bt_pcs s ! t) = (False, False, False)" and "kind_of p = (True, False, False)"
    and "adds p = adds (bt_pcs s ! t)" and "\<And>s'. in_step p s' w = same_queue s' w"
  shows "\<exists>w'. bq_step\<^sup>*\<^sup>* w w' \<and> bq_rel n (goto t p (s\<lparr>bt_mutex := m\<rparr>)) w'"
proof (rule sim_silent [OF assms(1,2,6)])
  have ok: "locks_ok s" and own: "mx_owner (bt_mutex s) = None" "m = bt_mutex s\<lparr>mx_owner := Some t\<rparr>"
    using assms(1,3) by (auto simp: bq_rel_def guard_enter_def)
  from locks_ok_enter [OF ok own(1) assms(2,4,5)] show "locks_ok (goto t p (s\<lparr>bt_mutex := m\<rparr>))"
    by (simp add: own(2))
  have "same_queue s w"
    using assms(1) own(1) by (simp add: bq_rel_def at_lock_def)
  then show "in_step (at_lock (goto t p (s\<lparr>bt_mutex := m\<rparr>))) (goto t p (s\<lparr>bt_mutex := m\<rparr>)) w"
    using assms(2) by (simp add: at_lock_def own(2) assms(7))
qed simp

lemma sim_leave:
  assumes "bq_rel n s w" and "t < length (bt_pcs s)" and "kind_of (bt_pcs s ! t) = (True, False, False)"
    and "\<And>s'. in_step (bt_pcs s ! t) s' w = same_queue s' w" and "adds (bt_pcs s ! t) = adds (Outside :: 'a bq_pc)"
  shows "\<exists>m w'. guard_leave t (bt_mutex s) = Inr m \<and> bq_step\<^sup>*\<^sup>* w w' \<and>
    bq_rel n (goto t (Outside :: 'a bq_pc) (s\<lparr>bt_mutex := m\<rparr>)) w'"
proof -
  let ?m = "bt_mutex s\<lparr>mx_owner := None\<rparr>"
  have ok: "locks_ok s" using assms(1) by (simp add: bq_rel_def)
  have own: "mx_owner (bt_mutex s) = Some t" using inside [OF ok assms(2)] assms(3) by simp
  have "same_queue s w"
    using assms(1,4) at_lock_inside [OF ok assms(2)] assms(3) by (simp add: bq_rel_def)
  then have "in_step (at_lock (goto t Outside (s\<lparr>bt_mutex := ?m\<rparr>))) (goto t Outside (s\<lparr>bt_mutex := ?m\<rparr>)) w"
    by (simp add: at_lock_def)
  moreover have "locks_ok (goto t Outside (s\<lparr>bt_mutex := ?m\<rparr>))"
    using locks_ok_leave [OF ok own assms(3), of Outside] by simp
  ultimately have "\<exists>w'. bq_step\<^sup>*\<^sup>* w w' \<and> bq_rel n (goto t Outside (s\<lparr>bt_mutex := ?m\<rparr>)) w'"
    using assms(5) by (intro sim_silent [OF assms(1,2)]) simp_all
  then show ?thesis by (simp add: guard_leave_def own)
qed

text \<open>The tests: the thread waits, or goes on.\<close>

lemma sim_push_test:
  assumes "bq_rel n s w" and "t < length (bt_pcs s)" and "bt_pcs s ! t = Push_Test x b"
    and "bq_move t k (Push_Test x b) s = Some r"
  shows "\<exists>s' w'. r = Inr s' \<and> bq_step\<^sup>*\<^sup>* w w' \<and> bq_rel n s' w'"
proof -
  have ok: "locks_ok s" and cnt: "counts (bt_pcs s) w" using assms(1) by (simp_all add: bq_rel_def)
  have own: "mx_owner (bt_mutex s) = Some t" and at: "at_lock s = Push_Test x b"
    using inside [OF ok assms(2)] at_lock_inside [OF ok assms(2)] assms(3) by simp_all
  have q: "same_queue s w" using assms(1) by (simp add: bq_rel_def at)
  show ?thesis
  proof (cases "used (bt_queue s) = capacity (bt_queue s)")
    case True
    let ?s = "goto t (Push_Wait x) s\<lparr>waitForEmpty := waitForEmpty s\<lparr>cv_waiters :=
      cv_waiters (waitForEmpty s) @ [t]\<rparr>, bt_mutex := bt_mutex s\<lparr>mx_owner := None\<rparr>\<rparr>"
    let ?w = "w\<lparr>push_ready := (if b then remove1 x (push_ready w) else push_ready w), push_wait := x # push_wait w\<rparr>"
    have full: "bq_push x (bw_q w) = None" using True q by (simp add: bq_push_def same_queue_def)
    have mem: "b \<Longrightarrow> x \<in> set (push_ready w)" using counts_member(2) [OF cnt assms(2)] assms(3) by simp
    have step: "bq_step w ?w"
    proof (cases b)
      case True
      with bq_step.push_blocks_again [OF mem full] show ?thesis by simp
    next
      case False
      with bq_step.push_blocks [OF full] show ?thesis by simp
    qed
    have cnt': "counts (bt_pcs ?s) ?w"
      using counts_move [OF cnt assms(2), of ?w "Push_Wait x"] assms(3) mem by (cases b) simp_all
    have ok': "locks_ok ?s" using locks_ok_wait(1) [OF ok own assms(2)] assms(3) by simp
    have "in_step (at_lock ?s) ?s ?w" using q by (simp add: at_lock_def same_queue_def)
    note sim = sim_step [OF assms(1) step ok' cnt' this]
    have "r = Inr ?s" using assms(4) True own by (auto simp: cond_wait_def mutex_unlock_def)
    with sim show ?thesis by blast
  next
    case False
    have "\<exists>w'. bq_step\<^sup>*\<^sup>* w w' \<and> bq_rel n (goto t (Push_Add x b) s) w'"
      using assms(2,3) q False ok
      by (intro sim_silent [OF assms(1,2)])
        (simp_all add: adds_def locks_ok_goto at_lock_here same_queue_def)
    moreover have "r = Inr (goto t (Push_Add x b) s)" using assms(4) False by simp
    ultimately show ?thesis by blast
  qed
qed

lemma sim_pop_test:
  assumes "bq_rel n s w" and "t < length (bt_pcs s)" and "bt_pcs s ! t = Pop_Test b"
    and "bq_move t k (Pop_Test b) s = Some r"
  shows "\<exists>s' w'. r = Inr s' \<and> bq_step\<^sup>*\<^sup>* w w' \<and> bq_rel n s' w'"
proof -
  have ok: "locks_ok s" and cnt: "counts (bt_pcs s) w" using assms(1) by (simp_all add: bq_rel_def)
  have own: "mx_owner (bt_mutex s) = Some t" and at: "at_lock s = Pop_Test b"
    using inside [OF ok assms(2)] at_lock_inside [OF ok assms(2)] assms(3) by simp_all
  have q: "same_queue s w" using assms(1) by (simp add: bq_rel_def at)
  show ?thesis
  proof (cases "used (bt_queue s) = 0")
    case True
    let ?s = "goto t Pop_Wait s\<lparr>waitForFull := waitForFull s\<lparr>cv_waiters :=
      cv_waiters (waitForFull s) @ [t]\<rparr>, bt_mutex := bt_mutex s\<lparr>mx_owner := None\<rparr>\<rparr>"
    let ?w = "w\<lparr>pop_ready := (if b then pop_ready w - 1 else pop_ready w), pop_wait := pop_wait w + 1\<rparr>"
    have empty: "bq_pop (bw_q w) = None" using True q by (simp add: bq_pop_def same_queue_def)
    have mem: "b \<Longrightarrow> 0 < pop_ready w" using counts_member(4) [OF cnt assms(2)] assms(3) by simp
    have step: "bq_step w ?w"
    proof (cases b)
      case True
      with bq_step.pop_blocks_again [OF mem empty] show ?thesis by simp
    next
      case False
      with bq_step.pop_blocks [OF empty] show ?thesis by simp
    qed
    have cnt': "counts (bt_pcs ?s) ?w"
      using counts_move [OF cnt assms(2), of ?w Pop_Wait] assms(3) mem by (cases b) simp_all
    have ok': "locks_ok ?s" using locks_ok_wait(2) [OF ok own assms(2)] assms(3) by simp
    have "in_step (at_lock ?s) ?s ?w" using q by (simp add: at_lock_def same_queue_def)
    note sim = sim_step [OF assms(1) step ok' cnt' this]
    have "r = Inr ?s" using assms(4) True own by (auto simp: cond_wait_def mutex_unlock_def)
    with sim show ?thesis by blast
  next
    case False
    have "\<exists>w'. bq_step\<^sup>*\<^sup>* w w' \<and> bq_rel n (goto t (Pop_Take b) s) w'"
      using assms(2,3) q False ok
      by (intro sim_silent [OF assms(1,2)])
        (simp_all add: adds_def locks_ok_goto at_lock_here same_queue_def)
    moreover have "r = Inr (goto t (Pop_Take b) s)" using assms(4) False by simp
    ultimately show ?thesis by blast
  qed
qed

text \<open>The signals: here the operation counts as done.\<close>

lemma wake_fields [simp]:
  "bt_queue (wake ts s) = bt_queue s" "bt_in (wake ts s) = bt_in s" "bt_out (wake ts s) = bt_out s"
  by (induction ts arbitrary: s) (simp_all add: wake_def)

lemma wake_update [simp]:
  "wake ts (s\<lparr>waitForFull := c\<rparr>) = (wake ts s)\<lparr>waitForFull := c\<rparr>"
  "wake ts (s\<lparr>waitForEmpty := c\<rparr>) = (wake ts s)\<lparr>waitForEmpty := c\<rparr>"
  by (induction ts arbitrary: s) (simp_all add: wake_def)

lemma at_lock_signal:
  assumes "locks_ok s"
  shows "wakeUpOne k (waitForFull s) = (ts, c) \<Longrightarrow> at_lock (wake ts s) = at_lock s"
    and "wakeUpOne k (waitForEmpty s) = (ts, c) \<Longrightarrow> at_lock (wake ts s) = at_lock s"
proof -
  have "\<not> critical (bt_pcs s ! t)"
    if "t \<in> set (cv_waiters (waitForFull s)) \<or> t \<in> set (cv_waiters (waitForEmpty s))" for t
    using assms that by (cases "bt_pcs s ! t") (auto simp: locks_ok_def waiters_ok_def)
  with at_lock_goto [OF assms]
  show "wakeUpOne k (waitForFull s) = (ts, c) \<Longrightarrow> at_lock (wake ts s) = at_lock s"
    and "wakeUpOne k (waitForEmpty s) = (ts, c) \<Longrightarrow> at_lock (wake ts s) = at_lock s"
    by (auto elim!: wakeUpOne_cases)
qed

lemma same_queue_updates [simp]:
  "same_queue (wake ts s) w = same_queue s w" "same_queue (goto t p s) w = same_queue s w"
  "same_queue (s\<lparr>waitForFull := c\<rparr>) w = same_queue s w" "same_queue (s\<lparr>waitForEmpty := c\<rparr>) w = same_queue s w"
  by (simp_all add: same_queue_def)

lemma sim_push_signal:
  assumes "bq_rel n s w" and "t < length (bt_pcs s)" and "bt_pcs s ! t = Push_Signal x b"
    and "wakeUpOne k (waitForFull s) = (ts, c)"
  shows "\<exists>w'. bq_step\<^sup>*\<^sup>* w w' \<and> bq_rel n (wake ts (goto t Push_Leave (s\<lparr>waitForFull := c\<rparr>))) w'"
proof -
  have ok: "locks_ok s" and cnt: "counts (bt_pcs s) w" using assms(1) by (simp_all add: bq_rel_def)
  have at: "at_lock s = Push_Signal x b" using at_lock_inside [OF ok assms(2)] assms(3) by simp
  let ?s1 = "goto t Push_Leave s"
  let ?s = "wake ts (?s1\<lparr>waitForFull := c\<rparr>)"
  let ?w1 = "if b then w\<lparr>push_ready := remove1 x (push_ready w)\<rparr> else w"
  let ?w = "push_done x (bt_queue s) ?w1"
  have q: "bq_push x (bw_q w) = Some (bt_queue s)" "bt_in s = bw_in w @ [x]" "bt_out s = bw_out w"
    using assms(1) by (simp_all add: bq_rel_def at)
  have mem: "b \<Longrightarrow> x \<in> set (push_ready w)" using counts_member(2) [OF cnt assms(2)] assms(3) by simp
  have step: "bq_step w ?w"
    using bq_step.push_again [OF mem q(1)] bq_step.push [OF q(1)] by (cases b) simp_all
  have ok1: "locks_ok ?s1" using ok assms(3) by (intro locks_ok_goto) simp_all
  from locks_ok_signal(1) [OF ok1] assms(4) have ok': "locks_ok ?s" by simp
  have "counts ((bt_pcs s)[t := Push_Leave]) ?w1"
    using counts_move [OF cnt assms(2), of ?w1 Push_Leave] assms(3) mem by (cases b) simp_all
  then have cnt': "counts (bt_pcs ?s) ?w"
    using counts_signal_pop [OF _ ok1, of "?w1\<lparr>bw_q := bt_queue s, bw_in := bw_in ?w1 @ [x]\<rparr>" k ts c] assms(4)
    by (simp add: push_done_def)
  have "at_lock ?s = Push_Leave"
    using at_lock_signal(1) [OF ok1, of k ts c] assms(2-4) ok by (simp add: at_lock_here)
  moreover have "same_queue ?s ?w"
    using q(2,3) by (simp add: same_queue_def push_done_def signal_pop_def)
  ultimately have "in_step (at_lock ?s) ?s ?w" by simp
  from sim_step [OF assms(1) step ok' cnt' this] show ?thesis by simp
qed

lemma sim_pop_signal:
  assumes "bq_rel n s w" and "t < length (bt_pcs s)" and "bt_pcs s ! t = Pop_Signal x b"
    and "wakeUpOne k (waitForEmpty s) = (ts, c)"
  shows "\<exists>w'. bq_step\<^sup>*\<^sup>* w w' \<and> bq_rel n (wake ts (goto t (Pop_Leave x) (s\<lparr>waitForEmpty := c\<rparr>))) w'"
proof -
  have ok: "locks_ok s" and cnt: "counts (bt_pcs s) w" using assms(1) by (simp_all add: bq_rel_def)
  have at: "at_lock s = Pop_Signal x b" using at_lock_inside [OF ok assms(2)] assms(3) by simp
  let ?s1 = "goto t (Pop_Leave x) s"
  let ?s = "wake ts (?s1\<lparr>waitForEmpty := c\<rparr>)"
  let ?w1 = "(if b then w\<lparr>pop_ready := pop_ready w - 1\<rparr> else w)\<lparr>bw_q := bt_queue s, bw_out := bw_out w @ [x]\<rparr>"
  have q: "bq_pop (bw_q w) = Some (Inr (x, bt_queue s))" "bt_in s = bw_in w" "bt_out s = bw_out w @ [x]"
    using assms(1) by (simp_all add: bq_rel_def at)
  have mem: "b \<Longrightarrow> 0 < pop_ready w" using counts_member(4) [OF cnt assms(2)] assms(3) by simp
  have ok1: "locks_ok ?s1" using ok assms(3) by (intro locks_ok_goto) simp_all
  from locks_ok_signal(2) [OF ok1] assms(4) have ok': "locks_ok ?s" by simp
  have "counts ((bt_pcs s)[t := Pop_Leave x]) ?w1"
    using counts_move [OF cnt assms(2), of ?w1 "Pop_Leave x"] assms(3) mem by (cases b) simp_all
  then obtain w' where w': "signal_push ?w1 w'" "counts (bt_pcs (wake ts ?s1)) w'" "bw_q w' = bt_queue s"
      "bw_in w' = bw_in w" "bw_out w' = bw_out w @ [x]"
    using counts_signal_push [OF _ ok1, of ?w1 k ts c] assms(4) by (cases b) auto
  have step: "bq_step w w'"
  proof (cases b)
    case True
    then show ?thesis using w'(1) by (intro bq_step.pop_again [OF mem q(1)]) simp_all
  next
    case False
    then show ?thesis using w'(1) by (intro bq_step.pop [OF q(1)]) simp
  qed
  have "at_lock ?s = Pop_Leave x"
    using at_lock_signal(2) [OF ok1, of k ts c] assms(2-4) ok by (simp add: at_lock_here)
  moreover have "same_queue ?s w'"
    using q(2,3) w'(3-5) by (simp add: same_queue_def)
  ultimately have "in_step (at_lock ?s) ?s w'" by simp
  from sim_step [OF assms(1) step ok' _ this] w'(2) show ?thesis by simp
qed

text \<open>Any statement a thread can execute has a result, and the atomic model follows.\<close>

lemma sim_move:
  assumes "bq_rel n s w" and "t < length (bt_pcs s)" and "bq_move t k (bt_pcs s ! t) s = Some r"
  shows "\<exists>s' w'. r = Inr s' \<and> bq_step\<^sup>*\<^sup>* w w' \<and> bq_rel n s' w'"
proof -
  have ok: "locks_ok s" using assms(1) by (simp add: bq_rel_def)
  note at = at_lock_inside [OF ok assms(2)]
  show ?thesis
  proof (cases "bt_pcs s ! t")
    case (Push_Enter x b)
    then obtain m where m: "guard_enter t (bt_mutex s) = Some m" "r = Inr (goto t (Push_Test x b) (s\<lparr>bt_mutex := m\<rparr>))"
      using assms(3) by auto
    show ?thesis
      using sim_enter [OF assms(1,2) m(1), of "Push_Test x b"] Push_Enter by (simp add: adds_def m(2))
  next
    case (Pop_Enter b)
    then obtain m where m: "guard_enter t (bt_mutex s) = Some m" "r = Inr (goto t (Pop_Test b) (s\<lparr>bt_mutex := m\<rparr>))"
      using assms(3) by auto
    show ?thesis
      using sim_enter [OF assms(1,2) m(1), of "Pop_Test b"] Pop_Enter by (simp add: adds_def m(2))
  next
    case (Push_Test x b)
    then show ?thesis using sim_push_test [OF assms(1,2)] assms(3) by simp
  next
    case (Pop_Test b)
    then show ?thesis using sim_pop_test [OF assms(1,2)] assms(3) by simp
  next
    case (Push_Add x b)
    let ?s = "goto t (Push_Signal x b) (s\<lparr>bt_queue := (bt_queue s)\<lparr>bq_queue := bq_queue (bt_queue s) @ [x],
      used := used (bt_queue s) + 1\<rparr>, bt_in := bt_in s @ [x]\<rparr>)"
    have q: "same_queue s w" "used (bt_queue s) \<noteq> capacity (bt_queue s)"
      using assms(1) at Push_Add by (simp_all add: bq_rel_def)
    then have "in_step (Push_Signal x b) ?s w" by (simp add: same_queue_def bq_push_def)
    moreover have "at_lock ?s = Push_Signal x b"
      using assms(2) inside [OF ok assms(2)] Push_Add by (simp add: at_lock_def)
    moreover have "locks_ok ?s"
      using locks_ok_goto [OF ok, of "Push_Signal x b" t] Push_Add by (simp add: locks_ok_def)
    ultimately have "\<exists>w'. bq_step\<^sup>*\<^sup>* w w' \<and> bq_rel n ?s w'"
      using Push_Add by (intro sim_silent [OF assms(1,2)]) (simp_all add: adds_def)
    moreover have "r = Inr ?s" using assms(3) Push_Add by simp
    ultimately show ?thesis by blast
  next
    case (Pop_Take b)
    have q: "same_queue s w" "used (bt_queue s) \<noteq> 0"
      using assms(1) at Pop_Take by (simp_all add: bq_rel_def)
    then have "bq_ok (bt_queue s)"
      using assms(1) by (auto simp: bq_rel_def bq_inv_def same_queue_def)
    with q(2) obtain x xs where xs: "bq_queue (bt_queue s) = x # xs" by (cases "bq_queue (bt_queue s)") (auto simp: bq_ok_def)
    let ?s = "goto t (Pop_Signal x b) (s\<lparr>bt_queue := (bt_queue s)\<lparr>bq_queue := xs,
      used := used (bt_queue s) - 1\<rparr>, bt_out := bt_out s @ [x]\<rparr>)"
    have "used (bw_q w) \<noteq> 0" "bq_queue (bw_q w) = x # xs" using q xs by (simp_all add: same_queue_def)
    then have "in_step (Pop_Signal x b) ?s w" using q by (simp add: same_queue_def bq_pop_def)
    moreover have "at_lock ?s = Pop_Signal x b"
      using assms(2) inside [OF ok assms(2)] Pop_Take by (simp add: at_lock_def)
    moreover have "locks_ok ?s"
      using locks_ok_goto [OF ok, of "Pop_Signal x b" t] Pop_Take by (simp add: locks_ok_def)
    ultimately have "\<exists>w'. bq_step\<^sup>*\<^sup>* w w' \<and> bq_rel n ?s w'"
      using Pop_Take by (intro sim_silent [OF assms(1,2)]) (simp_all add: adds_def)
    moreover have "r = Inr ?s" using assms(3) Pop_Take xs by simp
    ultimately show ?thesis by blast
  next
    case (Push_Signal x b)
    obtain ts c where w: "wakeUpOne k (waitForFull s) = (ts, c)" by fastforce
    show ?thesis using sim_push_signal [OF assms(1,2) Push_Signal w] assms(3) Push_Signal w by auto
  next
    case (Pop_Signal x b)
    obtain ts c where w: "wakeUpOne k (waitForEmpty s) = (ts, c)" by fastforce
    show ?thesis using sim_pop_signal [OF assms(1,2) Pop_Signal w] assms(3) Pop_Signal w by auto
  next
    case Push_Leave
    then show ?thesis using sim_leave [OF assms(1,2)] assms(3) by (auto simp: adds_def)
  next
    case (Pop_Leave x)
    then show ?thesis using sim_leave [OF assms(1,2)] assms(3) by (auto simp: adds_def)
  qed (use assms(3) in simp_all)
qed

lemma sim_call:
  assumes "bq_rel n s w" and "t < length (bt_pcs s)" and "bt_pcs s ! t = Outside"
    and "kind_of p = kind_of (Outside :: 'a bq_pc)" and "adds p = adds (Outside :: 'a bq_pc)"
  shows "\<exists>w'. bq_step\<^sup>*\<^sup>* w w' \<and> bq_rel n (goto t (p :: 'a bq_pc) s) w'"
  using assms by (intro sim_silent [OF assms(1,2)]) (simp_all add: bq_rel_def locks_ok_goto at_lock_goto)

lemma sim_wake:
  assumes "bq_rel n s w"
  shows "t \<in> set (cv_waiters (waitForFull s)) \<Longrightarrow>
      \<exists>w'. bq_step\<^sup>*\<^sup>* w w' \<and> bq_rel n (wake [t] (s\<lparr>waitForFull := cond_wake t (waitForFull s)\<rparr>)) w'"
    and "t \<in> set (cv_waiters (waitForEmpty s)) \<Longrightarrow>
      \<exists>w'. bq_step\<^sup>*\<^sup>* w w' \<and> bq_rel n (wake [t] (s\<lparr>waitForEmpty := cond_wake t (waitForEmpty s)\<rparr>)) w'"
proof -
  have ok: "locks_ok s" and cnt: "counts (bt_pcs s) w" and q: "in_step (at_lock s) s w"
    using assms by (simp_all add: bq_rel_def)
  have at: "at_lock (wake [t] s) = at_lock s" and ins: "in_step (at_lock s) (wake [t] s) v = in_step (at_lock s) s v"
    if "t \<in> set (cv_waiters (waitForFull s)) \<or> t \<in> set (cv_waiters (waitForEmpty s))" for v
    using that at_lock_signal [OF ok] wakeUpOne_any [of t] by (blast, simp)
  show "\<exists>w'. bq_step\<^sup>*\<^sup>* w w' \<and> bq_rel n (wake [t] (s\<lparr>waitForFull := cond_wake t (waitForFull s)\<rparr>)) w'"
    if t: "t \<in> set (cv_waiters (waitForFull s))"
  proof -
    let ?w = "w\<lparr>pop_wait := pop_wait w - 1, pop_ready := pop_ready w + 1\<rparr>"
    note c = counts_wake_full [OF cnt ok t]
    have "in_step (at_lock s) s ?w" using q by simp
    then show ?thesis
      using sim_step [OF assms bq_step.pop_wakes locks_ok_wake(1) [OF ok t]] c at ins t
      by (simp del: wake_simps)
  qed
  show "\<exists>w'. bq_step\<^sup>*\<^sup>* w w' \<and> bq_rel n (wake [t] (s\<lparr>waitForEmpty := cond_wake t (waitForEmpty s)\<rparr>)) w'"
    if t: "t \<in> set (cv_waiters (waitForEmpty s))"
  proof -
    obtain x where x: "x \<in> set (push_wait w)" "counts (bt_pcs (wake [t] s))
        (w\<lparr>push_wait := remove1 x (push_wait w), push_ready := x # push_ready w\<rparr>)"
      using counts_wake_empty [OF cnt ok t] by blast
    let ?w = "w\<lparr>push_wait := remove1 x (push_wait w), push_ready := x # push_ready w\<rparr>"
    have "in_step (at_lock s) s ?w" using q by simp
    then show ?thesis
      using sim_step [OF assms bq_step.push_wakes [OF x(1)] locks_ok_wake(2) [OF ok t]] x(2) at ins t
      by (simp del: wake_simps)
  qed
qed

interpretation bq_sim: simulation bq_thread_step bq_step "bq_rel n" for n
proof unfold_locales
  fix s s' :: "'a bq_threads" and w :: "'a bq_world"
  assume "bq_thread_step s s'" and rel: "bq_rel n s w"
  then show "\<exists>w'. bq_step\<^sup>*\<^sup>* w w' \<and> bq_rel n s' w'"
  proof (cases rule: bq_thread_step.cases)
    case (call_push t x)
    with sim_call [OF rel call_push(2,3), of "Push_Enter x False"] show ?thesis by (simp add: adds_def)
  next
    case (call_pop t)
    with sim_call [OF rel call_pop(2,3), of "Pop_Enter False"] show ?thesis by (simp add: adds_def)
  next
    case (move t k)
    from sim_move [OF rel move] show ?thesis by auto
  next
    case (wakes_empty t)
    with sim_wake(2) [OF rel] show ?thesis by (simp del: wake_simps)
  next
    case (wakes_full t)
    with sim_wake(1) [OF rel] show ?thesis by (simp del: wake_simps)
  qed
qed

lemma bq_rel_new: "0 \<le> n \<Longrightarrow> bq_rel n (new_bq_threads n m) (new_bq_world n)"
  unfolding bq_rel_def
proof (intro conjI)
  show "locks_ok (new_bq_threads n m)"
    by (simp add: locks_ok_def excl_def waiters_ok_def new_bq_threads_def new_mutex_def new_cond_def)
  show "counts (bt_pcs (new_bq_threads n m)) (new_bq_world n)"
    by (simp add: counts_def new_bq_threads_def new_bq_world_def tally_replicate)
  show "in_step (at_lock (new_bq_threads n m)) (new_bq_threads n m) (new_bq_world n)"
    by (simp add: at_lock_def same_queue_def new_bq_threads_def new_mutex_def new_bq_world_def)
qed (rule bq_inv_new)

lemma in_step_fifo: "in_step p s w \<Longrightarrow> bq_inv n w \<Longrightarrow>
    bt_in s = bt_out s @ bq_queue (bt_queue s) \<and> bq_ok (bt_queue s) \<and> capacity (bt_queue s) = n"
proof (cases p)
  case (Push_Signal x b)
  moreover assume "in_step p s w" and "bq_inv n w"
  ultimately show ?thesis
    using bq_push_ok [of "bw_q w" x "bt_queue s"] by (simp add: bq_inv_def)
next
  case (Pop_Signal x b)
  moreover assume "in_step p s w" and "bq_inv n w"
  ultimately show ?thesis
    using bq_pop_ok [of "bw_q w" x "bt_queue s"] by (simp add: bq_inv_def)
qed (simp_all add: same_queue_def bq_inv_def)

text \<open>
  C4: the queue with its locks refines the atomic queue. Let any number of threads call
  \<open>push_back\<close> and \<open>pop_front\<close> at will, statement by statement, with signals that wake any
  waiting thread and wake-ups without a signal. Then at every moment a run of the atomic
  model has the same effect, up to an operation whose thread has not signalled yet; the items
  are taken in the order they were added, and the rest is in the deque, within its bound. At
  most one thread is in a critical section, the one that holds the mutex; and no statement of
  any thread goes wrong, be it \<open>front\<close> of an empty deque or a mutex unlocked by another.
\<close>

theorem block_queue_refines:
  assumes "0 \<le> n" and "bq_thread_step\<^sup>*\<^sup>* (new_bq_threads n m) s"
  shows "(\<exists>w. bq_step\<^sup>*\<^sup>* (new_bq_world n) w \<and> in_step (at_lock s) s w) \<and>
    bt_in s = bt_out s @ bq_queue (bt_queue s) \<and>
    used (bt_queue s) = int (length (bq_queue (bt_queue s))) \<and> used (bt_queue s) \<le> n \<and>
    (\<forall>t. mx_owner (bt_mutex s) = Some t \<longleftrightarrow> t < length (bt_pcs s) \<and> critical (bt_pcs s ! t)) \<and>
    (\<forall>t k e. t < length (bt_pcs s) \<longrightarrow> bq_move t k (bt_pcs s ! t) s \<noteq> Some (Inl e))"
proof -
  obtain w where w: "bq_step\<^sup>*\<^sup>* (new_bq_world n) w" "bq_rel n s w"
    using bq_sim.run [OF assms(2) bq_rel_new [OF assms(1)]] by blast
  have q: "in_step (at_lock s) s w" and inv: "bq_inv n w" and ok: "locks_ok s"
    using w(2) by (simp_all add: bq_rel_def)
  have "bq_move t k (bt_pcs s ! t) s \<noteq> Some (Inl e)" if "t < length (bt_pcs s)" for t k e
    using sim_move [OF w(2) that] by fastforce
  with in_step_fifo [OF q inv] ok w(1) q show ?thesis
    unfolding bq_ok_def locks_ok_def excl_def by blast
qed

text \<open>The holder of the mutex can go on; sleepers that could go on are not left alone.\<close>

lemma bq_holder_moves:
  assumes "bq_rel n s w" and "mx_owner (bt_mutex s) = Some t"
  shows "\<exists>s'. bq_move t k (bt_pcs s ! t) s = Some (Inr s')"
proof -
  have t: "t < length (bt_pcs s)" "critical (bt_pcs s ! t)"
    using assms by (auto simp: bq_rel_def locks_ok_def excl_def)
  then have "bq_move t k (bt_pcs s ! t) s \<noteq> None"
    using assms(2) by (cases "bt_pcs s ! t") (simp_all split: prod.split)
  then obtain r where r: "bq_move t k (bt_pcs s ! t) s = Some r" by blast
  from sim_move [OF assms(1) t(1) r] r show ?thesis by blast
qed

lemma bq_outside: "bq_rel n s w \<Longrightarrow> mx_owner (bt_mutex s) = None \<Longrightarrow> p \<in> set (bt_pcs s) \<Longrightarrow> \<not> critical p"
  by (auto simp: bq_rel_def locks_ok_def excl_def in_set_conv_nth)

lemma bq_pop_awake:
  assumes "bq_rel n s w" and "mx_owner (bt_mutex s) = None" and "Pop_Wait \<in> set (bt_pcs s)"
    and "bq_queue (bt_queue s) \<noteq> []"
  shows "Pop_Enter True \<in> set (bt_pcs s)"
proof -
  have q: "in_step (at_lock s) s w" and inv: "bq_inv n w" and cnt: "counts (bt_pcs s) w"
    using assms(1) by (simp_all add: bq_rel_def)
  have "bq_queue (bw_q w) \<noteq> []" and "0 < pop_wait w"
    using q assms(2,4) counts_member(3) [OF cnt] assms(3)
    by (auto simp: at_lock_def same_queue_def in_set_conv_nth)
  then have "0 < pop_ready w"
    using inv by (cases "bq_queue (bw_q w)") (auto simp: bq_inv_def bq_ok_def)
  then have "tally pop_awake (bt_pcs s) \<noteq> 0" using cnt by (simp add: counts_def)
  then obtain p where p: "p \<in> set (bt_pcs s)" "pop_awake p \<noteq> 0" unfolding tally_member by blast
  have "\<not> critical p" using bq_outside [OF assms(1,2) p(1)] .
  then have "p = Pop_Enter True" using p(2) by (cases p) auto
  with p(1) show ?thesis by simp
qed

lemma bq_push_awake:
  assumes "bq_rel n s w" and "mx_owner (bt_mutex s) = None" and "Push_Wait y \<in> set (bt_pcs s)"
    and "int (length (bq_queue (bt_queue s))) < n"
  shows "\<exists>x. Push_Enter x True \<in> set (bt_pcs s)"
proof -
  have q: "in_step (at_lock s) s w" and inv: "bq_inv n w" and cnt: "counts (bt_pcs s) w"
    using assms(1) by (simp_all add: bq_rel_def)
  have "int (length (bq_queue (bw_q w))) < n" and "push_wait w \<noteq> []"
    using q assms(2,4) counts_member(1) [OF cnt] assms(3)
    by (auto simp: at_lock_def same_queue_def in_set_conv_nth)
  then have "push_ready w \<noteq> []" using inv by (auto simp: bq_inv_def bq_ok_def)
  then obtain x where "x \<in># tally push_awake (bt_pcs s)"
    using cnt by (metis counts_def mset_zero_iff multiset_nonemptyE)
  then obtain p where p: "p \<in> set (bt_pcs s)" "x \<in># push_awake p" unfolding tally_member by blast
  have "\<not> critical p" using bq_outside [OF assms(1,2) p(1)] .
  then have "\<exists>y. p = Push_Enter y True" using p(2) by (cases p) (auto split: if_splits)
  with p(1) show ?thesis by blast
qed

text \<open>
  C17: nobody is stuck with the lock, and no wake-up is lost. In the same runs the thread that
  holds the mutex can always execute its next statement. When nobody holds it, a consumer that
  sleeps although there are items has a consumer before it that has been woken and can take
  the mutex, and a producer that sleeps although there is room has a woken producer.
\<close>

theorem block_queue_lock_progress:
  assumes "0 \<le> n" and "bq_thread_step\<^sup>*\<^sup>* (new_bq_threads n m) s"
  shows "(\<forall>t k. mx_owner (bt_mutex s) = Some t \<longrightarrow> (\<exists>s'. bq_move t k (bt_pcs s ! t) s = Some (Inr s'))) \<and>
    (mx_owner (bt_mutex s) = None \<and> Pop_Wait \<in> set (bt_pcs s) \<and> bq_queue (bt_queue s) \<noteq> [] \<longrightarrow>
      Pop_Enter True \<in> set (bt_pcs s)) \<and>
    (mx_owner (bt_mutex s) = None \<and> (\<exists>x. Push_Wait x \<in> set (bt_pcs s)) \<and>
      int (length (bq_queue (bt_queue s))) < n \<longrightarrow> (\<exists>x. Push_Enter x True \<in> set (bt_pcs s)))"
proof -
  obtain w where w: "bq_rel n s w"
    using bq_sim.run [OF assms(2) bq_rel_new [OF assms(1)]] by blast
  show ?thesis
    using bq_holder_moves [OF w] bq_pop_awake [OF w] bq_push_awake [OF w] by blast
qed

text \<open>A run of chosen threads, for the examples.\<close>

fun bq_moves :: "nat list \<Rightarrow> 'a bq_threads \<Rightarrow> 'a bq_threads option" where
  "bq_moves [] s = Some s"
| "bq_moves (t # ts) s =
     (if t < length (bt_pcs s)
      then (case bq_move t 0 (bt_pcs s ! t) s of Some (Inr s') \<Rightarrow> bq_moves ts s' | _ \<Rightarrow> None)
      else None)"

lemma bq_moves_run: "bq_moves ts s = Some s' \<Longrightarrow> bq_thread_step\<^sup>*\<^sup>* s s'"
proof (induction ts arbitrary: s)
  case (Cons t ts)
  then obtain s1 where t: "t < length (bt_pcs s)" and s1: "bq_move t 0 (bt_pcs s ! t) s = Some (Inr s1)"
      "bq_moves ts s1 = Some s'"
    by (auto split: if_splits option.splits sum.splits)
  from bq_thread_step.move [OF t s1(1)] Cons.IH [OF s1(2)] show ?case
    by (rule converse_rtranclp_into_rtranclp)
qed simp

definition demo_calls :: "nat bq_threads" where
  "demo_calls = goto 0 (Push_Enter 7 False) (goto 1 (Pop_Enter False) (goto 2 (Pop_Enter False) (new_bq_threads 2 3)))"

lemma demo_calls_run: "bq_thread_step\<^sup>*\<^sup>* (new_bq_threads 2 3) demo_calls"
proof -
  let ?s0 = "new_bq_threads 2 3 :: nat bq_threads"
  let ?s1 = "goto 2 (Pop_Enter False) ?s0" and ?s2 = "goto 1 (Pop_Enter False) (goto 2 (Pop_Enter False) ?s0)"
  have "bq_thread_step ?s0 ?s1" and "bq_thread_step ?s1 ?s2"
    by (rule bq_thread_step.call_pop; simp add: new_bq_threads_def)+
  moreover have "bq_thread_step ?s2 demo_calls"
    unfolding demo_calls_def by (rule bq_thread_step.call_push) (simp_all add: new_bq_threads_def)
  ultimately show ?thesis by (meson converse_rtranclp_into_rtranclp rtranclp.rtrancl_refl)
qed

theorem block_queue_refines_witness:
  "\<exists>s. bq_moves [1, 1, 0, 0, 0] demo_calls = Some s \<and> bt_in s = [7] \<and>
     bt_in s = bt_out s @ bq_queue (bt_queue s) \<and> used (bt_queue s) \<le> 2 \<and>
     (\<exists>w. bq_step\<^sup>*\<^sup>* (new_bq_world 2) w \<and> in_step (at_lock s) s w)"
proof -
  have "map_option bt_in (bq_moves [1, 1, 0, 0, 0] demo_calls) = Some [7]" by code_simp
  then obtain s where s: "bq_moves [1, 1, 0, 0, 0] demo_calls = Some s" "bt_in s = [7]" by auto
  have "bq_thread_step\<^sup>*\<^sup>* (new_bq_threads 2 3) s"
    using demo_calls_run bq_moves_run [OF s(1)] by (rule rtranclp_trans)
  from block_queue_refines [OF _ this] s show ?thesis by auto
qed

theorem block_queue_lock_progress_witness:
  "\<exists>s. bq_moves [1, 1, 2, 2, 0, 0, 0, 0, 0] demo_calls = Some s \<and> bq_queue (bt_queue s) = [7] \<and>
     Pop_Wait \<in> set (bt_pcs s) \<and> Pop_Enter True \<in> set (bt_pcs s)"
proof -
  let ?run = "bq_moves [1, 1, 2, 2, 0, 0, 0, 0, 0] demo_calls"
  have "map_option (\<lambda>s. (mx_owner (bt_mutex s), bq_queue (bt_queue s), bt_pcs s)) ?run =
      Some (None, [7], [Outside, Pop_Enter True, Pop_Wait])"
    by code_simp
  then obtain s where s: "?run = Some s" "mx_owner (bt_mutex s) = None" "bq_queue (bt_queue s) = [7]"
      "Pop_Wait \<in> set (bt_pcs s)"
    by auto
  have "bq_thread_step\<^sup>*\<^sup>* (new_bq_threads 2 3) s"
    using demo_calls_run bq_moves_run [OF s(1)] by (rule rtranclp_trans)
  from block_queue_lock_progress [OF _ this] s show ?thesis by auto
qed

end
