(* ===== verification/PoolThreads.thy ===== *)
theory PoolThreads
  imports SqlPool Monitor
begin

text \<open>
  \<open>http/sql_connection_pool.cc\<close> once more, at the level of its mutex and its condition: each
  thread has a position inside \<open>GetConnection\<close> or \<open>ReleaseConnection\<close>, and one statement of one
  thread is a step. The assignments between \<open>lock\<close> and \<open>unlock\<close> are one step together: the only
  thing another thread can see of them is the test of \<open>connList\<close> that \<open>GetConnection\<close> makes
  before it takes the mutex. The signal of \<open>ReleaseConnection\<close> comes after the \<open>unlock\<close>. The
  theory shows that the steps of theory \<open>SqlPool\<close> describe this.
\<close>

subsection \<open>Threads in the pool\<close>

datatype pool_pc =
    Idle
  | Get_Check | Get_Lock | Get_Test | Get_Wait | Get_Take | Get_Unlock nat
  | Using nat
  | Rel_Lock nat | Rel_Add nat | Rel_Unlock | Rel_Signal

record pool_threads =
  pt_pool :: sql_pool
  pt_mutex :: mutex
  pt_reserve :: cond_var
  pt_pcs :: "pool_pc list"

definition new_pool_threads :: "sql_pool \<Rightarrow> nat \<Rightarrow> pool_threads" where
  "new_pool_threads p threads = \<lparr>pt_pool = p, pt_mutex = new_mutex, pt_reserve = new_cond,
     pt_pcs = replicate threads Idle\<rparr>"

definition pt_goto :: "nat \<Rightarrow> pool_pc \<Rightarrow> pool_threads \<Rightarrow> pool_threads" where
  "pt_goto t q s = s\<lparr>pt_pcs := (pt_pcs s)[t := q]\<rparr>"

text \<open>A woken thread takes the mutex again and repeats the test of the loop.\<close>

definition pt_wake :: "nat list \<Rightarrow> pool_threads \<Rightarrow> pool_threads" where
  "pt_wake ts s = fold (\<lambda>t. pt_goto t Get_Lock) ts s"

text \<open>
  The next statement of thread \<open>t\<close>, or \<open>None\<close> if it cannot go on by itself. An empty list gives
  NULL, which the caller keeps away from \<open>ReleaseConnection\<close>'s critical section. \<open>k\<close> is the
  choice of a signal.
\<close>

fun pool_move :: "nat \<Rightarrow> nat \<Rightarrow> pool_pc \<Rightarrow> pool_threads \<Rightarrow> pool_threads result option" where
  "pool_move t k Idle s = None"
| "pool_move t k Get_Check s = Some (Inr (pt_goto t (if connList (pt_pool s) = [] then Idle else Get_Lock) s))"
| "pool_move t k Get_Lock s =
     map_option (\<lambda>m. Inr (pt_goto t Get_Test (s\<lparr>pt_mutex := m\<rparr>))) (mutex_lock t (pt_mutex s))"
| "pool_move t k Get_Test s = Some
     (if m_FreeConn (pt_pool s) = 0
      then if reserve (pt_pool s)
           then res_map (\<lambda>(c, m). pt_goto t Get_Wait (s\<lparr>pt_reserve := c, pt_mutex := m\<rparr>))
             (cond_wait t (pt_reserve s) (pt_mutex s))
           else Inl Null_Pointer
      else Inr (pt_goto t Get_Take s))"
| "pool_move t k Get_Wait s = None"
| "pool_move t k Get_Take s =
     Some (res_map (\<lambda>(c, p). pt_goto t (Get_Unlock c) (s\<lparr>pt_pool := p\<rparr>)) (pool_take (pt_pool s)))"
| "pool_move t k (Get_Unlock c) s =
     Some (res_map (\<lambda>m. pt_goto t (Using c) (s\<lparr>pt_mutex := m\<rparr>)) (mutex_unlock t (pt_mutex s)))"
| "pool_move t k (Using c) s = None"
| "pool_move t k (Rel_Lock c) s =
     map_option (\<lambda>m. Inr (pt_goto t (Rel_Add c) (s\<lparr>pt_mutex := m\<rparr>))) (mutex_lock t (pt_mutex s))"
| "pool_move t k (Rel_Add c) s = Some (Inr (pt_goto t Rel_Unlock (s\<lparr>pt_pool := pool_put c (pt_pool s)\<rparr>)))"
| "pool_move t k Rel_Unlock s =
     Some (res_map (\<lambda>m. pt_goto t Rel_Signal (s\<lparr>pt_mutex := m\<rparr>)) (mutex_unlock t (pt_mutex s)))"
| "pool_move t k Rel_Signal s = Some
     (if reserve (pt_pool s)
      then case wakeUpOne k (pt_reserve s) of (ts, c) \<Rightarrow> Inr (pt_wake ts (pt_goto t Idle (s\<lparr>pt_reserve := c\<rparr>)))
      else Inl Null_Pointer)"

inductive pool_thread_step :: "pool_threads \<Rightarrow> pool_threads \<Rightarrow> bool" where
  call_get: "t < length (pt_pcs s) \<Longrightarrow> pt_pcs s ! t = Idle \<Longrightarrow> pool_thread_step s (pt_goto t Get_Check s)"
| call_release: "t < length (pt_pcs s) \<Longrightarrow> pt_pcs s ! t = Using c \<Longrightarrow>
    pool_thread_step s (pt_goto t (Rel_Lock c) s)"
| move: "t < length (pt_pcs s) \<Longrightarrow> pool_move t k (pt_pcs s ! t) s = Some (Inr s') \<Longrightarrow> pool_thread_step s s'"
| wakes: "t \<in> set (cv_waiters (pt_reserve s)) \<Longrightarrow>
    pool_thread_step s (pt_wake [t] (s\<lparr>pt_reserve := cond_wake t (pt_reserve s)\<rparr>))"

subsection \<open>Where the threads are\<close>

fun pt_critical :: "pool_pc \<Rightarrow> bool" where
  "pt_critical Get_Test = True"
| "pt_critical Get_Take = True"
| "pt_critical (Get_Unlock c) = True"
| "pt_critical (Rel_Add c) = True"
| "pt_critical Rel_Unlock = True"
| "pt_critical q = False"

text \<open>Past the test without the mutex, and not yet out of the loop.\<close>

fun pt_entered :: "pool_pc \<Rightarrow> bool" where
  "pt_entered Get_Lock = True"
| "pt_entered Get_Test = True"
| "pt_entered Get_Wait = True"
| "pt_entered Get_Take = True"
| "pt_entered q = False"

text \<open>The connection a thread has.\<close>

fun pt_held :: "pool_pc \<Rightarrow> nat option" where
  "pt_held (Get_Unlock c) = Some c"
| "pt_held (Using c) = Some c"
| "pt_held (Rel_Lock c) = Some c"
| "pt_held (Rel_Add c) = Some c"
| "pt_held q = None"

text \<open>Threads that are sure to take a connection, or to signal.\<close>

fun pt_awake :: "pool_pc \<Rightarrow> nat" where
  "pt_awake Get_Lock = 1"
| "pt_awake Get_Test = 1"
| "pt_awake Get_Take = 1"
| "pt_awake Rel_Unlock = 1"
| "pt_awake Rel_Signal = 1"
| "pt_awake q = 0"

definition pt_locks :: "pool_threads \<Rightarrow> bool" where
  "pt_locks s \<longleftrightarrow> excl pt_critical (mx_owner (pt_mutex s)) (pt_pcs s) \<and>
     waiters_ok (cv_waiters (pt_reserve s)) (\<lambda>q. q = Get_Wait) (pt_pcs s)"

definition holds_ok :: "(nat \<times> nat) list \<Rightarrow> pool_pc list \<Rightarrow> bool" where
  "holds_ok hs ps \<longleftrightarrow> distinct (map fst hs) \<and> (\<forall>t c. (t, c) \<in> set hs \<longleftrightarrow> t < length ps \<and> pt_held (ps ! t) = Some c)"

text \<open>
  The relation to the atomic model. If a thread waits, there are as many threads awake as there
  are free connections; the thread that passed the test still finds a free connection.
\<close>

definition pt_rel :: "nat list \<Rightarrow> pool_threads \<Rightarrow> pool_world \<Rightarrow> bool" where
  "pt_rel cs s w \<longleftrightarrow> pt_locks s \<and> pool_inv cs w \<and> pw_pool w = pt_pool s \<and>
     waiters_ok (pw_entered w) pt_entered (pt_pcs s) \<and> holds_ok (pw_holds w) (pt_pcs s) \<and>
     (\<forall>t. mx_owner (pt_mutex s) = Some t \<and> pt_pcs s ! t = Get_Take \<longrightarrow> m_FreeConn (pt_pool s) \<noteq> 0) \<and>
     (cv_waiters (pt_reserve s) \<noteq> [] \<longrightarrow> m_FreeConn (pt_pool s) \<le> int (tally pt_awake (pt_pcs s)))"

lemma pt_goto_simps [simp]:
  "pt_pool (pt_goto t q s) = pt_pool s" "pt_mutex (pt_goto t q s) = pt_mutex s"
  "pt_reserve (pt_goto t q s) = pt_reserve s" "pt_pcs (pt_goto t q s) = (pt_pcs s)[t := q]"
  by (simp_all add: pt_goto_def)

lemma pt_wake_simps [simp]: "pt_wake [] s = s" "pt_wake [t] s = pt_goto t Get_Lock s"
  by (simp_all add: pt_wake_def)

lemma holds_goto: "holds_ok hs ps \<Longrightarrow> pt_held q = pt_held (ps ! t) \<Longrightarrow> holds_ok hs (ps[t := q])"
  by (cases "t < length ps") (auto simp: holds_ok_def nth_list_update split: if_splits)

lemma holds_take:
  assumes "holds_ok hs ps" and "t < length ps" and "pt_held (ps ! t) = None" and "pt_held q = Some c"
  shows "holds_ok ((t, c) # hs) (ps[t := q])"
proof -
  have "t \<notin> fst ` set hs" using assms(1,3) unfolding holds_ok_def by force
  with assms show ?thesis by (auto simp: holds_ok_def nth_list_update split: if_splits)
qed

lemma holds_release:
  assumes "holds_ok hs ps" and "t < length ps" and "pt_held (ps ! t) = Some c" and "pt_held q = None"
  shows "holds_ok (remove1 (t, c) hs) (ps[t := q])"
proof -
  have d: "distinct (map fst hs)" "distinct hs" using assms(1) by (auto simp: holds_ok_def distinct_map)
  then have "distinct (map fst (remove1 (t, c) hs))" by (simp add: distinct_map inj_on_def)
  moreover have "(u, e) \<in> set (remove1 (t, c) hs) \<longleftrightarrow> (u, e) \<in> set hs \<and> u \<noteq> t" for u e
    using d assms(1,3) by (auto simp: holds_ok_def)
  ultimately show ?thesis using assms by (auto simp: holds_ok_def nth_list_update split: if_splits)
qed

lemma waiters_add:
  assumes "waiters_ok ws P ps" and "t < length ps" and "\<not> P (ps ! t)" and "P q"
  shows "waiters_ok (t # ws) P (ps[t := q])"
  using assms unfolding waiters_ok_def at_goto by auto

lemma pt_inside:
  assumes "pt_locks s" and "t < length (pt_pcs s)" and "pt_critical (pt_pcs s ! t)"
  shows "mx_owner (pt_mutex s) = Some t"
  using assms by (auto simp: pt_locks_def excl_def)

lemma pt_awake_update:
  "t < length ps \<Longrightarrow> int (tally pt_awake (ps[t := q])) = int (tally pt_awake ps) - int (pt_awake (ps ! t)) + int (pt_awake q)"
  using tally_update [of t ps pt_awake q] by linarith

subsection \<open>The simulation\<close>

text \<open>A statement that leaves the pool and the holders alone.\<close>

lemma pt_silent:
  assumes "pt_rel cs s w" and "t < length (pt_pcs s)" and "pt_entered q = pt_entered (pt_pcs s ! t)"
    and "pt_held q = pt_held (pt_pcs s ! t)" and "pt_pcs s' = (pt_pcs s)[t := q]" and "pt_pool s' = pt_pool s"
    and "pt_locks s'" and "q = Get_Take \<Longrightarrow> m_FreeConn (pt_pool s) \<noteq> 0"
    and "cv_waiters (pt_reserve s') \<noteq> [] \<Longrightarrow> m_FreeConn (pt_pool s) \<le> int (tally pt_awake (pt_pcs s'))"
  shows "\<exists>w'. pool_step\<^sup>*\<^sup>* w w' \<and> pt_rel cs s' w'"
proof -
  have "m_FreeConn (pt_pool s') \<noteq> 0" if u: "mx_owner (pt_mutex s') = Some u" "pt_pcs s' ! u = Get_Take" for u
  proof (cases "u = t")
    case True
    then show ?thesis using u assms(2,5,6,8) by simp
  next
    case False
    then have "pt_pcs s ! u = Get_Take" "u < length (pt_pcs s)"
      using u assms(5,7) by (auto simp: pt_locks_def excl_def)
    moreover from this have "mx_owner (pt_mutex s) = Some u"
      using assms(1) pt_inside [of s u] by (simp add: pt_rel_def)
    ultimately show ?thesis using assms(1,6) by (simp add: pt_rel_def)
  qed
  then have "pt_rel cs s' w"
    using assms(1,3-7,9) by (simp add: pt_rel_def waiters_goto holds_goto)
  then show ?thesis by blast
qed

lemma pt_enter:
  assumes "pt_rel cs s w" and "t < length (pt_pcs s)" and "mutex_lock t (pt_mutex s) = Some m"
    and "pt_entered q = pt_entered (pt_pcs s ! t)" and "pt_held q = pt_held (pt_pcs s ! t)"
    and "\<not> pt_critical (pt_pcs s ! t)" and "pt_pcs s ! t \<noteq> Get_Wait" and "pt_critical q" and "q \<noteq> Get_Take"
    and "pt_awake (pt_pcs s ! t) \<le> pt_awake q"
  shows "\<exists>w'. pool_step\<^sup>*\<^sup>* w w' \<and> pt_rel cs (pt_goto t q (s\<lparr>pt_mutex := m\<rparr>)) w'"
proof (rule pt_silent [OF assms(1,2,4,5)])
  have ok: "pt_locks s" "mx_owner (pt_mutex s) = None" using assms(1,3) by (simp_all add: pt_rel_def)
  have "q \<noteq> Get_Wait" using assms(8) by auto
  then show "pt_locks (pt_goto t q (s\<lparr>pt_mutex := m\<rparr>))"
    using ok assms(2,3,7,8) by (simp add: pt_locks_def excl_enter waiters_goto)
  assume "cv_waiters (pt_reserve (pt_goto t q (s\<lparr>pt_mutex := m\<rparr>))) \<noteq> []"
  then show "m_FreeConn (pt_pool s) \<le> int (tally pt_awake (pt_pcs (pt_goto t q (s\<lparr>pt_mutex := m\<rparr>))))"
    using assms(1,2,10) by (simp add: pt_rel_def pt_awake_update)
qed (use assms(9) in simp_all)

lemma pt_leave:
  assumes "pt_rel cs s w" and "t < length (pt_pcs s)"
    and "pt_entered q = pt_entered (pt_pcs s ! t)" and "pt_held q = pt_held (pt_pcs s ! t)"
    and "pt_critical (pt_pcs s ! t)" and "\<not> pt_critical q" and "q \<noteq> Get_Wait"
    and "pt_awake (pt_pcs s ! t) \<le> pt_awake q"
  shows "\<exists>m w'. mutex_unlock t (pt_mutex s) = Inr m \<and> pool_step\<^sup>*\<^sup>* w w' \<and> pt_rel cs (pt_goto t q (s\<lparr>pt_mutex := m\<rparr>)) w'"
proof -
  let ?m = "pt_mutex s\<lparr>mx_owner := None\<rparr>"
  have ok: "pt_locks s" "mx_owner (pt_mutex s) = Some t"
    using assms(1,2,5) pt_inside [of s t] by (simp_all add: pt_rel_def)
  have "\<exists>w'. pool_step\<^sup>*\<^sup>* w w' \<and> pt_rel cs (pt_goto t q (s\<lparr>pt_mutex := ?m\<rparr>)) w'"
  proof (rule pt_silent [OF assms(1,2,3,4)])
    have "pt_pcs s ! t \<noteq> Get_Wait" using assms(5) by auto
    then show "pt_locks (pt_goto t q (s\<lparr>pt_mutex := ?m\<rparr>))"
      using ok assms(6,7) excl_leave [of pt_critical t "pt_pcs s" q] by (simp add: pt_locks_def waiters_goto)
    assume "cv_waiters (pt_reserve (pt_goto t q (s\<lparr>pt_mutex := ?m\<rparr>))) \<noteq> []"
    then show "m_FreeConn (pt_pool s) \<le> int (tally pt_awake (pt_pcs (pt_goto t q (s\<lparr>pt_mutex := ?m\<rparr>))))"
      using assms(1,2,8) by (simp add: pt_rel_def pt_awake_update)
  qed (use assms(6) in auto)
  then show ?thesis using ok(2) by simp
qed

lemma pt_wait:
  assumes "pt_rel cs s w" and "t < length (pt_pcs s)" and "pt_pcs s ! t = Get_Test" and "m_FreeConn (pt_pool s) = 0"
  shows "\<exists>c m w'. cond_wait t (pt_reserve s) (pt_mutex s) = Inr (c, m) \<and> pool_step\<^sup>*\<^sup>* w w' \<and>
    pt_rel cs (pt_goto t Get_Wait (s\<lparr>pt_reserve := c, pt_mutex := m\<rparr>)) w'"
proof -
  have ok: "pt_locks s" "mx_owner (pt_mutex s) = Some t"
    using assms(1-3) pt_inside [of s t] by (simp_all add: pt_rel_def)
  let ?c = "pt_reserve s\<lparr>cv_waiters := cv_waiters (pt_reserve s) @ [t]\<rparr>"
  let ?m = "pt_mutex s\<lparr>mx_owner := None\<rparr>"
  have "\<exists>w'. pool_step\<^sup>*\<^sup>* w w' \<and> pt_rel cs (pt_goto t Get_Wait (s\<lparr>pt_reserve := ?c, pt_mutex := ?m\<rparr>)) w'"
  proof (rule pt_silent [OF assms(1,2), where q = Get_Wait])
    show "pt_locks (pt_goto t Get_Wait (s\<lparr>pt_reserve := ?c, pt_mutex := ?m\<rparr>))"
      using ok assms(2,3) excl_leave [of pt_critical t "pt_pcs s" Get_Wait] by (simp add: pt_locks_def waiters_join)
  qed (use assms(3,4) in simp_all)
  then show ?thesis using ok(2) by simp
qed

lemma pt_take:
  assumes "pt_rel cs s w" and "t < length (pt_pcs s)" and "pt_pcs s ! t = Get_Take"
  shows "\<exists>c p w'. pool_take (pt_pool s) = Inr (c, p) \<and> pool_step\<^sup>*\<^sup>* w w' \<and>
    pt_rel cs (pt_goto t (Get_Unlock c) (s\<lparr>pt_pool := p\<rparr>)) w'"
proof -
  have ok: "pt_locks s" "mx_owner (pt_mutex s) = Some t"
    using assms pt_inside [of s t] by (simp_all add: pt_rel_def)
  then have free: "m_FreeConn (pt_pool s) \<noteq> 0" using assms(1,3) by (simp add: pt_rel_def)
  then obtain c xs where l: "connList (pt_pool s) = c # xs"
    using assms(1) by (cases "connList (pt_pool s)") (auto simp: pt_rel_def pool_inv_def pool_ok_def)
  let ?p = "pt_pool s\<lparr>connList := xs, m_FreeConn := m_FreeConn (pt_pool s) - 1, m_CurConn := m_CurConn (pt_pool s) + 1\<rparr>"
  let ?s = "pt_goto t (Get_Unlock c) (s\<lparr>pt_pool := ?p\<rparr>)"
  let ?w = "w\<lparr>pw_pool := ?p, pw_entered := remove1 t (pw_entered w), pw_holds := (t, c) # pw_holds w\<rparr>"
  have take: "pool_take (pt_pool s) = Inr (c, ?p)" by (simp add: pool_take_def l)
  have ent: "waiters_ok (pw_entered w) pt_entered (pt_pcs s)" "holds_ok (pw_holds w) (pt_pcs s)"
    and pool: "pw_pool w = pt_pool s" and inv: "pool_inv cs w"
    using assms(1) by (simp_all add: pt_rel_def)
  then have t: "t \<in> set (pw_entered w)" using assms(2,3) by (simp add: waiters_ok_def)
  have step: "pool_step w ?w"
    by (rule pool_step.take [OF t]) (simp_all add: pool free take)
  have "waiters_ok (pw_entered ?w) pt_entered (pt_pcs ?s)"
    using waiters_wake [OF ent(1) t, of "Get_Unlock c"] by simp
  moreover have "holds_ok (pw_holds ?w) (pt_pcs ?s)"
    using holds_take [OF ent(2) assms(2), of "Get_Unlock c" c] assms(3) by simp
  moreover have "pt_locks ?s"
    using ok assms(3) by (simp add: pt_locks_def excl_goto waiters_goto)
  moreover have "cv_waiters (pt_reserve ?s) \<noteq> [] \<longrightarrow> m_FreeConn (pt_pool ?s) \<le> int (tally pt_awake (pt_pcs ?s))"
    using assms by (auto simp: pt_rel_def pt_awake_update)
  ultimately have "pt_rel cs ?s ?w"
    using pool_inv_step [OF step inv] ok(2) assms(2) by (simp add: pt_rel_def)
  with take step show ?thesis by blast
qed

lemma pt_put:
  assumes "pt_rel cs s w" and "t < length (pt_pcs s)" and "pt_pcs s ! t = Rel_Add c"
  shows "\<exists>w'. pool_step\<^sup>*\<^sup>* w w' \<and> pt_rel cs (pt_goto t Rel_Unlock (s\<lparr>pt_pool := pool_put c (pt_pool s)\<rparr>)) w'"
proof -
  have ok: "pt_locks s" "mx_owner (pt_mutex s) = Some t"
    using assms pt_inside [of s t] by (simp_all add: pt_rel_def)
  let ?s = "pt_goto t Rel_Unlock (s\<lparr>pt_pool := pool_put c (pt_pool s)\<rparr>)"
  let ?w = "w\<lparr>pw_pool := pool_put c (pt_pool s), pw_holds := remove1 (t, c) (pw_holds w)\<rparr>"
  have ent: "waiters_ok (pw_entered w) pt_entered (pt_pcs s)" "holds_ok (pw_holds w) (pt_pcs s)"
    and pool: "pw_pool w = pt_pool s" and inv: "pool_inv cs w"
    using assms(1) by (simp_all add: pt_rel_def)
  then have t: "(t, c) \<in> set (pw_holds w)" using assms(2,3) by (simp add: holds_ok_def)
  have "ReleaseConnection (Some c) (pw_pool w) = Inr (True, pool_put c (pt_pool s))"
    using inv pool by (simp add: ReleaseConnection_def pool_inv_def pool_ok_def)
  then have step: "pool_step w ?w" by (rule pool_step.release [OF t])
  have "waiters_ok (pw_entered ?w) pt_entered (pt_pcs ?s)"
    using waiters_goto [OF ent(1), of Rel_Unlock t] assms(3) by simp
  moreover have "holds_ok (pw_holds ?w) (pt_pcs ?s)"
    using holds_release [OF ent(2) assms(2), of c Rel_Unlock] assms(3) by simp
  moreover have "pt_locks ?s"
    using ok assms(3) by (simp add: pt_locks_def excl_goto waiters_goto)
  moreover have "cv_waiters (pt_reserve ?s) \<noteq> [] \<longrightarrow> m_FreeConn (pt_pool ?s) \<le> int (tally pt_awake (pt_pcs ?s))"
    using assms by (auto simp: pt_rel_def pt_awake_update)
  ultimately have "pt_rel cs ?s ?w"
    using pool_inv_step [OF step inv] ok(2) assms(2) by (simp add: pt_rel_def)
  with step show ?thesis by blast
qed

text \<open>A waiting thread is woken, by a signal or without one.\<close>

lemma pt_woken:
  assumes "pt_rel cs s w" and "t \<in> set (cv_waiters (pt_reserve s))"
  shows "\<exists>w'. pool_step\<^sup>*\<^sup>* w w' \<and> pt_rel cs (pt_wake [t] (s\<lparr>pt_reserve := cond_wake t (pt_reserve s)\<rparr>)) w'"
proof -
  have ok: "pt_locks s" using assms(1) by (simp add: pt_rel_def)
  then have t: "t < length (pt_pcs s)" "pt_pcs s ! t = Get_Wait"
    using assms(2) by (auto simp: pt_locks_def waiters_ok_def)
  show ?thesis
  proof (rule pt_silent [OF assms(1) t(1), where q = Get_Lock])
    show "pt_locks (pt_wake [t] (s\<lparr>pt_reserve := cond_wake t (pt_reserve s)\<rparr>))"
      using ok t(2) assms(2) by (simp add: pt_locks_def cond_wake_def excl_goto waiters_wake)
    assume "cv_waiters (pt_reserve (pt_wake [t] (s\<lparr>pt_reserve := cond_wake t (pt_reserve s)\<rparr>))) \<noteq> []"
    then show "m_FreeConn (pt_pool s) \<le>
        int (tally pt_awake (pt_pcs (pt_wake [t] (s\<lparr>pt_reserve := cond_wake t (pt_reserve s)\<rparr>))))"
      using assms t by (auto simp: pt_rel_def pt_awake_update)
  qed (use t in simp_all)
qed

lemma pt_quiet:
  assumes "pt_rel cs s w" and "t < length (pt_pcs s)" and "pt_entered q = pt_entered (pt_pcs s ! t)"
    and "pt_held q = pt_held (pt_pcs s ! t)" and "pt_critical q = pt_critical (pt_pcs s ! t)"
    and "pt_pcs s ! t \<noteq> Get_Wait" and "q \<noteq> Get_Wait" and "q = Get_Take \<Longrightarrow> m_FreeConn (pt_pool s) \<noteq> 0"
    and "pt_awake (pt_pcs s ! t) \<le> pt_awake q"
  shows "\<exists>w'. pool_step\<^sup>*\<^sup>* w w' \<and> pt_rel cs (pt_goto t q s) w'"
proof (rule pt_silent [OF assms(1-4) _ _ _ assms(8)])
  show "pt_locks (pt_goto t q s)"
    using assms(1,5-7) by (simp add: pt_rel_def pt_locks_def excl_goto waiters_goto)
  assume "cv_waiters (pt_reserve (pt_goto t q s)) \<noteq> []"
  then show "m_FreeConn (pt_pool s) \<le> int (tally pt_awake (pt_pcs (pt_goto t q s)))"
    using assms(1,2,9) by (simp add: pt_rel_def pt_awake_update)
qed simp_all

text \<open>The test of the list without the mutex lets a thread in.\<close>

lemma pt_check:
  assumes "pt_rel cs s w" and "t < length (pt_pcs s)" and "pt_pcs s ! t = Get_Check" and "connList (pt_pool s) \<noteq> []"
  shows "\<exists>w'. pool_step\<^sup>*\<^sup>* w w' \<and> pt_rel cs (pt_goto t Get_Lock s) w'"
proof -
  let ?w = "w\<lparr>pw_entered := t # pw_entered w\<rparr>" and ?s = "pt_goto t Get_Lock s"
  have ent: "waiters_ok (pw_entered w) pt_entered (pt_pcs s)" "holds_ok (pw_holds w) (pt_pcs s)"
    and pool: "pw_pool w = pt_pool s" and inv: "pool_inv cs w" and ok: "pt_locks s"
    using assms(1) by (simp_all add: pt_rel_def)
  have "t \<notin> fst ` set (pw_holds w)" using ent(2) assms(3) by (auto simp: holds_ok_def)
  then have step: "pool_step w ?w" using assms(4) by (intro pool_step.enter) (simp_all add: pool)
  have "waiters_ok (pw_entered ?w) pt_entered (pt_pcs ?s)"
    using waiters_add [OF ent(1) assms(2), of Get_Lock] assms(3) by simp
  moreover have "holds_ok (pw_holds ?w) (pt_pcs ?s)"
    using holds_goto [OF ent(2), of Get_Lock t] assms(3) by simp
  moreover have "pt_locks ?s"
    using ok assms(3) by (simp add: pt_locks_def excl_goto waiters_goto)
  moreover have "cv_waiters (pt_reserve ?s) \<noteq> [] \<longrightarrow> m_FreeConn (pt_pool ?s) \<le> int (tally pt_awake (pt_pcs ?s))"
    using assms by (auto simp: pt_rel_def pt_awake_update)
  moreover have "m_FreeConn (pt_pool ?s) \<noteq> 0" if "mx_owner (pt_mutex ?s) = Some u" "pt_pcs ?s ! u = Get_Take" for u
    using that assms(1,2) by (cases "u = t") (auto simp: pt_rel_def)
  ultimately have "pt_rel cs ?s ?w"
    using pool_inv_step [OF step inv] pool by (simp add: pt_rel_def)
  with step show ?thesis by blast
qed

lemma pt_signal:
  assumes "pt_rel cs s w" and "t < length (pt_pcs s)" and "pt_pcs s ! t = Rel_Signal"
    and "wakeUpOne k (pt_reserve s) = (ts, c)"
  shows "\<exists>w'. pool_step\<^sup>*\<^sup>* w w' \<and> pt_rel cs (pt_wake ts (pt_goto t Idle (s\<lparr>pt_reserve := c\<rparr>))) w'"
  using assms(4)
proof (cases rule: wakeUpOne_cases)
  case none
  have "\<exists>w'. pool_step\<^sup>*\<^sup>* w w' \<and> pt_rel cs (pt_goto t Idle s) w'"
  proof (rule pt_silent [OF assms(1,2), where q = Idle])
    show "pt_locks (pt_goto t Idle s)"
      using assms(1,3) by (simp add: pt_rel_def pt_locks_def excl_goto waiters_goto)
  qed (use assms(3) none(1) in simp_all)
  then show ?thesis using none(2,3) by simp
next
  case (one u)
  obtain w1 where w1: "pool_step\<^sup>*\<^sup>* w w1" "pt_rel cs (pt_wake [u] (s\<lparr>pt_reserve := c\<rparr>)) w1"
    using pt_woken [OF assms(1) one(1)] one(3) by blast
  let ?s1 = "pt_goto u Get_Lock (s\<lparr>pt_reserve := c\<rparr>)"
  have ok: "pt_locks s" using assms(1) by (simp add: pt_rel_def)
  then have u: "u < length (pt_pcs s)" "pt_pcs s ! u = Get_Wait"
    using one(1) unfolding pt_locks_def waiters_ok_def by blast+
  with assms(3) have "u \<noteq> t" by auto
  note u = u this
  have at: "pt_pcs ?s1 ! t = Rel_Signal" using u(3) assms(3) by simp
  have "\<exists>w2. pool_step\<^sup>*\<^sup>* w1 w2 \<and> pt_rel cs (pt_goto t Idle ?s1) w2"
  proof (rule pt_silent [where q = Idle])
    show "pt_rel cs ?s1 w1" using w1(2) by simp
    then show "pt_locks (pt_goto t Idle ?s1)"
      using at by (simp add: pt_rel_def pt_locks_def excl_goto waiters_goto)
    have "cv_waiters (pt_reserve s) \<noteq> []" using one(1) by auto
    then have "m_FreeConn (pt_pool s) \<le> int (tally pt_awake (pt_pcs s))"
      using assms(1) by (simp add: pt_rel_def)
    then show "m_FreeConn (pt_pool ?s1) \<le> int (tally pt_awake (pt_pcs (pt_goto t Idle ?s1)))"
      using u assms(2,3) by (simp add: pt_awake_update)
  qed (use assms(2) at in simp_all)
  then obtain w2 where w2: "pool_step\<^sup>*\<^sup>* w1 w2" "pt_rel cs (pt_goto t Idle ?s1) w2" by blast
  have "pt_goto t Idle ?s1 = pt_wake ts (pt_goto t Idle (s\<lparr>pt_reserve := c\<rparr>))"
    using one(2) u(3) by (simp add: pt_goto_def list_update_swap)
  with w1(1) w2 show ?thesis by (metis rtranclp_trans)
qed

text \<open>Whatever a thread executes is right, and the atomic model can follow.\<close>

lemma pt_reserved: "pt_rel cs s w \<Longrightarrow> reserve (pt_pool s)"
  by (auto simp: pt_rel_def pool_inv_def pool_ok_def)

lemma pt_move:
  assumes "pt_rel cs s w" and "t < length (pt_pcs s)" and "pool_move t k (pt_pcs s ! t) s = Some r"
  shows "\<exists>s' w'. r = Inr s' \<and> pool_step\<^sup>*\<^sup>* w w' \<and> pt_rel cs s' w'"
proof (cases "pt_pcs s ! t")
  case Get_Check
  then show ?thesis
    using assms(3) pt_check [OF assms(1,2)] pt_quiet [OF assms(1,2), of Idle] by (auto split: if_splits)
next
  case Get_Lock
  then obtain m where "mutex_lock t (pt_mutex s) = Some m" "r = Inr (pt_goto t Get_Test (s\<lparr>pt_mutex := m\<rparr>))"
    using assms(3) by auto
  with pt_enter [OF assms(1,2) this(1), of Get_Test] Get_Lock show ?thesis by simp
next
  case Get_Test
  show ?thesis
  proof (cases "m_FreeConn (pt_pool s) = 0")
    case True
    obtain c m w' where "cond_wait t (pt_reserve s) (pt_mutex s) = Inr (c, m)" "pool_step\<^sup>*\<^sup>* w w'"
        "pt_rel cs (pt_goto t Get_Wait (s\<lparr>pt_reserve := c, pt_mutex := m\<rparr>)) w'"
      using pt_wait [OF assms(1,2) Get_Test True] by blast
    then show ?thesis using assms(3) Get_Test True pt_reserved [OF assms(1)] by (auto simp del: cond_wait_Inr)
  next
    case False
    with pt_quiet [OF assms(1,2), of Get_Take] assms(3) Get_Test show ?thesis by auto
  qed
next
  case Get_Take
  obtain c p w' where "pool_take (pt_pool s) = Inr (c, p)" "pool_step\<^sup>*\<^sup>* w w'"
      "pt_rel cs (pt_goto t (Get_Unlock c) (s\<lparr>pt_pool := p\<rparr>)) w'"
    using pt_take [OF assms(1,2) Get_Take] by blast
  then show ?thesis using assms(3) Get_Take by auto
next
  case (Get_Unlock c)
  with pt_leave [OF assms(1,2), of "Using c"] assms(3) show ?thesis by (auto simp del: mutex_unlock_Inr)
next
  case (Rel_Lock c)
  then obtain m where "mutex_lock t (pt_mutex s) = Some m" "r = Inr (pt_goto t (Rel_Add c) (s\<lparr>pt_mutex := m\<rparr>))"
    using assms(3) by auto
  with pt_enter [OF assms(1,2) this(1), of "Rel_Add c"] Rel_Lock show ?thesis by simp
next
  case (Rel_Add c)
  with pt_put [OF assms(1,2) Rel_Add] assms(3) show ?thesis by auto
next
  case Rel_Unlock
  with pt_leave [OF assms(1,2), of Rel_Signal] assms(3) show ?thesis by (auto simp del: mutex_unlock_Inr)
next
  case Rel_Signal
  obtain ts c where k: "wakeUpOne k (pt_reserve s) = (ts, c)" by fastforce
  with pt_signal [OF assms(1,2) Rel_Signal k] assms(3) Rel_Signal pt_reserved [OF assms(1)] show ?thesis by auto
qed (use assms(3) in simp_all)

lemma pt_step:
  assumes "pool_thread_step s s'" and "pt_rel cs s w"
  shows "\<exists>w'. pool_step\<^sup>*\<^sup>* w w' \<and> pt_rel cs s' w'"
  using assms(1)
proof (cases rule: pool_thread_step.cases)
  case (call_get t)
  then show ?thesis using pt_quiet [OF assms(2), of t Get_Check] by simp
next
  case (call_release t c)
  then show ?thesis using pt_quiet [OF assms(2), of t "Rel_Lock c"] by simp
next
  case (move t k)
  from pt_move [OF assms(2) this] show ?thesis by blast
next
  case (wakes t)
  with pt_woken [OF assms(2)] show ?thesis by simp
qed

interpretation pool_sim: simulation pool_thread_step pool_step "pt_rel cs" for cs
  by unfold_locales (rule pt_step)

lemma pt_rel_new:
  assumes "pool_inv (connList p) \<lparr>pw_pool = p, pw_entered = [], pw_holds = []\<rparr>"
  shows "pt_rel (connList p) (new_pool_threads p n) \<lparr>pw_pool = p, pw_entered = [], pw_holds = []\<rparr>"
  using assms
  by (simp add: pt_rel_def pt_locks_def excl_def waiters_ok_def holds_ok_def new_pool_threads_def
    new_mutex_def new_cond_def)

text \<open>The pool that \<open>init\<close> leaves.\<close>

lemma pool_init_inv:
  assumes "pool_init conn url user password dbName port maxConn close_log (new_pool any) = Inr p" and "0 \<le> maxConn"
  shows "pool_inv (connList p) \<lparr>pw_pool = p, pw_entered = [], pw_holds = []\<rparr> \<and> m_MaxConn p = maxConn"
proof -
  let ?p0 = "(new_pool any)\<lparr>m_url := url, m_Port := [char_of (nat (port mod 256))], m_User := user,
    m_PassWord := password, m_DatabaseName := dbName, m_close_log := close_log\<rparr>"
  have count: "m_FreeConn p1 = m_FreeConn p0 + int n \<and> m_CurConn p1 = m_CurConn p0 \<and>
      length (connList p1) = length (connList p0) + n"
    if "pool_connect conn i n p0 = Inr p1" for i n p0 p1
    using that by (induction conn i n p0 rule: pool_connect.induct) (auto split: option.splits)
  obtain p1 where p1: "pool_connect conn 0 (nat maxConn) ?p0 = Inr p1" "p = p1\<lparr>reserve := True, m_MaxConn := m_FreeConn p1\<rparr>"
    using assms(1) by (auto simp: pool_init_def res_simps)
  from count [OF p1(1)] assms(2) show ?thesis by (simp add: p1(2) pool_inv_def pool_ok_def new_pool_def)
qed

text \<open>
  C5: the pool with its locks refines the atomic pool. Set up the pool, and let any number of
  threads call \<open>GetConnection\<close> and \<open>ReleaseConnection\<close> at will, statement by statement, with
  signals that wake any waiting thread and wake-ups without a signal. At every moment a run of
  the atomic model has led to the same pool, with the same connections held by the same
  threads; every connection is held by at most one thread; the thread in a critical section
  is the one that holds the mutex; and no statement goes wrong, be it the \<open>front\<close> of an empty list
  after the loop has let a thread through, or a mutex unlocked by another.
\<close>

theorem sql_pool_refines:
  assumes "pool_init conn url user password dbName port maxConn close_log (new_pool any) = Inr p"
    and "0 \<le> maxConn" and "distinct (connList p)" and "pool_thread_step\<^sup>*\<^sup>* (new_pool_threads p n) s"
  shows "(\<exists>w. pool_step\<^sup>*\<^sup>* \<lparr>pw_pool = p, pw_entered = [], pw_holds = []\<rparr> w \<and> pw_pool w = pt_pool s \<and>
      (\<forall>t c. (t, c) \<in> set (pw_holds w) \<longleftrightarrow> t < length (pt_pcs s) \<and> pt_held (pt_pcs s ! t) = Some c)) \<and>
    (\<forall>t u c. t < length (pt_pcs s) \<and> u < length (pt_pcs s) \<and> pt_held (pt_pcs s ! t) = Some c \<and>
      pt_held (pt_pcs s ! u) = Some c \<longrightarrow> t = u) \<and>
    (\<forall>t. mx_owner (pt_mutex s) = Some t \<longleftrightarrow> t < length (pt_pcs s) \<and> pt_critical (pt_pcs s ! t)) \<and>
    (\<forall>t k e. t < length (pt_pcs s) \<longrightarrow> pool_move t k (pt_pcs s ! t) s \<noteq> Some (Inl e))"
proof -
  note start = pt_rel_new [OF conjunct1 [OF pool_init_inv [OF assms(1,2)]]]
  obtain w where w: "pool_step\<^sup>*\<^sup>* \<lparr>pw_pool = p, pw_entered = [], pw_holds = []\<rparr> w" "pt_rel (connList p) s w"
    using pool_sim.run [OF assms(4) start] by blast
  have holds: "holds_ok (pw_holds w) (pt_pcs s)" and ok: "pt_locks s" and inv: "pool_inv (connList p) w"
    and pool: "pw_pool w = pt_pool s"
    using w(2) by (simp_all add: pt_rel_def)
  have "distinct (connList (pw_pool w) @ map snd (pw_holds w))"
    using inv assms(3) unfolding pool_inv_def by (metis mset_append mset_eq_imp_distinct_iff)
  then have "inj_on snd (set (pw_holds w))" by (simp add: distinct_map)
  then have "t = u" if "(t, c) \<in> set (pw_holds w)" "(u, c) \<in> set (pw_holds w)" for t u c
    using inj_onD [OF \<open>inj_on snd (set (pw_holds w))\<close>, of "(t, c)" "(u, c)"] that by simp
  then have "\<forall>t u c. t < length (pt_pcs s) \<and> u < length (pt_pcs s) \<and> pt_held (pt_pcs s ! t) = Some c \<and>
      pt_held (pt_pcs s ! u) = Some c \<longrightarrow> t = u"
    using holds unfolding holds_ok_def by blast
  moreover have "pool_move t k (pt_pcs s ! t) s \<noteq> Some (Inl e)" if "t < length (pt_pcs s)" for t k e
    using pt_move [OF w(2) that] by fastforce
  ultimately show ?thesis
    using w(1) pool holds ok unfolding holds_ok_def pt_locks_def excl_def by blast
qed

text \<open>The holder of the mutex can go on; a thread that waits is not left alone.\<close>

lemma pt_holder_moves:
  assumes "pt_rel cs s w" and "mx_owner (pt_mutex s) = Some t"
  shows "\<exists>s'. pool_move t k (pt_pcs s ! t) s = Some (Inr s')"
proof -
  have t: "t < length (pt_pcs s)" "pt_critical (pt_pcs s ! t)"
    using assms by (auto simp: pt_rel_def pt_locks_def excl_def)
  then have "pool_move t k (pt_pcs s ! t) s \<noteq> None"
    using assms(2) by (cases "pt_pcs s ! t") (simp_all split: prod.split)
  then obtain r where r: "pool_move t k (pt_pcs s ! t) s = Some r" by blast
  from pt_move [OF assms(1) t(1) r] r show ?thesis by blast
qed

lemma pt_outside: "pt_rel cs s w \<Longrightarrow> mx_owner (pt_mutex s) = None \<Longrightarrow> q \<in> set (pt_pcs s) \<Longrightarrow> \<not> pt_critical q"
  by (auto simp: pt_rel_def pt_locks_def excl_def in_set_conv_nth)

lemma pt_one_awake:
  assumes "pt_rel cs s w" and "mx_owner (pt_mutex s) = None" and "Get_Wait \<in> set (pt_pcs s)"
    and "connList (pt_pool s) \<noteq> []"
  shows "Get_Lock \<in> set (pt_pcs s) \<or> Rel_Signal \<in> set (pt_pcs s)"
proof -
  have ok: "pt_locks s" and inv: "pool_inv cs w" and pool: "pw_pool w = pt_pool s"
    using assms(1) by (simp_all add: pt_rel_def)
  have "cv_waiters (pt_reserve s) \<noteq> []"
    using ok assms(3) by (auto simp: pt_locks_def waiters_ok_def in_set_conv_nth)
  moreover have "0 < m_FreeConn (pt_pool s)" using inv assms(4) by (simp add: pool_inv_def pool_ok_def pool)
  ultimately have "tally pt_awake (pt_pcs s) \<noteq> 0" using assms(1) by (auto simp: pt_rel_def)
  then obtain q where q: "q \<in> set (pt_pcs s)" "pt_awake q \<noteq> 0" unfolding tally_member by blast
  with pt_outside [OF assms(1,2) q(1)] have "q = Get_Lock \<or> q = Rel_Signal" by (cases q) simp_all
  with q(1) show ?thesis by blast
qed

lemma pt_one_in_use:
  assumes "pt_rel cs s w" and "mx_owner (pt_mutex s) = None" and "connList (pt_pool s) = []" and "cs \<noteq> []"
  shows "\<exists>q \<in> set (pt_pcs s). \<exists>c. q = Using c \<or> q = Rel_Lock c"
proof -
  have holds: "holds_ok (pw_holds w) (pt_pcs s)" and inv: "pool_inv cs w" and pool: "pw_pool w = pt_pool s"
    using assms(1) by (simp_all add: pt_rel_def)
  have "pw_holds w \<noteq> []" using inv assms(3,4) by (auto simp: pool_inv_def pool)
  then obtain t c where "(t, c) \<in> set (pw_holds w)" by (cases "pw_holds w") auto
  then have q: "pt_pcs s ! t \<in> set (pt_pcs s)" "pt_held (pt_pcs s ! t) = Some c"
    using holds by (auto simp: holds_ok_def)
  with pt_outside [OF assms(1,2) q(1)] have "pt_pcs s ! t = Using c \<or> pt_pcs s ! t = Rel_Lock c"
    by (cases "pt_pcs s ! t") simp_all
  with q(1) show ?thesis by blast
qed

text \<open>
  C18: nobody is stuck in the pool. In the same runs the thread that holds the mutex can always
  execute its next statement. When nobody holds it, a thread that waits although a connection
  is free is not forgotten: another thread is on its way into the loop, or about to signal; and
  if the pool has connections at all, a thread never waits alone: there is such a thread, or
  one that uses a connection or is giving it back.
\<close>

theorem sql_pool_progress:
  assumes "pool_init conn url user password dbName port maxConn close_log (new_pool any) = Inr p"
    and "0 \<le> maxConn" and "pool_thread_step\<^sup>*\<^sup>* (new_pool_threads p n) s"
  shows "(\<forall>t k. mx_owner (pt_mutex s) = Some t \<longrightarrow> (\<exists>s'. pool_move t k (pt_pcs s ! t) s = Some (Inr s'))) \<and>
    (mx_owner (pt_mutex s) = None \<and> Get_Wait \<in> set (pt_pcs s) \<and> connList (pt_pool s) \<noteq> [] \<longrightarrow>
      Get_Lock \<in> set (pt_pcs s) \<or> Rel_Signal \<in> set (pt_pcs s)) \<and>
    (mx_owner (pt_mutex s) = None \<and> Get_Wait \<in> set (pt_pcs s) \<and> connList p \<noteq> [] \<longrightarrow>
      (\<exists>q \<in> set (pt_pcs s). q = Get_Lock \<or> q = Rel_Signal \<or> (\<exists>c. q = Using c \<or> q = Rel_Lock c)))"
proof -
  obtain w where w: "pt_rel (connList p) s w"
    using pool_sim.run [OF assms(3) pt_rel_new [OF conjunct1 [OF pool_init_inv [OF assms(1,2)]]]] by blast
  show ?thesis
    using pt_holder_moves [OF w] pt_one_awake [OF w] pt_one_in_use [OF w] by blast
qed

text \<open>A run of chosen threads, for the examples.\<close>

definition pool_next :: "nat \<Rightarrow> pool_threads \<Rightarrow> pool_threads option" where
  "pool_next t s =
     (if t < length (pt_pcs s)
      then case pt_pcs s ! t of
          Idle \<Rightarrow> Some (pt_goto t Get_Check s)
        | Using c \<Rightarrow> Some (pt_goto t (Rel_Lock c) s)
        | q \<Rightarrow> (case pool_move t 0 q s of Some (Inr s') \<Rightarrow> Some s' | _ \<Rightarrow> None)
      else None)"

fun pool_moves :: "nat list \<Rightarrow> pool_threads \<Rightarrow> pool_threads option" where
  "pool_moves [] s = Some s"
| "pool_moves (t # ts) s = (case pool_next t s of None \<Rightarrow> None | Some s' \<Rightarrow> pool_moves ts s')"

lemma pool_next_step:
  assumes "pool_next t s = Some s'"
  shows "pool_thread_step s s'"
proof -
  have t: "t < length (pt_pcs s)" using assms by (simp add: pool_next_def split: if_splits)
  show ?thesis
    using assms t pool_thread_step.call_get [OF t] pool_thread_step.call_release [OF t]
      pool_thread_step.move [OF t, of 0]
    by (cases "pt_pcs s ! t") (auto simp: pool_next_def split: option.splits sum.splits)
qed

lemma pool_moves_run: "pool_moves ts s = Some s' \<Longrightarrow> pool_thread_step\<^sup>*\<^sup>* s s'"
  by (induction ts arbitrary: s) (auto split: option.splits intro: converse_rtranclp_into_rtranclp pool_next_step)

definition demo_pool :: "sql_pool result" where
  "demo_pool = pool_init Some ''h'' ''u'' ''p'' ''d'' 3306 1 1 (new_pool 0)"

theorem sql_pool_refines_witness:
  "\<exists>p s. demo_pool = Inr p \<and> pool_moves [0, 0, 1, 1, 0, 0, 0, 0, 1, 1] (new_pool_threads p 2) = Some s \<and>
     pt_pcs s = [Using 0, Get_Wait] \<and>
     (\<exists>w. pool_step\<^sup>*\<^sup>* \<lparr>pw_pool = p, pw_entered = [], pw_holds = []\<rparr> w \<and> pw_pool w = pt_pool s)"
proof -
  have "case demo_pool of Inl e \<Rightarrow> False | Inr p \<Rightarrow> connList p = [0] \<and>
      map_option pt_pcs (pool_moves [0, 0, 1, 1, 0, 0, 0, 0, 1, 1] (new_pool_threads p 2)) = Some [Using 0, Get_Wait]"
    by code_simp
  then obtain p s where p: "demo_pool = Inr p" "connList p = [0]"
      "pool_moves [0, 0, 1, 1, 0, 0, 0, 0, 1, 1] (new_pool_threads p 2) = Some s" "pt_pcs s = [Using 0, Get_Wait]"
    by (auto split: sum.splits)
  have "distinct (connList p)" using p(2) by simp
  from sql_pool_refines [OF p(1) [unfolded demo_pool_def] _ this pool_moves_run [OF p(3)]] p(1,3,4)
  show ?thesis by auto
qed

theorem sql_pool_progress_witness:
  "\<exists>p s. demo_pool = Inr p \<and>
     pool_moves [0, 0, 1, 1, 0, 0, 0, 0, 1, 1, 0, 0, 0, 0] (new_pool_threads p 2) = Some s \<and>
     Get_Wait \<in> set (pt_pcs s) \<and> connList (pt_pool s) = [0] \<and> Rel_Signal \<in> set (pt_pcs s)"
proof -
  let ?ts = "[0, 0, 1, 1, 0, 0, 0, 0, 1, 1, 0, 0, 0, 0]"
  have "case demo_pool of Inl e \<Rightarrow> False | Inr p \<Rightarrow>
      map_option (\<lambda>s. (pt_pcs s, mx_owner (pt_mutex s), connList (pt_pool s))) (pool_moves ?ts (new_pool_threads p 2)) =
        Some ([Rel_Signal, Get_Wait], None, [0])"
    by code_simp
  then obtain p s where p: "demo_pool = Inr p" "pool_moves ?ts (new_pool_threads p 2) = Some s"
      "pt_pcs s = [Rel_Signal, Get_Wait]" "mx_owner (pt_mutex s) = None" "connList (pt_pool s) = [0]"
    by (auto split: sum.splits)
  have "Get_Lock \<in> set (pt_pcs s) \<or> Rel_Signal \<in> set (pt_pcs s)"
    using sql_pool_progress [OF p(1) [unfolded demo_pool_def] _ pool_moves_run [OF p(2)]] p(3-5) by simp
  with p show ?thesis by auto
qed

end
