(* ===== verification/SystemTimers.thy ===== *)
theory SystemTimers
  imports Lifecycle
begin

text \<open>
  The idle timers in the running server of theory \<open>Reactor\<close>: the timer objects that the
  connections and the timer queue share, the tasks that enter them into the queue, and the
  tick that runs them. The invariant says which timer belongs to which connection and that a
  timer is at most at one place; with it, a tick treats every connection for itself.
\<close>

subsection \<open>Timers and where they are\<close>

text \<open>How many tasks wait to enter a timer into the queue.\<close>

definition pend :: "system \<Rightarrow> nat \<Rightarrow> nat" where
  "pend s r = count_list (map snd (srv_tasks (sy_srv s))) (Add_Timer r)"

definition heap_ok :: "'x tcp_server \<Rightarrow> bool" where
  "heap_ok srv \<longleftrightarrow>
     (\<forall>r < next_timer srv. \<exists>i < nextConnId srv. tcpConn (timer_heap srv r) = Some i \<and>
       timer_func (timer_heap srv r) = Some i \<and> getInterval (timer_heap srv r) = conn_hold_seconds srv * 1000 * 1000) \<and>
     (\<forall>r < next_timer srv. \<forall>r' < next_timer srv.
       tcpConn (timer_heap srv r) = tcpConn (timer_heap srv r') \<longrightarrow> r = r')"

definition owner_ok :: "system \<Rightarrow> bool" where
  "owner_ok s \<longleftrightarrow> (\<forall>i c r. sy_conn s i = Some c \<and> conn_timer c = Some r \<longrightarrow>
     r < next_timer (sy_srv s) \<and> tcpConn (timer_heap (sy_srv s) r) = Some i)"

definition queue_ok :: "system \<Rightarrow> (timestamp, nat) smap \<Rightarrow> bool" where
  "queue_ok s ts \<longleftrightarrow> smap_ok ts \<and> distinct (map snd ts) \<and>
     (\<forall>(t, r) \<in> set ts. expiration (timer_heap (sy_srv s) r) = t \<and> r < next_timer (sy_srv s) \<and> pend s r = 0) \<and>
     (\<forall>r. pend s r \<le> 1 \<and> (0 < pend s r \<longrightarrow> r < next_timer (sy_srv s)))"

definition timers_ok :: "system \<Rightarrow> bool" where
  "timers_ok s \<longleftrightarrow> heap_ok (sy_srv s) \<and> owner_ok s \<and> queue_ok s (timers (timerq (sy_srv s)))"

subsection \<open>Steps that leave the timers alone\<close>

definition same_timers :: "system \<Rightarrow> system \<Rightarrow> bool" where
  "same_timers s s' \<longleftrightarrow> timerq (sy_srv s') = timerq (sy_srv s) \<and> timer_heap (sy_srv s') = timer_heap (sy_srv s) \<and>
     next_timer (sy_srv s') = next_timer (sy_srv s) \<and> nextConnId (sy_srv s') = nextConnId (sy_srv s) \<and>
     conn_hold_seconds (sy_srv s') = conn_hold_seconds (sy_srv s) \<and> pend s' = pend s \<and>
     (\<forall>i c'. sy_conn s' i = Some c' \<longrightarrow> (\<exists>c. sy_conn s i = Some c \<and> conn_timer c' = conn_timer c))"

lemma timers_ok_same:
  assumes "timers_ok s" and "same_timers s s'"
  shows "timers_ok s'"
proof -
  note eq = assms(2) [unfolded same_timers_def]
  have "heap_ok (sy_srv s')" using assms(1) eq by (simp add: timers_ok_def heap_ok_def)
  moreover have "owner_ok s'" using assms(1) eq unfolding timers_ok_def owner_ok_def by metis
  moreover have "queue_ok s' (timers (timerq (sy_srv s')))"
    using assms(1) eq by (simp add: timers_ok_def queue_ok_def)
  ultimately show ?thesis by (simp add: timers_ok_def)
qed

lemma removals_timers [simp]:
  "timerq (fold removeConnection ids srv) = timerq srv" "timer_heap (fold removeConnection ids srv) = timer_heap srv"
  "next_timer (fold removeConnection ids srv) = next_timer srv" "nextConnId (fold removeConnection ids srv) = nextConnId srv"
  "conn_hold_seconds (fold removeConnection ids srv) = conn_hold_seconds srv"
  "conns (fold removeConnection ids srv) = conns srv"
  "count_list (map snd (srv_tasks (fold removeConnection ids srv))) (Add_Timer r) =
    count_list (map snd (srv_tasks srv)) (Add_Timer r)"
  by (induction ids arbitrary: srv) (simp_all add: removeConnection_def queueInLoop_def)

lemma same_timers_put_back:
  assumes "sy_conn s ident = Some c" and "conn_timer c' = conn_timer c"
  shows "same_timers s (put_back ident c' io s)"
  using assms by (auto simp: same_timers_def put_back_def pend_def map_of_smap_assign)

lemma handleClose_timer: "handleClose c io = (c', io') \<Longrightarrow> conn_timer c' = conn_timer c"
  by (auto simp: handleClose_def on_channel_def split: prod.splits)

lemma read_outcome_timer:
  assumes "read_outcome c io c' io'"
  shows "conn_timer c' = conn_timer c"
proof (cases "keeps c io c' io'")
  case True
  then show ?thesis by (simp add: keeps_def)
next
  case False
  then obtain c1 where c1: "keeps c io c1 io" "handleClose c1 io = (c', io')"
    using assms unfolding read_outcome_def by fastforce
  from handleClose_timer [OF c1(2)] c1(1) show ?thesis by (simp add: keeps_def)
qed

lemma same_timers_read:
  assumes "sys_read env now reads writes ident s = Inr s'"
  shows "same_timers s s'"
proof -
  obtain c c' io' where h: "sy_conn s ident = Some c" "s' = put_back ident c' io' s"
      "handleRead (onMessage env) now reads c (handler_io writes ident s) = Inr (c', io')"
    using assms by (auto simp: sys_read_def on_conn_def res_simps split: option.splits)
  have "read_outcome c (handler_io writes ident s) c' io'"
    using h(3) by (rule handleRead_outcome) (rule keeps_onMessage)
  from same_timers_put_back [OF h(1) read_outcome_timer [OF this]] show ?thesis by (simp add: h(2))
qed

lemma same_timers_write:
  assumes "sys_write_event writes ident s = Inr s'"
  shows "same_timers s s'"
proof -
  obtain c c' io' where h: "sy_conn s ident = Some c" "s' = put_back ident c' io' s"
      "handleWrite c (handler_io writes ident s) = Inr (c', io')"
    using assms by (auto simp: sys_write_event_def on_conn_def res_simps split: option.splits)
  have "conn_timer c' = conn_timer c" using keeps_handleWrite [OF h(3)] by (simp add: keeps_def)
  from same_timers_put_back [OF h(1) this] show ?thesis by (simp add: h(2))
qed

lemma same_timers_establish:
  assumes "sys_establish ident s = Inr s'"
  shows "same_timers s s'"
proof -
  obtain c c' io' where h: "sy_conn s ident = Some c" "s' = put_back ident c' io' s"
      "connectEstablished c (handler_io [] ident s) = (c', io')"
    using assms by (auto simp: sys_establish_def on_conn_def res_simps split: option.splits prod.splits)
  have "conn_timer c' = conn_timer c"
    using h(3) by (auto simp: connectEstablished_def on_channel_def split: if_splits prod.splits)
  from same_timers_put_back [OF h(1) this] show ?thesis by (simp add: h(2))
qed

lemma same_timers_trans: "same_timers s s1 \<Longrightarrow> same_timers s1 s2 \<Longrightarrow> same_timers s s2"
  unfolding same_timers_def by metis

text \<open>A task is taken.\<close>

lemma count_remove1_snd:
  "(l, t) \<in> set ts \<Longrightarrow> count_list (map snd (remove1 (l, t) ts)) x + (if x = t then 1 else 0) = count_list (map snd ts) x"
  by (induction ts) auto

lemma pend_take:
  "next_task l s = Some t \<Longrightarrow> pend (take_task l t s) r + (if Add_Timer r = t then 1 else 0) = pend s r"
  using count_remove1_snd [OF next_task_in] by (simp add: pend_def)

lemma same_timers_take:
  assumes "next_task l s = Some t" and "\<And>r. t \<noteq> Add_Timer r"
  shows "same_timers s (take_task l t s)"
proof -
  have "pend (take_task l t s) r = pend s r" for r
    using pend_take [OF assms(1), of r] assms(2) [of r, symmetric] by simp
  then have "pend (take_task l t s) = pend s" by (rule ext)
  then show ?thesis by (simp add: same_timers_def)
qed

subsection \<open>Steps that change the timers\<close>

lemma timers_ok_accept:
  assumes "timers_ok s" and "sys_ok s" and "sys_accept now fd second reopened s = Inr s'"
  shows "timers_ok s'"
proof (cases "fd \<ge> 0")
  case False
  then have "same_timers s s'"
    using assms(3) by (auto simp: sys_accept_def newConnection_def same_timers_def pend_def)
  with assms(1) show ?thesis by (rule timers_ok_same)
next
  case True
  let ?srv = "sy_srv s"
  let ?id = "nextConnId ?srv" and ?n = "next_timer ?srv"
  let ?us = "conn_hold_seconds ?srv * 1000 * 1000"
  obtain srv where acc: "accepted onConnection None now fd ?srv = Inr srv" "sy_srv s' = srv"
    using assms(3) True by (auto simp: sys_accept_def newConnection_def res_simps Let_def)
  obtain l p where nxt: "getNextLoop (srv_pool ?srv) = (Some l, p)"
    using acc(1) by (auto simp: accepted_def Let_def split: prod.splits option.splits)
  have id: "sy_conn s i = Some c \<Longrightarrow> i < ?id" for i c using assms(2) by (auto simp: sys_ok_def)
  note ok = assms(1) [unfolded timers_ok_def]
  show ?thesis
  proof (cases "conn_hold_seconds ?srv \<ge> 0")
    case False
    then obtain d where d: "conns srv = smap_assign ?id d (conns ?srv)" "conn_timer d = None"
        "timerq srv = timerq ?srv" "timer_heap srv = timer_heap ?srv" "next_timer srv = ?n" "nextConnId srv = ?id + 1"
        "conn_hold_seconds srv = conn_hold_seconds ?srv" "srv_tasks srv = srv_tasks ?srv @ [(l, Establish ?id)]"
      using acc(1) by (auto simp: accepted_def nxt Let_def queueInLoop_def onConnection_def new_connection_def)
    have "pend s' = pend s" by (rule ext) (simp add: pend_def acc(2) d(8))
    moreover have "owner_ok s'"
      using ok d(2) by (auto simp: owner_ok_def acc(2) d(1,4,5) map_of_smap_assign split: if_splits)
    moreover have "heap_ok srv" using ok by (fastforce simp: heap_ok_def d(4-7))
    ultimately show ?thesis using ok by (simp add: timers_ok_def queue_ok_def acc(2) d(3-5))
  next
    case True
    let ?t = "setTimerFunc ?id (bindTcpConnection ?id (new_timer (addTime ?us now) ?us))"
    obtain d where d: "conns srv = smap_assign ?id d (conns ?srv)" "conn_timer d = Some ?n"
        "timerq srv = timerq ?srv" "timer_heap srv = (timer_heap ?srv)(?n := ?t)" "next_timer srv = ?n + 1"
        "nextConnId srv = ?id + 1" "conn_hold_seconds srv = conn_hold_seconds ?srv"
        "map snd (srv_tasks srv) = map snd (srv_tasks ?srv) @ [Establish ?id, Add_Timer ?n]"
      using True acc(1) by (auto simp: accepted_def nxt Let_def queueInLoop_def onConnection_def new_connection_def)
    have t: "tcpConn ?t = Some ?id" "timer_func ?t = Some ?id" "getInterval ?t = ?us"
      by (simp_all add: setTimerFunc_def bindTcpConnection_def new_timer_def getInterval_def)
    have pend: "pend s' r = pend s r + (if r = ?n then 1 else 0)" for r
      by (simp add: pend_def acc(2) d(8))
    have none: "pend s ?n = 0" using ok by (auto simp: queue_ok_def)
    have "heap_ok srv"
      using ok t by (fastforce simp: heap_ok_def d(4-7) less_Suc_eq)
    moreover have "owner_ok s'"
      unfolding owner_ok_def
    proof (intro allI impI)
      fix i c r assume c: "sy_conn s' i = Some c \<and> conn_timer c = Some r"
      show "r < next_timer (sy_srv s') \<and> tcpConn (timer_heap (sy_srv s') r) = Some i"
      proof (cases "i = ?id")
        case True
        then have "c = d" using c by (simp add: acc(2) d(1) map_of_smap_assign)
        then have "r = ?n" using c d(2) by simp
        with True t(1) show ?thesis by (simp add: acc(2) d(4,5))
      next
        case False
        then have "r < ?n \<and> tcpConn (timer_heap ?srv r) = Some i"
          using ok c by (auto simp: owner_ok_def acc(2) d(1) map_of_smap_assign)
        then show ?thesis by (simp add: acc(2) d(4,5))
      qed
    qed
    moreover have "queue_ok s' (timers (timerq ?srv))"
    proof -
      have q: "queue_ok s (timers (timerq ?srv))" using ok by simp
      then have "expiration (timer_heap srv r) = t \<and> r < next_timer srv \<and> pend s' r = 0"
        if "(t, r) \<in> set (timers (timerq ?srv))" for t r
        using that by (auto simp: queue_ok_def d(4,5) pend)
      moreover have "pend s' r \<le> 1 \<and> (0 < pend s' r \<longrightarrow> r < next_timer srv)" for r
        using q none by (cases "r = ?n") (auto simp: queue_ok_def d(5) pend less_SucI)
      ultimately show ?thesis using q by (auto simp: queue_ok_def acc(2))
    qed
    ultimately show ?thesis by (simp add: timers_ok_def acc(2) d(3))
  qed
qed

lemma removal_timers:
  assumes "removeConnectionInLoop c srv = Inr (c', srv')"
  shows "conns srv' = smap_erase (connID c) (conns srv) \<and> timer_heap srv' = timer_heap srv \<and>
    next_timer srv' = next_timer srv \<and> nextConnId srv' = nextConnId srv \<and> srv_tasks srv' = srv_tasks srv \<and>
    conn_hold_seconds srv' = conn_hold_seconds srv \<and> (timers (timerq srv') = timers (timerq srv) \<or>
      (\<exists>t. timers (timerq srv') = smap_erase t (timers (timerq srv))))"
  using assms
  by (auto simp: removeConnectionInLoop_def res_simps deleteTimer_def split: if_splits option.splits)

lemma timers_ok_remove:
  assumes "timers_ok s" and "sys_remove ident s = Inr s'"
  shows "timers_ok s'"
proof -
  obtain c c' where c: "removeConnectionInLoop c (sy_srv s) = Inr (c', sy_srv s')"
    using assms(2) by (auto simp: sys_remove_def res_simps split: option.splits)
  have srv: "conns (sy_srv s') = smap_erase (connID c) (conns (sy_srv s))"
      "timer_heap (sy_srv s') = timer_heap (sy_srv s)" "next_timer (sy_srv s') = next_timer (sy_srv s)"
      "nextConnId (sy_srv s') = nextConnId (sy_srv s)" "srv_tasks (sy_srv s') = srv_tasks (sy_srv s)"
      "conn_hold_seconds (sy_srv s') = conn_hold_seconds (sy_srv s)"
      "timers (timerq (sy_srv s')) = timers (timerq (sy_srv s)) \<or>
       (\<exists>t. timers (timerq (sy_srv s')) = smap_erase t (timers (timerq (sy_srv s))))"
    using removal_timers [OF c] by simp_all
  note ok = assms(1) [unfolded timers_ok_def]
  have pend: "pend s' = pend s" by (rule ext) (simp add: pend_def srv(5))
  have "smap_ok (timers (timerq (sy_srv s')))" "distinct (map snd (timers (timerq (sy_srv s'))))"
      "set (timers (timerq (sy_srv s'))) \<subseteq> set (timers (timerq (sy_srv s)))"
    using ok srv(7) smap.ok_erase [of "timers (timerq (sy_srv s))"]
    by (auto simp: queue_ok_def smap_erase_def distinct_map_filter)
  then have "queue_ok s' (timers (timerq (sy_srv s')))"
    using ok by (auto simp: queue_ok_def pend srv(2,3))
  moreover have "owner_ok s'"
    using ok by (auto simp: owner_ok_def srv(1-3) map_of_smap_erase split: if_splits)
  ultimately show ?thesis using ok by (simp add: timers_ok_def heap_ok_def srv(2-4,6))
qed

text \<open>The task that enters a timer into the queue.\<close>

lemma assign_values:
  "smap_ok m \<Longrightarrow> map_of m k = None \<Longrightarrow> mset (smap_assign k v m) = add_mset (k, v) (mset m)"
  by (induction k v m rule: smap_assign.induct) (auto simp: smap_ok_def split: if_splits)

lemma insert_values:
  assumes "smap_ok m" and "distinct (map snd m)" and "v \<notin> snd ` set m"
  shows "distinct (map snd (smap_insert k v m)) \<and> set (smap_insert k v m) \<subseteq> insert (k, v) (set m)"
proof (cases "map_of m k")
  case None
  have m: "mset (smap_assign k v m) = mset ((k, v) # m)" using assign_values [OF assms(1) None] by simp
  then have "mset (map snd (smap_assign k v m)) = mset (map snd ((k, v) # m))" by (metis mset_map)
  moreover have "distinct (map snd ((k, v) # m))" using assms(2,3) by simp
  ultimately have "distinct (map snd (smap_assign k v m))" by (metis mset_eq_imp_distinct_iff)
  moreover have "set (smap_assign k v m) = set ((k, v) # m)" using m by (rule mset_eq_setD)
  ultimately show ?thesis using None by (simp add: smap_insert_def)
qed (use assms(2) in \<open>auto simp: smap_insert_def\<close>)

lemma timers_ok_enter:
  assumes "timers_ok s" and "next_task l s = Some (Add_Timer r)"
  shows "timers_ok (s\<lparr>sy_srv := run_add_timer r (sy_srv (take_task l (Add_Timer r) s))\<rparr>)"
proof -
  define s' where s': "s' = s\<lparr>sy_srv := run_add_timer r (sy_srv (take_task l (Add_Timer r) s))\<rparr>"
  let ?ts = "timers (timerq (sy_srv s))" and ?t = "expiration (timer_heap (sy_srv s) r)"
  note ok = assms(1) [unfolded timers_ok_def]
  have pend: "pend s' x + (if x = r then 1 else 0) = pend s x" for x
    using pend_take [OF assms(2), of x] by (simp add: pend_def run_add_timer_def s')
  have q: "smap_ok ?ts" "distinct (map snd ?ts)" "\<forall>x. pend s x \<le> 1 \<and> (0 < pend s x \<longrightarrow> x < next_timer (sy_srv s))"
    and entry: "\<And>t x. (t, x) \<in> set ?ts \<Longrightarrow>
      expiration (timer_heap (sy_srv s) x) = t \<and> x < next_timer (sy_srv s) \<and> pend s x = 0"
    using ok by (auto simp: queue_ok_def)
  have one: "pend s' r + 1 = pend s r" using pend [of r] by simp
  have "pend s r \<le> 1" and "0 < pend s r \<longrightarrow> r < next_timer (sy_srv s)" using q(3) by blast+
  with one have r: "pend s r = 1" "r < next_timer (sy_srv s)" "pend s' r = 0" by linarith+
  have new: "r \<notin> snd ` set ?ts" using entry r(1) by force
  let ?ts' = "smap_insert ?t r ?ts"
  have srv: "sy_srv s' = (sy_srv s)\<lparr>srv_tasks := remove1 (l, Add_Timer r) (srv_tasks (sy_srv s)),
      timerq := (timerq (sy_srv s))\<lparr>timers := ?ts'\<rparr>\<rparr>"
    by (simp add: run_add_timer_def addTimerInLoop_def s')
  have ins: "distinct (map snd ?ts')" "set ?ts' \<subseteq> insert (?t, r) (set ?ts)" "smap_ok ?ts'"
    using insert_values [OF q(1,2) new, of ?t] q(1) by (simp_all add: smap.ok_insert_new)
  have "expiration (timer_heap (sy_srv s) x) = t \<and> x < next_timer (sy_srv s) \<and> pend s' x = 0"
    if "(t, x) \<in> set ?ts'" for t x
  proof (cases "x = r \<and> t = ?t")
    case True
    with r show ?thesis by simp
  next
    case False
    then have "(t, x) \<in> set ?ts" using that ins(2) by auto
    from entry [OF this] pend [of x] show ?thesis by simp
  qed
  moreover have "pend s' x \<le> 1 \<and> (0 < pend s' x \<longrightarrow> x < next_timer (sy_srv s))" for x
  proof -
    have "pend s x \<le> 1" and "0 < pend s x \<longrightarrow> x < next_timer (sy_srv s)" using q(3) by blast+
    with pend [of x] show ?thesis by (auto split: if_splits)
  qed
  ultimately have "queue_ok s' ?ts'"
    using ins(1,3) unfolding queue_ok_def by (auto simp: srv simp del: One_nat_def)
  moreover have "owner_ok s'" using ok by (simp add: owner_ok_def srv)
  ultimately have "timers_ok s'" using ok by (simp add: timers_ok_def heap_ok_def srv)
  then show ?thesis by (simp only: s')
qed

subsection \<open>A tick\<close>

text \<open>What the callbacks of the timers in \<open>P\<close> may have changed.\<close>

definition ticked :: "nat set \<Rightarrow> system \<Rightarrow> system \<Rightarrow> bool" where
  "ticked P s s' \<longleftrightarrow> timerq (sy_srv s') = timerq (sy_srv s) \<and> next_timer (sy_srv s') = next_timer (sy_srv s) \<and>
     nextConnId (sy_srv s') = nextConnId (sy_srv s) \<and> conn_hold_seconds (sy_srv s') = conn_hold_seconds (sy_srv s) \<and>
     main_loop (sy_srv s') = main_loop (sy_srv s) \<and>
     (\<forall>r. tcpConn (timer_heap (sy_srv s') r) = tcpConn (timer_heap (sy_srv s) r) \<and>
       timer_func (timer_heap (sy_srv s') r) = timer_func (timer_heap (sy_srv s) r) \<and>
       getInterval (timer_heap (sy_srv s') r) = getInterval (timer_heap (sy_srv s) r) \<and>
       (r \<notin> P \<longrightarrow> timer_heap (sy_srv s') r = timer_heap (sy_srv s) r)) \<and>
     (\<forall>r. pend s' r \<le> pend s r + (if r \<in> P then 1 else 0) \<and> pend s r \<le> pend s' r) \<and>
     set (srv_tasks (sy_srv s)) \<subseteq> set (srv_tasks (sy_srv s')) \<and>
     (\<forall>i c'. sy_conn s' i = Some c' \<longrightarrow> (\<exists>c. sy_conn s i = Some c \<and> conn_timer c' = conn_timer c)) \<and>
     (\<forall>i c. sy_conn s i = Some c \<and> conn_timer c \<notin> Some ` P \<longrightarrow> sy_conn s' i = Some c \<and> sy_fin s' i = sy_fin s i)"

lemma ticked_refl: "ticked P s s"
  by (simp add: ticked_def)

lemma ticked_trans:
  assumes "ticked P s s1" and "ticked {r} s1 s2" and "r \<notin> P"
  shows "ticked (insert r P) s s2"
proof -
  note a = assms(1) [unfolded ticked_def] and b = assms(2) [unfolded ticked_def]
  have rest: "\<And>i c. sy_conn s i = Some c \<Longrightarrow> conn_timer c \<notin> Some ` P \<Longrightarrow>
        sy_conn s1 i = Some c \<and> sy_fin s1 i = sy_fin s i"
    and rest1: "\<And>i c. sy_conn s1 i = Some c \<Longrightarrow> conn_timer c \<notin> Some ` {r} \<Longrightarrow>
        sy_conn s2 i = Some c \<and> sy_fin s2 i = sy_fin s1 i"
    and owner0: "\<And>i c. sy_conn s1 i = Some c \<Longrightarrow> \<exists>d. sy_conn s i = Some d \<and> conn_timer c = conn_timer d"
    and owner1: "\<And>i c. sy_conn s2 i = Some c \<Longrightarrow> \<exists>d. sy_conn s1 i = Some d \<and> conn_timer c = conn_timer d"
    using a b by blast+
  have fields: "timerq (sy_srv s2) = timerq (sy_srv s)" "next_timer (sy_srv s2) = next_timer (sy_srv s)"
      "nextConnId (sy_srv s2) = nextConnId (sy_srv s)" "conn_hold_seconds (sy_srv s2) = conn_hold_seconds (sy_srv s)"
      "main_loop (sy_srv s2) = main_loop (sy_srv s)" "set (srv_tasks (sy_srv s)) \<subseteq> set (srv_tasks (sy_srv s2))"
    using a b by auto
  have "tcpConn (timer_heap (sy_srv s2) x) = tcpConn (timer_heap (sy_srv s) x) \<and>
      timer_func (timer_heap (sy_srv s2) x) = timer_func (timer_heap (sy_srv s) x) \<and>
      getInterval (timer_heap (sy_srv s2) x) = getInterval (timer_heap (sy_srv s) x) \<and>
      (x \<notin> insert r P \<longrightarrow> timer_heap (sy_srv s2) x = timer_heap (sy_srv s) x)" for x
    using a b by simp
  moreover have "pend s2 x \<le> pend s x + (if x \<in> insert r P then 1 else 0) \<and> pend s x \<le> pend s2 x" for x
  proof -
    have "pend s1 x \<le> pend s x + (if x \<in> P then 1 else 0) \<and> pend s x \<le> pend s1 x"
      and "pend s2 x \<le> pend s1 x + (if x \<in> {r} then 1 else 0) \<and> pend s1 x \<le> pend s2 x"
      using a b by blast+
    then show ?thesis using assms(3) by (cases "x = r") auto
  qed
  moreover have "\<exists>c. sy_conn s i = Some c \<and> conn_timer c' = conn_timer c" if "sy_conn s2 i = Some c'" for i c'
    using owner1 [OF that] owner0 by auto
  moreover have "sy_conn s2 i = Some c \<and> sy_fin s2 i = sy_fin s i"
    if "sy_conn s i = Some c \<and> conn_timer c \<notin> Some ` insert r P" for i c
  proof -
    have "conn_timer c \<notin> Some ` P" and "conn_timer c \<notin> Some ` {r}" using that by blast+
    with rest [of i c] rest1 [of i c] that show ?thesis by simp
  qed
  ultimately show ?thesis using fields unfolding ticked_def by blast
qed

lemma ticked_others:
  assumes "ticked P s s'"
  shows "sy_conn s i = Some c \<Longrightarrow> conn_timer c \<notin> Some ` P \<Longrightarrow> sy_conn s' i = Some c \<and> sy_fin s' i = sy_fin s i"
    and "r \<notin> P \<Longrightarrow> timer_heap (sy_srv s') r = timer_heap (sy_srv s) r"
    and "x \<in> set (srv_tasks (sy_srv s)) \<Longrightarrow> x \<in> set (srv_tasks (sy_srv s'))"
    and "main_loop (sy_srv s') = main_loop (sy_srv s)" and "next_timer (sy_srv s') = next_timer (sy_srv s)"
  using assms unfolding ticked_def by blast+

lemma ticked_heap: "ticked P s s' \<Longrightarrow> heap_ok (sy_srv s) \<Longrightarrow> heap_ok (sy_srv s')"
  by (simp add: ticked_def heap_ok_def)

lemma ticked_owner:
  assumes "ticked P s s'" and "owner_ok s"
  shows "owner_ok s'"
  unfolding owner_ok_def
proof (intro allI impI)
  fix i c' r assume c': "sy_conn s' i = Some c' \<and> conn_timer c' = Some r"
  then obtain c where "sy_conn s i = Some c" "conn_timer c = Some r"
    using assms(1) unfolding ticked_def by metis
  with assms show "r < next_timer (sy_srv s') \<and> tcpConn (timer_heap (sy_srv s') r) = Some i"
    by (simp add: ticked_def owner_ok_def)
qed

lemma handleTimer_result:
  assumes "handleTimer now c io heap = (c', io', heap', added)" and "conn_timer c = Some r"
  shows "io_removals io' = io_removals io \<and> conn_timer c' = conn_timer c \<and>
    (added = [] \<and> heap' = heap \<or> added = [r] \<and> (\<exists>t. heap' = heap(r := restart t (heap r))))"
  using assms by (auto simp: handleTimer_def shutdownWrite_def Let_def split: if_splits)

text \<open>The callback of one timer.\<close>

lemma run_timer_own:
  assumes "tcpConn (timer_heap (sy_srv s) r) = Some i" and "timer_func (timer_heap (sy_srv s) r) = Some i"
    and "sy_conn s i = Some c" and "conn_timer c = Some r"
    and "handleTimer now c (handler_io [] i s) (timer_heap (sy_srv s)) = (c', io', heap', added)"
  shows "sy_srv (run_timer now r s) = (sy_srv s)\<lparr>conns := smap_assign i c' (conns (sy_srv s)), timer_heap := heap',
      srv_tasks := srv_tasks (sy_srv s) @ map (\<lambda>r. (main_loop (sy_srv s), Add_Timer r)) added\<rparr> \<and>
    sy_fin (run_timer now r s) = (sy_fin s)(i := io_fin io')"
proof -
  have "io_removals io' = []" using handleTimer_result [OF assms(5,4)] by simp
  then show ?thesis
    using assms(1-3,5) by (simp add: run_timer_def timer_run_def Let_def put_back_def queue_timers)
qed

lemma ticked_run:
  assumes "heap_ok (sy_srv s)" and "owner_ok s" and "r < next_timer (sy_srv s)"
  shows "ticked {r} s (run_timer now r s)"
proof -
  obtain i where i: "tcpConn (timer_heap (sy_srv s) r) = Some i" "timer_func (timer_heap (sy_srv s) r) = Some i"
    using assms(1,3) unfolding heap_ok_def by blast
  show ?thesis
  proof (cases "sy_conn s i")
    case None
    then have "run_timer now r s = s" using i by (simp add: run_timer_def timer_run_def)
    then show ?thesis by (simp add: ticked_refl)
  next
    case c: (Some c)
    obtain c' io' heap' added where h: "handleTimer now c (handler_io [] i s) (timer_heap (sy_srv s)) =
        (c', io', heap', added)" by (metis prod_cases4)
    show ?thesis
    proof (cases "conn_timer c")
      case None
      then have "sy_srv (run_timer now r s) = (sy_srv s)\<lparr>conns := smap_assign i c (conns (sy_srv s))\<rparr> \<and>
          sy_fin (run_timer now r s) = (sy_fin s)(i := sy_fin s i)"
        using i c by (simp add: run_timer_def timer_run_def handleTimer_def Let_def put_back_def handler_io_def)
      then show ?thesis
        using c by (auto simp: ticked_def pend_def map_of_smap_assign)
    next
      case (Some r')
      then have "r' < next_timer (sy_srv s)" "tcpConn (timer_heap (sy_srv s) r') = Some i"
        using assms(2) c by (simp_all add: owner_ok_def)
      then have "r' = r" using assms(1,3) i(1) unfolding heap_ok_def by metis
      then have t: "conn_timer c = Some r" using Some by simp
      note res = handleTimer_result [OF h t] and run = run_timer_own [OF i c t h]
      have "pend (run_timer now r s) x = pend s x + count_list added x" for x
      proof -
        have "count_list (map snd (map (\<lambda>r. (m, Add_Timer r)) added)) (Add_Timer x) = count_list added x" for m
          by (induction added) auto
        then show ?thesis using run by (simp add: pend_def)
      qed
      moreover have "count_list added x \<le> (if x = r then 1 else 0)" for x using res by auto
      moreover have "tcpConn (heap' x) = tcpConn (timer_heap (sy_srv s) x) \<and>
          timer_func (heap' x) = timer_func (timer_heap (sy_srv s) x) \<and>
          getInterval (heap' x) = getInterval (timer_heap (sy_srv s) x) \<and>
          (x \<noteq> r \<longrightarrow> heap' x = timer_heap (sy_srv s) x)" for x
        using res by (auto simp: restart_def getInterval_def)
      ultimately show ?thesis
        using run res c t by (auto simp: ticked_def map_of_smap_assign main_loop_def)
    qed
  qed
qed

lemma ticked_fold:
  "heap_ok (sy_srv s) \<Longrightarrow> owner_ok s \<Longrightarrow> distinct rs \<Longrightarrow> \<forall>r \<in> set rs. r < next_timer (sy_srv s) \<Longrightarrow>
    ticked (set rs) s (fold (run_timer now) rs s)"
proof (induction rs rule: rev_induct)
  case (snoc r rs)
  then have IH: "ticked (set rs) s (fold (run_timer now) rs s)" by simp
  let ?s = "fold (run_timer now) rs s"
  have "next_timer (sy_srv ?s) = next_timer (sy_srv s)" using IH by (simp add: ticked_def)
  then have "ticked {r} ?s (run_timer now r ?s)"
    using snoc.prems ticked_heap [OF IH] ticked_owner [OF IH] by (intro ticked_run) simp_all
  from ticked_trans [OF IH this] snoc.prems(3) show ?case by simp
qed (simp add: ticked_refl)

text \<open>The timers that are due are run and leave the queue; the others stay.\<close>

abbreviation due :: "timestamp \<Rightarrow> system \<Rightarrow> nat list" where
  "due now s \<equiv> map snd (filter (\<lambda>e. fst e \<le> now) (timers (timerq (sy_srv s))))"

lemma tick_runs:
  assumes "sys_tick now now2 s = Inr s'" and "smap_ok (timers (timerq (sy_srv s)))"
  shows "\<exists>tq. s' = (fold (run_timer now2) (due now s) s)\<lparr>sy_srv :=
      (sy_srv (fold (run_timer now2) (due now s) s))\<lparr>timerq := tq\<rparr>\<rparr> \<and>
    timers tq = filter (\<lambda>e. now < fst e) (timers (timerq (sy_srv s)))"
proof -
  note split = sorted_prefix_filter [OF assms(2), of now]
  from assms(1) show ?thesis
    by (auto simp: sys_tick_def tq_handleRead_def expire_loop_eq split res_simps resetTimerfd_def)
qed

lemma tick_ticked:
  assumes "timers_ok s" and "sys_tick now now2 s = Inr s'"
  shows "\<exists>s1 tq. s1 = fold (run_timer now2) (due now s) s \<and> ticked (set (due now s)) s s1 \<and>
    s' = s1\<lparr>sy_srv := (sy_srv s1)\<lparr>timerq := tq\<rparr>\<rparr> \<and> distinct (due now s) \<and>
    timers tq = filter (\<lambda>e. now < fst e) (timers (timerq (sy_srv s)))"
proof -
  let ?ts = "timers (timerq (sy_srv s))"
  note ok = assms(1) [unfolded timers_ok_def queue_ok_def]
  have "distinct (due now s)" using ok by (simp add: distinct_map_filter)
  moreover have "\<forall>r \<in> set (due now s). r < next_timer (sy_srv s)" using ok by auto
  ultimately have "ticked (set (due now s)) s (fold (run_timer now2) (due now s) s)"
    using ok by (intro ticked_fold) blast+
  with tick_runs [OF assms(2)] ok \<open>distinct (due now s)\<close> show ?thesis by blast
qed

lemma timers_ok_tick:
  assumes "timers_ok s" and "sys_tick now now2 s = Inr s'"
  shows "timers_ok s'"
proof -
  let ?ts = "timers (timerq (sy_srv s))"
  obtain s1 tq where s': "s' = s1\<lparr>sy_srv := (sy_srv s1)\<lparr>timerq := tq\<rparr>\<rparr>" "timers tq = filter (\<lambda>e. now < fst e) ?ts"
    and t: "ticked (set (due now s)) s s1"
    using tick_ticked [OF assms] by blast
  note ok = assms(1) [unfolded timers_ok_def] and t' = t [unfolded ticked_def]
  have pend: "pend s' x = pend s1 x" for x by (simp add: pend_def s'(1))
  have moved: "pend s1 x \<le> pend s x + (if x \<in> set (due now s) then 1 else 0)"
      "x \<notin> set (due now s) \<Longrightarrow> timer_heap (sy_srv s1) x = timer_heap (sy_srv s) x" for x
    using t' by blast+
  have q: "smap_ok ?ts" "distinct (map snd ?ts)" "\<And>x. pend s x \<le> 1" "\<And>x. 0 < pend s x \<Longrightarrow> x < next_timer (sy_srv s)"
    and entry: "\<And>t x. (t, x) \<in> set ?ts \<Longrightarrow>
      expiration (timer_heap (sy_srv s) x) = t \<and> x < next_timer (sy_srv s) \<and> pend s x = 0"
    using ok by (auto simp: queue_ok_def)
  have n: "next_timer (sy_srv s1) = next_timer (sy_srv s)" using t' by blast
  have "expiration (timer_heap (sy_srv s1) x) = t \<and> x < next_timer (sy_srv s1) \<and> pend s1 x = 0"
    if e: "(t, x) \<in> set ?ts" "now < t" for t x
  proof -
    have "x \<notin> set (due now s)"
    proof
      assume "x \<in> set (due now s)"
      then obtain t2 where t2: "(t2, x) \<in> set ?ts" "t2 \<le> now" by auto
      from entry [OF t2(1)] entry [OF e(1)] t2(2) e(2) show False by auto
    qed
    with moved [of x] entry [OF e(1)] show ?thesis by (simp add: n)
  qed
  moreover have "pend s1 x \<le> 1 \<and> (0 < pend s1 x \<longrightarrow> x < next_timer (sy_srv s1))" for x
  proof (cases "x \<in> set (due now s)")
    case True
    then have "pend s x = 0 \<and> x < next_timer (sy_srv s)" using entry by auto
    with moved(1) [of x] show ?thesis by (simp add: n split: if_splits)
  next
    case False
    with moved(1) [of x] q(3,4) [of x] show ?thesis by (auto simp: n)
  qed
  moreover have "smap_ok (timers tq)" "distinct (map snd (timers tq))"
    using q(1,2) by (auto simp: s'(2) smap_ok_def distinct_map_filter sorted_wrt_map intro: sorted_wrt_filter)
  ultimately have "queue_ok s' (timers tq)"
    unfolding queue_ok_def pend by (auto simp: s')
  moreover have "heap_ok (sy_srv s')" using ticked_heap [OF t] ok by (simp add: s'(1) heap_ok_def)
  moreover have "owner_ok s'" using ticked_owner [OF t] ok by (simp add: s'(1) owner_ok_def)
  ultimately show ?thesis by (simp add: timers_ok_def s'(1))
qed

subsection \<open>Every run\<close>

lemma timers_ok_step:
  assumes "sys_step env s s'" and "sys_ok s \<and> timers_ok s"
  shows "sys_ok s' \<and> timers_ok s'"
proof -
  have "timers_ok s'"
    using assms
  proof (induction rule: sys_step.induct)
    case (task l s t s')
    show ?case
    proof (cases "\<exists>r. t = Add_Timer r")
      case True
      then show ?thesis using task timers_ok_enter [of s l] by (auto simp: take_task_def)
    next
      case False
      then have *: "timers_ok (take_task l t s)"
        using task timers_ok_same same_timers_take [OF task(1)] by blast
      with task(2) False show ?thesis
        by (cases t) (auto intro: timers_ok_remove timers_ok_same same_timers_establish)
    qed
  qed (auto intro: timers_ok_accept timers_ok_tick timers_ok_same same_timers_read same_timers_write)
  with sys_ok_step [OF assms(1)] assms(2) show ?thesis by blast
qed

interpretation timed_runs: step_invariant "sys_step env" "\<lambda>s. sys_ok s \<and> timers_ok s" for env
  by unfold_locales (rule timers_ok_step)

lemma timers_ok_new:
  assumes "new_server fds True True p tq mode hold spare = Inr srv" and "timers tq = []"
  shows "timers_ok (new_system lfs srv us pl)"
  using assms by (auto simp: new_server_def new_system_def timers_ok_def heap_ok_def owner_ok_def queue_ok_def
    pend_def smap_ok_def)

text \<open>What a tick does to a connection whose timer is due.\<close>

lemma tick_own:
  assumes "timers_ok s" and "sys_tick now now2 s = Inr s'" and "sy_conn s i = Some c" and "conn_timer c = Some r"
    and "r \<in> set (due now s)"
    and "handleTimer now2 c (handler_io [] i s) (timer_heap (sy_srv s)) = (c', io', heap', added)"
  shows "sy_conn s' i = Some c' \<and> sy_fin s' i = io_fin io' \<and> timer_heap (sy_srv s') r = heap' r \<and>
    (\<forall>x \<in> set added. (main_loop (sy_srv s), Add_Timer x) \<in> set (srv_tasks (sy_srv s')))"
proof -
  obtain s3 tq where s3: "s3 = fold (run_timer now2) (due now s) s" "s' = s3\<lparr>sy_srv := (sy_srv s3)\<lparr>timerq := tq\<rparr>\<rparr>"
      "distinct (due now s)"
    using tick_ticked [OF assms(1,2)] by blast
  obtain rs1 rs2 where rs: "due now s = rs1 @ r # rs2" using split_list [OF assms(5)] by blast
  let ?s1 = "fold (run_timer now2) rs1 s"
  let ?s2 = "run_timer now2 r ?s1"
  note ok = assms(1) [unfolded timers_ok_def]
  have lt: "\<forall>x \<in> set (due now s). x < next_timer (sy_srv s)"
    using assms(1) by (auto simp: timers_ok_def queue_ok_def)
  have t1: "ticked (set rs1) s ?s1"
    using ok lt s3(3) rs by (intro ticked_fold) simp_all
  have r: "r \<notin> set rs1" "conn_timer c \<notin> Some ` set rs1" "conn_timer c \<notin> Some ` set rs2"
    using s3(3) rs assms(4) by auto
  have one: "sy_conn ?s1 i = Some c" "sy_fin ?s1 i = sy_fin s i" "main_loop (sy_srv ?s1) = main_loop (sy_srv s)"
      "timer_heap (sy_srv ?s1) r = timer_heap (sy_srv s) r"
    using ticked_others [OF t1] assms(3) r by simp_all
  obtain d io1 heap1 added1 where run: "handleTimer now2 c (handler_io [] i ?s1) (timer_heap (sy_srv ?s1)) =
      (d, io1, heap1, added1)" by (metis prod_cases4)
  have same: "d = c'" "io_fin io1 = io_fin io'" "heap1 r = heap' r" "added1 = added"
    using run assms(4,6) one(2,4)
    by (auto simp: handleTimer_def Let_def shutdownWrite_def handler_io_def split: if_splits)
  have i: "tcpConn (timer_heap (sy_srv s) r) = Some i" "r < next_timer (sy_srv s)"
    using ok assms(3,4) by (simp_all add: owner_ok_def)
  then have "timer_func (timer_heap (sy_srv s) r) = Some i"
    using ok unfolding heap_ok_def by fastforce
  then have two: "sy_conn ?s2 i = Some c'" "sy_fin ?s2 i = io_fin io'" "timer_heap (sy_srv ?s2) r = heap' r"
      "\<forall>x \<in> set added. (main_loop (sy_srv s), Add_Timer x) \<in> set (srv_tasks (sy_srv ?s2))"
      "conn_timer c' = conn_timer c"
    using run_timer_own [OF _ _ one(1) assms(4) run] one(3,4) i(1) same handleTimer_result [OF assms(6,4)]
    by (auto simp: map_of_smap_assign)
  have "ticked {r} ?s1 ?s2"
    using ticked_heap [OF t1] ticked_owner [OF t1] ok i(2) ticked_others(5) [OF t1] by (intro ticked_run) simp_all
  from ticked_trans [OF t1 this r(1)] have t2: "ticked (insert r (set rs1)) s ?s2" .
  have "ticked (set rs2) ?s2 (fold (run_timer now2) rs2 ?s2)"
    using ticked_heap [OF t2] ticked_owner [OF t2] ok lt s3(3) rs ticked_others(5) [OF t2] by (intro ticked_fold) simp_all
  then have t3: "ticked (set rs2) ?s2 s3" by (simp add: s3(1) rs)
  have "r \<notin> set rs2" using s3(3) rs by simp
  then have "timer_heap (sy_srv s3) r = heap' r" "sy_conn s3 i = Some c' \<and> sy_fin s3 i = io_fin io'"
    using ticked_others(1,2) [OF t3] two(1-3,5) r(3) by simp_all
  with two(4) ticked_others(3) [OF t3] show ?thesis by (simp add: s3(2))
qed


text \<open>A connection whose timer has been queued and that has sent the first byte of a request.\<close>

definition demo_timed :: "system result" where
  "demo_timed = res_bind demo_registered (\<lambda>s. sys_task (Add_Timer 0) (take_task 9 (Add_Timer 0) s))"

definition demo_waiting :: "system result" where
  "demo_waiting = res_bind demo_timed (sys_read demo_env (Timestamp 6) [Data ''G''] [] 0)"

lemma demo_waiting_state:
  "\<exists>s c. demo_waiting = Inr s \<and> (sys_step demo_env)\<^sup>*\<^sup>* (new_system demo_fds demo_server [] (new_pool 0)) s \<and>
     sy_conn s 0 = Some c \<and> conn_timer c = Some 0 \<and> timers (timerq (sy_srv s)) = [(Timestamp 10000005, 0)] \<and>
     visited c = Timestamp 6 \<and> conn_hold_seconds (sy_srv s) = 10 \<and> readableBytes (writeBuffer c) = 0 \<and>
     (\<exists>s1. sys_tick (Timestamp 10000005) (Timestamp 10000005) s = Inr s1) \<and>
     (\<exists>s2. sys_tick (Timestamp 10000006) (Timestamp 10000006) s = Inr s2)"
proof -
  let ?s0 = "new_system demo_fds demo_server [] (new_pool 0)"
  have "res_map (next_task 9) demo_accepted = Inr (Some (Establish 0))" by code_simp
  then obtain s1 where s1: "demo_accepted = Inr s1" "next_task 9 s1 = Some (Establish 0)"
    unfolding res_simps by blast
  have "res_map (next_task 9) demo_registered = Inr (Some (Add_Timer 0))" by code_simp
  then obtain s2 where s2: "demo_registered = Inr s2" "next_task 9 s2 = Some (Add_Timer 0)"
    unfolding res_simps by blast
  have "res_map (\<lambda>s. conn_event s 0 EPOLLIN Call_Read) demo_timed = Inr True" by code_simp
  then obtain s3 where s3: "demo_timed = Inr s3" "conn_event s3 0 EPOLLIN Call_Read"
    unfolding res_simps by blast
  have "res_map (\<lambda>s. (map_option (\<lambda>c. (conn_timer c, visited c, readableBytes (writeBuffer c))) (sy_conn s 0),
      timers (timerq (sy_srv s)), conn_hold_seconds (sy_srv s),
      res_map (\<lambda>s. 0 :: nat) (sys_tick (Timestamp 10000005) (Timestamp 10000005) s),
      res_map (\<lambda>s. 0 :: nat) (sys_tick (Timestamp 10000006) (Timestamp 10000006) s))) demo_waiting =
      Inr (Some (Some 0, Timestamp 6, 0), [(Timestamp 10000005, 0)], 10, Inr 0, Inr 0)"
    by code_simp
  then obtain s c where s: "demo_waiting = Inr s" "sy_conn s 0 = Some c" "conn_timer c = Some 0" "visited c = Timestamp 6"
      "readableBytes (writeBuffer c) = 0" "timers (timerq (sy_srv s)) = [(Timestamp 10000005, 0)]"
      "conn_hold_seconds (sy_srv s) = 10"
      "\<exists>s1. sys_tick (Timestamp 10000005) (Timestamp 10000005) s = Inr s1"
      "\<exists>s2. sys_tick (Timestamp 10000006) (Timestamp 10000006) s = Inr s2"
    by (auto simp: res_simps)
  have "sys_step demo_env ?s0 s1"
    using demo_listens s1(1) unfolding demo_accepted_def by (intro sys_step.accept)
  moreover have "sys_step demo_env s1 s2"
    using s1(2) s2(1) by (intro sys_step.task [where l = 9 and t = "Establish 0"]) (simp_all add: demo_registered_def s1(1))
  moreover have "sys_step demo_env s2 s3"
    using s2(2) s3(1) by (intro sys_step.task [where l = 9 and t = "Add_Timer 0"]) (simp_all add: demo_timed_def s2(1))
  moreover have "sys_step demo_env s3 s"
    using s3(2) s(1) by (intro sys_step.readable) (simp_all add: demo_waiting_def s3(1))
  ultimately have "(sys_step demo_env)\<^sup>*\<^sup>* ?s0 s"
    by (meson converse_rtranclp_into_rtranclp rtranclp.rtrancl_refl)
  with s show ?thesis by blast
qed


end
