(* ===== verification/SystemSession.thy ===== *)
theory SystemSession
  imports SystemTypes
begin

text \<open>
  Sessions in the running server of theory \<open>Reactor\<close>: connections do not disturb each other, so
  the session of theory \<open>HttpSession\<close> goes on in the same way while the server accepts other
  connections, runs tasks and serves other clients between any two reads.
\<close>

subsection \<open>Isolation\<close>

text \<open>Nothing that belongs to connection \<open>i\<close> has changed, and the poller still watches it the same.\<close>

definition untouched :: "int \<Rightarrow> system \<Rightarrow> system \<Rightarrow> bool" where
  "untouched i s s' \<longleftrightarrow> sy_conn s' i = sy_conn s i \<and> sy_home s' i = sy_home s i \<and>
     sy_sent s' i = sy_sent s i \<and> sy_fin s' i = sy_fin s i \<and>
     (\<forall>c. sy_conn s i = Some c \<longrightarrow> watching (sy_poll s' (sy_home s i)) (conn_fd c) =
       watching (sy_poll s (sy_home s i)) (conn_fd c))"

lemma untouched_take [simp]: "untouched i (take_task l t s) s' = untouched i s s'"
  by (simp add: untouched_def take_task_def)

lemma untouched_put_back:
  assumes "sys_ok s" and "sy_conn s k = Some d" and "i \<noteq> k"
    and "\<And>fd. fd \<noteq> conn_fd d \<Longrightarrow> watching (io_poll io') fd = watching (sy_poll s (sy_home s k)) fd"
  shows "untouched i s (put_back k d' io' s)"
proof -
  have "conn_fd c \<noteq> conn_fd d" if "sy_conn s i = Some c" for c
    using assms(1-3) that by (auto simp: sys_ok_def fds_ok_def)
  with assms(3,4) show ?thesis
    by (auto simp: untouched_def put_back_def map_of_smap_assign)
qed

lemma read_outcome_others:
  assumes "read_outcome c io c' io'" and "registered c io" and "fd \<noteq> chan_fd (conn_channel c)"
  shows "watching (io_poll io') fd = watching (io_poll io) fd"
proof (cases "keeps c io c' io'")
  case True
  with assms(2,3) show ?thesis by (simp add: keeps_def)
next
  case False
  then obtain c1 where k: "keeps c io c1 io" and cl: "handleClose c1 io = (c', io')"
    using assms(1) unfolding read_outcome_def by fastforce
  have reg: "registered c1 io" and fd: "chan_fd (conn_channel c1) = chan_fd (conn_channel c)"
    using k assms(2) by (simp_all add: keeps_def)
  obtain ch ep where off: "disableAll (conn_channel c1) (io_poll io) = (ch, ep)" by fastforce
  then have "io_poll io' = ep" using cl by (auto simp: handleClose_def on_channel_def)
  moreover have "watching ep = (watching (io_poll io))(chan_fd (conn_channel c1) := None)"
    using disableAll_unregisters [OF _ _ registered_added [OF reg] off] reg by (simp add: registered_def)
  ultimately show ?thesis using assms(3) fd by simp
qed

lemma untouched_read:
  assumes "sys_ok s" and "conn_event s k revents d" and "sys_read env now reads writes k s = Inr s'" and "i \<noteq> k"
  shows "untouched i s s'"
proof -
  obtain c where c: "sy_conn s k = Some c" "conn_ok k c" "registered c (handler_io writes k s)"
    using conn_event_registered [OF assms(1,2)] by metis
  obtain c' io' where h: "handleRead (onMessage env) now reads c (handler_io writes k s) = Inr (c', io')"
      "s' = put_back k c' io' s"
    using assms(3) c(1) by (auto simp: sys_read_def on_conn_def res_simps)
  have "read_outcome c (handler_io writes k s) c' io'"
    using h(1) by (rule handleRead_outcome) (rule keeps_onMessage)
  from read_outcome_others [OF this c(3)] c(2) show ?thesis
    unfolding h(2) by (intro untouched_put_back [OF assms(1) c(1) assms(4)]) (simp add: conn_ok_def)
qed

lemma untouched_write:
  assumes "sys_ok s" and "conn_event s k revents d" and "sys_write_event writes k s = Inr s'" and "i \<noteq> k"
  shows "untouched i s s'"
proof -
  obtain c where c: "sy_conn s k = Some c" "conn_ok k c" "registered c (handler_io writes k s)"
    using conn_event_registered [OF assms(1,2)] by metis
  obtain c' io' where h: "handleWrite c (handler_io writes k s) = Inr (c', io')" "s' = put_back k c' io' s"
    using assms(3) c(1) by (auto simp: sys_write_event_def on_conn_def res_simps)
  from keeps_handleWrite [OF h(1)] c(2,3) show ?thesis
    unfolding h(2) by (intro untouched_put_back [OF assms(1) c(1) assms(4)]) (simp add: conn_ok_def keeps_def)
qed

lemma untouched_task:
  assumes "sys_ok s" and "next_task l s = Some t" and "sys_task t (take_task l t s) = Inr s'"
    and "t \<noteq> Establish i" and "t \<noteq> Remove i"
  shows "untouched i s s'"
proof (cases t)
  case (Establish k)
  obtain c where c: "sy_conn s k = Some c" "chan_index (conn_channel c) = kNew"
    using task_state(1) [OF assms(1,2) Establish] by (auto simp: in_state_def)
  let ?io = "handler_io [] k s"
  obtain c' io' where e: "connectEstablished c ?io = (c', io')" by fastforce
  then have s': "s' = put_back k c' io' (take_task l t s)"
    using assms(3) c(1) by (auto simp: Establish sys_establish_def on_conn_def)
  have ok: "conn_ok k c" and polls: "polls_ok (sy_conn s) (sy_home s) (sy_poll s) (own_watch \<circ> sy_own s)"
    using assms(1) c(1) by (auto simp: sys_ok_def)
  then have "settled c ?io c' io'"
    using c(1) e by (intro settled_connectEstablished) (auto simp: polls_ok_def)
  then have "untouched i s (put_back k c' io' s)"
    using ok assms(4) Establish
    by (intro untouched_put_back [OF assms(1) c(1)]) (auto simp: settled_def conn_ok_def)
  then show ?thesis
    using assms(4) Establish
    by (simp add: s' untouched_def put_back_def map_of_smap_assign, simp add: take_task_def)
next
  case (Remove k)
  then obtain c c' srv where "removeConnectionInLoop c (sy_srv (take_task l t s)) = Inr (c', srv)"
      "sy_conn s k = Some c" and s': "sy_srv s' = srv" "sy_home s' = sy_home s" "sy_sent s' = sy_sent s"
      "sy_fin s' = sy_fin s" "sy_poll s' = sy_poll s"
    using assms(3) by (auto simp: sys_remove_def take_task_def res_simps split: option.splits)
  moreover from this have "connID c = k" using assms(1) by (auto simp: sys_ok_def conn_ok_def)
  ultimately have "conns srv = smap_erase k (conns (sy_srv s))"
    using removal_fields by (fastforce simp: take_task_def)
  then show ?thesis using assms(5) Remove by (auto simp: untouched_def s' map_of_smap_erase)
next
  case (Add_Timer r)
  with assms(3) show ?thesis by (auto simp: untouched_def run_add_timer_def take_task_def)
qed

lemma untouched_accept:
  assumes "sys_ok s" and "sys_accept now fd second reopened s = Inr s'" and "sy_conn s i \<noteq> None"
  shows "untouched i s s'"
proof (cases "fd \<ge> 0")
  case False
  then show ?thesis
    using assms(2) by (auto simp: sys_accept_def newConnection_def untouched_def)
next
  case True
  let ?id = "nextConnId (sy_srv s)"
  obtain srv where acc: "accepted onConnection None now fd (sy_srv s) = Inr srv"
      "s' = s\<lparr>sy_srv := srv, sy_home := (sy_home s)(?id := the (fst (getNextLoop (srv_pool (sy_srv s))))),
        sy_sent := (sy_sent s)(?id := []), sy_fin := (sy_fin s)(?id := False),
        sy_accepted := sy_accepted s @ [(?id, fd)]\<rparr>"
    using assms(2) True by (auto simp: sys_accept_def newConnection_def res_simps Let_def)
  obtain d where "conns srv = smap_assign ?id d (conns (sy_srv s))"
    using accepted_conn [OF acc(1)] by blast
  moreover have "i \<noteq> ?id" using assms(1,3) by (auto simp: sys_ok_def)
  ultimately show ?thesis by (simp add: untouched_def acc(2) map_of_smap_assign)
qed

text \<open>
  C21: connections do not disturb each other. Whenever the server accepts a connection, runs a
  task for another connection, or handles an event of another connection, whatever is read
  and written there, connection \<open>i\<close> keeps its buffers, its parsing state and its other fields, what
  has been sent on it, and its registration in the poller of its loop.
\<close>

theorem system_isolation:
  assumes "new_server fds True True p tq mode hold spare = Inr srv" and "own_fds_ok lfs p"
    and "(sys_step env)\<^sup>*\<^sup>* (new_system lfs srv us pl) s" and "sy_conn s i = Some c"
    and "sys_accept now fd second reopened s = Inr s' \<or>
      (\<exists>l t. next_task l s = Some t \<and> t \<noteq> Establish i \<and> t \<noteq> Remove i \<and> sys_task t (take_task l t s) = Inr s') \<or>
      (\<exists>k revents reads writes. k \<noteq> i \<and> conn_event s k revents Call_Read \<and>
        sys_read env now reads writes k s = Inr s') \<or>
      (\<exists>k revents writes. k \<noteq> i \<and> conn_event s k revents Call_Write \<and> sys_write_event writes k s = Inr s')"
  shows "sy_conn s' i = Some c \<and> sy_home s' i = sy_home s i \<and> sy_sent s' i = sy_sent s i \<and>
    sy_fin s' i = sy_fin s i \<and>
    watching (sy_poll s' (sy_home s i)) (conn_fd c) = watching (sy_poll s (sy_home s i)) (conn_fd c)"
proof -
  have ok: "sys_ok s" by (rule sys_runs.run [OF assms(3) sys_ok_new [OF assms(1,2)]])
  have "untouched i s s'"
    using assms(5)
  proof (elim disjE exE conjE)
    assume "sys_accept now fd second reopened s = Inr s'"
    with ok show ?thesis by (rule untouched_accept) (simp add: assms(4))
  qed (blast intro: untouched_task [OF ok] untouched_read [OF ok] untouched_write [OF ok])+
  with assms(4) show ?thesis by (simp add: untouched_def)
qed

subsection \<open>A session\<close>

text \<open>A connection between two requests: no request begun, and nothing unsent.\<close>

definition at_rest :: "http_connection \<Rightarrow> bool" where
  "at_rest c \<longleftrightarrow> conn_context c = Some new_context \<and> readableBytes (writeBuffer c) = 0 \<and>
     writeIndex (readBuffer c) = 0"

text \<open>A connection inside a request, of which \<open>t\<close> has not arrived yet.\<close>

definition in_exchange :: "http_env \<Rightarrow> int \<Rightarrow> exchange \<Rightarrow> string \<Rightarrow> http_connection \<Rightarrow> bool" where
  "in_exchange env room e t c \<longleftrightarrow> exchange_ok env room e \<and> \<not> wants_close (ex_request e) \<and>
     buf_size (readBuffer c) = room \<and> readableBytes (writeBuffer c) = 0 \<and>
     writeIndex (readBuffer c) + int (length t) < room \<and>
     (\<exists>ctx. conn_context c = Some ctx \<and> mid_request ctx (contents (readBuffer c) @ t) \<and>
       spec_parse ctx (contents (readBuffer c) @ t) True =
         Inr (True, \<lparr>ctx_request = ex_request e, parseState = kGotAll\<rparr>, []))"

lemma in_exchange_start:
  assumes "at_rest c" and "http_typed c" and "exchange_ok env (buf_size (readBuffer c)) e"
    and "\<not> wants_close (ex_request e)"
  shows "in_exchange env (buf_size (readBuffer c)) e (ex_text e) c"
proof -
  have "buf_ok (readBuffer c)" using assms(2) by (simp add: http_typed_def conn_typed_def buf_typed_def)
  then have "contents (readBuffer c) = []"
    using assms(1) by (auto simp: contents_Nil_iff buf_empty_def buf_ok_def at_rest_def)
  then show ?thesis
    using assms(1,3,4) exchange_parses [OF assms(3)] by (simp add: in_exchange_def at_rest_def exchange_ok_def)
qed

text \<open>A read that does not complete the request, and one that does.\<close>

lemma in_exchange_part:
  assumes "in_exchange env room e (d @ t) c" and "http_typed c" and "d \<noteq> []" and "t \<noteq> []"
  shows "\<exists>c1. handleRead (onMessage env) now [Data d] c io = Inr (c1, io) \<and> in_exchange env room e t c1 \<and>
    conn_channel c1 = conn_channel c"
proof -
  note mid = assms(1) [unfolded in_exchange_def]
  have typed: "conn_mode c = 1" "buf_ok (readBuffer c)"
    using assms(2) by (simp_all add: http_typed_def conn_typed_def buf_typed_def)
  let ?fin = "\<lparr>ctx_request = ex_request e, parseState = kGotAll\<rparr>"
  obtain ctx where ctx: "conn_context c = Some ctx" "mid_request ctx (contents (readBuffer c) @ d @ t)"
      "spec_parse ctx (contents (readBuffer c) @ d @ t) True = Inr (True, ?fin, [])"
    using mid by blast
  obtain c1 u where part: "spec_parse ctx (contents (readBuffer c) @ d) True = Inr (True, c1, u)"
      "\<not> gotAll c1" "mid_request c1 (u @ t)" "spec_parse c1 (u @ t) True = Inr (True, ?fin, [])"
    using mid_request_piece [of ctx "contents (readBuffer c) @ d" t ?fin] ctx(2,3) assms(4) by auto
  obtain b where b: "handleRead (onMessage env) now [Data d] c io =
        Inr (c\<lparr>visited := now, readBuffer := b, conn_context := Some c1\<rparr>, io)" "buf_ok b"
      "contents b = u" "writeIndex b \<le> writeIndex (readBuffer c) + int (length d)"
      "buf_size b = buf_size (readBuffer c)"
    using feed_part [OF typed(1) ctx(1) typed(2) assms(3) _ part(1,2), of env now io] mid by auto
  then show ?thesis using part mid by (auto simp: in_exchange_def)
qed

lemma in_exchange_last:
  assumes "in_exchange env room e d c" and "http_typed c" and "d \<noteq> []" and "io_writes io = [Wrote n]"
    and "length (concat (response_parts (ex_reply e))) \<le> n"
  shows "\<exists>c1. handleRead (onMessage env) now [Data d] c io =
      Inr (c1, io\<lparr>io_writes := [], io_sent := io_sent io @ concat (response_parts (ex_reply e))\<rparr>) \<and>
    at_rest c1 \<and> buf_size (readBuffer c1) = room \<and> conn_channel c1 = conn_channel c"
proof -
  note mid = assms(1) [unfolded in_exchange_def]
  have typed: "conn_mode c = 1" "buf_ok (readBuffer c)"
    using assms(2) by (simp_all add: http_typed_def conn_typed_def buf_typed_def)
  let ?fin = "\<lparr>ctx_request = ex_request e, parseState = kGotAll\<rparr>"
  obtain ctx where ctx: "conn_context c = Some ctx"
      "spec_parse ctx (contents (readBuffer c) @ d) True = Inr (True, ?fin, [])"
    using mid by blast
  obtain b where b: "handleRead (onMessage env) now [Data d] c io =
        res_bind (onRequest env (ctx_request ?fin)
            (c\<lparr>visited := now, readBuffer := b, conn_context := Some ?fin\<rparr>) io)
          (\<lambda>(c3, io3). Inr (c3\<lparr>conn_context := Some (ctx_reset ?fin)\<rparr>, io3))"
      "writeIndex b = 0" "buf_size b = buf_size (readBuffer c)"
    using feed_last [OF typed(1) ctx(1) typed(2) assms(3) _ ctx(2), of env now io] mid by (auto simp: gotAll_def)
  let ?c = "c\<lparr>visited := now, readBuffer := b, conn_context := Some ?fin\<rparr>"
  have "onRequest env (ex_request e) ?c io =
      Inr (?c, io\<lparr>io_writes := [], io_sent := io_sent io @ concat (response_parts (ex_reply e))\<rparr>)"
    using mid file_response_length [of "concat (ex_file e)" False] assms(4,5)
    by (intro onRequest_whole [OF exchange_page [of env room] _ _ _ assms(4)])
      (simp_all add: ex_reply_def exchange_ok_def)
  then show ?thesis using b mid by (simp add: ctx_reset_new at_rest_def)
qed

text \<open>
  A run of the system in which connection \<open>i\<close> gets the given reads, in order, while the socket takes
  at least \<open>m\<close> bytes at once; between the reads anything happens that leaves the connection alone.
\<close>

inductive served :: "http_env \<Rightarrow> int \<Rightarrow> nat \<Rightarrow> (timestamp \<times> string) list \<Rightarrow> system \<Rightarrow> system \<Rightarrow> bool"
  for env i m where
  over: "served env i m [] s s"
| other: "sys_step env s s1 \<Longrightarrow> untouched i s s1 \<Longrightarrow> served env i m reads s1 s' \<Longrightarrow> served env i m reads s s'"
| read: "conn_event s i revents Call_Read \<Longrightarrow> m \<le> n \<Longrightarrow> sys_read env now [Data d] [Wrote n] i s = Inr s1 \<Longrightarrow>
    served env i m reads s1 s' \<Longrightarrow> served env i m ((now, d) # reads) s s'"

text \<open>Where a session stands: which requests are to come, and what is left of the current one.\<close>

fun stands :: "http_env \<Rightarrow> int \<Rightarrow> exchange list \<Rightarrow> (timestamp \<times> string) list \<Rightarrow> http_connection \<Rightarrow> bool" where
  "stands env room [] reads c \<longleftrightarrow> reads = [] \<and> at_rest c \<and> buf_size (readBuffer c) = room"
| "stands env room (e # es) reads c \<longleftrightarrow> (\<exists>rs. reads = rs @ concat (map ex_reads es) \<and> rs \<noteq> [] \<and>
     [] \<notin> snd ` set rs \<and> in_exchange env room e (concat (map snd rs)) c) \<and>
     (\<forall>e \<in> set es. exchange_ok env room e \<and> \<not> wants_close (ex_request e))"

lemma stands_start:
  assumes "at_rest c" and "http_typed c"
    and "\<forall>e \<in> set es. exchange_ok env (buf_size (readBuffer c)) e \<and> \<not> wants_close (ex_request e)"
  shows "stands env (buf_size (readBuffer c)) es (concat (map ex_reads es)) c"
proof (cases es)
  case (Cons e es')
  then have e: "exchange_ok env (buf_size (readBuffer c)) e" using assms(3) by simp
  have "ex_reads e \<noteq> []" "[] \<notin> snd ` set (ex_reads e)" "concat (map snd (ex_reads e)) = ex_text e"
    using exchange_parses(3) [OF e] e by (auto simp: exchange_ok_def)
  with Cons assms in_exchange_start [OF assms(1,2) e] show ?thesis
    by (auto intro!: exI [of _ "ex_reads e"])
qed (use assms(1) in simp)

lemma put_back_own:
  assumes "io_removals io' = []"
  shows "sy_conn (put_back i c' io' s) i = Some c' \<and> sy_sent (put_back i c' io' s) i = io_sent io' \<and>
    sy_fin (put_back i c' io' s) i = io_fin io'"
  using assms by (simp add: put_back_def map_of_smap_assign)

abbreviation reply_text :: "exchange \<Rightarrow> string" where
  "reply_text e \<equiv> concat (response_parts (ex_reply e))"

text \<open>One read of the session.\<close>

lemma stands_read:
  assumes "stands env room es ((now, d) # reads) c" and "http_typed c" and "sy_conn s i = Some c"
    and "\<forall>e \<in> set es. length (reply_text e) \<le> n"
  shows "\<exists>s1 c1 es1 out. sys_read env now [Data d] [Wrote n] i s = Inr s1 \<and> sy_conn s1 i = Some c1 \<and>
    sy_sent s1 i = sy_sent s i @ out \<and> sy_fin s1 i = sy_fin s i \<and>
    concat (map reply_text es) = out @ concat (map reply_text es1) \<and> set es1 \<subseteq> set es \<and>
    (http_typed c1 \<longrightarrow> stands env room es1 reads c1) \<and> conn_channel c1 = conn_channel c"
proof -
  obtain e es' where es: "es = e # es'" using assms(1) by (cases es) auto
  then obtain rs where rs: "(now, d) # reads = rs @ concat (map ex_reads es')" "rs \<noteq> []" "[] \<notin> snd ` set rs"
      "in_exchange env room e (concat (map snd rs)) c"
    and later: "\<forall>e \<in> set es'. exchange_ok env room e \<and> \<not> wants_close (ex_request e)"
    using assms(1) by auto
  obtain rs' where rs': "rs = (now, d) # rs'" "reads = rs' @ concat (map ex_reads es')"
    using rs(1,2) by (cases rs) auto
  have d: "d \<noteq> []" using rs(3) rs'(1) by auto
  let ?io = "handler_io [Wrote n] i s"
  have io: "io_sent ?io = sy_sent s i" "io_fin ?io = sy_fin s i" "io_writes ?io = [Wrote n]" "io_removals ?io = []"
    by (simp_all add: handler_io_def)
  have run: "sys_read env now [Data d] [Wrote n] i s = Inr (put_back i c1 io1 s)"
    if "handleRead (onMessage env) now [Data d] c ?io = Inr (c1, io1)" for c1 io1
    using that assms(3) by (simp add: sys_read_def on_conn_def)
  show ?thesis
  proof (cases "rs' = []")
    case True
    then have "in_exchange env room e d c" using rs(4) rs'(1) by simp
    from in_exchange_last [OF this assms(2) d io(3)] assms(4) es obtain c1 where
      c1: "handleRead (onMessage env) now [Data d] c ?io =
          Inr (c1, ?io\<lparr>io_writes := [], io_sent := io_sent ?io @ reply_text e\<rparr>)"
        "at_rest c1" "buf_size (readBuffer c1) = room" "conn_channel c1 = conn_channel c" by auto
    have "stands env room es' reads c1" if "http_typed c1"
      using stands_start [OF c1(2) that, of es' env] later rs'(2) True by (simp add: c1(3))
    with run [OF c1(1)] put_back_own [of "?io\<lparr>io_writes := [], io_sent := io_sent ?io @ reply_text e\<rparr>" i c1 s] io es c1(4)
    show ?thesis by (intro exI [of _ c1] exI [of _ es'] exI [of _ "reply_text e"] exI) auto
  next
    case False
    then obtain r where "r \<in> set rs'" by (cases rs') auto
    moreover from this have "snd r \<noteq> []" using rs(3) rs'(1) by force
    ultimately have t: "concat (map snd rs') \<noteq> []" by auto
    have "in_exchange env room e (d @ concat (map snd rs')) c" using rs(4) rs'(1) by simp
    from in_exchange_part [OF this assms(2) d t] obtain c1 where
      c1: "handleRead (onMessage env) now [Data d] c ?io = Inr (c1, ?io)"
        "in_exchange env room e (concat (map snd rs')) c1" "conn_channel c1 = conn_channel c" by blast
    have "stands env room es reads c1"
      using c1(2) later rs(3) rs' False by (auto simp: es)
    with run [OF c1(1)] put_back_own [of ?io i c1 s] io c1(3) show ?thesis
      by (intro exI [of _ c1] exI [of _ es] exI [of _ "[]"] exI) auto
  qed
qed

lemma served_session:
  assumes "served env i m reads s s'" and "sys_ok s" and "sys_typed s" and "sy_conn s i = Some c"
    and "stands env room es reads c" and "\<forall>e \<in> set es. length (reply_text e) \<le> m"
  shows "\<exists>c'. sy_conn s' i = Some c' \<and> at_rest c' \<and> buf_size (readBuffer c') = room \<and>
    sy_sent s' i = sy_sent s i @ concat (map reply_text es) \<and> sy_fin s' i = sy_fin s i"
  using assms
proof (induction arbitrary: c es rule: served.induct)
  case (over s)
  then have "es = []" by (cases es) auto
  with over show ?case by simp
next
  case (other s s1 reads s')
  have "sy_conn s1 i = Some c" "sy_sent s1 i = sy_sent s i" "sy_fin s1 i = sy_fin s i"
    using other.hyps(2) other.prems(3) by (simp_all add: untouched_def)
  with other.IH [of c es] other.prems sys_ok_step [OF other.hyps(1)] sys_typed_step [OF other.hyps(1)] show ?case by simp
next
  case (read s revents n now d s1 reads s')
  have typed: "http_typed c" using read.prems(2,3) by (simp add: sys_typed_def)
  have "\<forall>e \<in> set es. length (reply_text e) \<le> n" using read.hyps(2) read.prems(5) by force
  from stands_read [OF read.prems(4) typed read.prems(3) this] read.hyps(3) obtain c1 es1 out where
    c1: "sy_conn s1 i = Some c1" "sy_sent s1 i = sy_sent s i @ out" "sy_fin s1 i = sy_fin s i"
      "concat (map reply_text es) = out @ concat (map reply_text es1)" "set es1 \<subseteq> set es"
      "http_typed c1 \<longrightarrow> stands env room es1 reads c1" by auto
  have step: "sys_step env s s1" using read.hyps(1,3) by (rule sys_step.readable)
  have ok: "sys_ok s1" "sys_typed s1" using sys_ok_step [OF step read.prems(1)] sys_typed_step [OF step read.prems(2)] by blast+
  then have "stands env room es1 reads c1" using c1(1,6) by (simp add: sys_typed_def)
  with read.IH [OF ok c1(1)] read.prems(5) c1(2-5) show ?case by fastforce
qed

text \<open>Such a run exists: the poller can report the connection, and no read fails.\<close>

lemma conn_reported:
  assumes "sys_ok s" and "sys_typed s" and "sy_conn s i = Some c" and "chan_index (conn_channel c) = kAdded"
  shows "conn_event s i EPOLLIN Call_Read"
proof -
  let ?m = "chan_events (conn_channel c)"
  have m: "?m AND readEvent = readEvent" and w: "watching (sy_poll s (sy_home s i)) (conn_fd c) = Some ?m"
    using assms(1,3,4) by (simp_all add: sys_ok_def polls_ok_def conn_ok_def)
  have "bit (?m AND readEvent) 0" unfolding m by (simp add: bit_readEvent)
  then have "bit ?m 0" by (simp add: bit_and_iff)
  then have "EPOLLIN AND NOT (?m OR EPOLLERR OR EPOLLHUP) = 0"
    by (intro bit_eqI) (auto simp: EPOLLIN_def bit_and_iff bit_or_iff bit_not_iff bit_1_iff)
  moreover have "EPOLLIN AND readEvent \<noteq> 0" by code_simp
  moreover have "has_read (conn_channel c)"
    using assms(2,3) by (simp add: sys_typed_def http_typed_def conn_typed_def)
  ultimately show ?thesis
    using assms(3) w by (simp add: conn_event_def reported_def handleEvent_def setREvent_def)
qed

lemma served_exists:
  "sys_ok s \<Longrightarrow> sys_typed s \<Longrightarrow> sy_conn s i = Some c \<Longrightarrow> chan_index (conn_channel c) = kAdded \<Longrightarrow>
    stands env room es reads c \<Longrightarrow> \<forall>e \<in> set es. length (reply_text e) \<le> m \<Longrightarrow> \<exists>s'. served env i m reads s s'"
proof (induction reads arbitrary: s c es)
  case Nil
  then show ?case by (blast intro: served.over)
next
  case (Cons r reads)
  obtain now d where r: "r = (now, d)" by (cases r)
  have typed: "http_typed c" using Cons.prems(2,3) by (simp add: sys_typed_def)
  obtain s1 c1 es1 out where s1: "sys_read env now [Data d] [Wrote m] i s = Inr s1" "sy_conn s1 i = Some c1"
      "set es1 \<subseteq> set es" "http_typed c1 \<longrightarrow> stands env room es1 reads c1" "conn_channel c1 = conn_channel c"
    using stands_read [OF Cons.prems(5) [unfolded r] typed Cons.prems(3,6)] by blast
  have event: "conn_event s i EPOLLIN Call_Read" using conn_reported [OF Cons.prems(1-4)] .
  then have step: "sys_step env s s1" using s1(1) by (rule sys_step.readable)
  have ok: "sys_ok s1" "sys_typed s1" using sys_ok_step [OF step Cons.prems(1)] sys_typed_step [OF step Cons.prems(2)] by blast+
  then have "stands env room es1 reads c1" using s1(2,4) by (simp add: sys_typed_def)
  moreover have "chan_index (conn_channel c1) = kAdded" using s1(5) Cons.prems(4) by simp
  moreover have "\<forall>e \<in> set es1. length (reply_text e) \<le> m" using s1(3) Cons.prems(6) by blast
  ultimately obtain s' where "served env i m reads s1 s'" using Cons.IH [OF ok s1(2)] by blast
  with event s1(1) show ?case unfolding r by (blast intro: served.read)
qed

lemma served_steps: "served env i m reads s s' \<Longrightarrow> (sys_step env)\<^sup>*\<^sup>* s s'"
proof (induction rule: served.induct)
  case (read s revents n now d s1 reads s')
  then show ?case by (meson converse_rtranclp_into_rtranclp sys_step.readable)
qed (auto intro: converse_rtranclp_into_rtranclp)



text \<open>A second client is accepted while the first is connected.\<close>

theorem system_isolation_witness:
  "\<exists>s s' c. demo_registered = Inr s \<and> sys_accept (Timestamp 8) 11 0 0 s = Inr s' \<and>
     sy_conn s 0 = Some c \<and> sy_conn s' 0 = Some c \<and> watching (sy_poll s' 9) 7 = watching (sy_poll s 9) 7"
proof -
  obtain s c where s: "demo_registered = Inr s" "(sys_step demo_env)\<^sup>*\<^sup>* (new_system demo_fds demo_server [] (new_pool 0)) s"
      "sy_conn s 0 = Some c"
    using demo_registered_reached by blast
  have "res_map (\<lambda>s. (sy_home s 0, map_option conn_fd (sy_conn s 0), res_map (\<lambda>s. ()) (sys_accept (Timestamp 8) 11 0 0 s)))
      demo_registered = Inr (9, Some 7, Inr ())"
    by code_simp
  then obtain s' where s': "sys_accept (Timestamp 8) 11 0 0 s = Inr s'" "sy_home s 0 = 9" "conn_fd c = 7"
    unfolding s(1) using s(3) by (auto simp: res_simps)
  have "sy_conn s' 0 = Some c \<and> watching (sy_poll s' 9) 7 = watching (sy_poll s 9) 7"
    using system_isolation [OF demo_server demo_fds_ok s(2,3) disjI1 [OF s'(1)]] by (simp add: s'(2,3))
  with s s' show ?thesis by blast
qed

end
