(* ===== verification/EdgeWriter.thy ===== *)
theory EdgeWriter
  imports TcpConnection
begin

text \<open>
  The edge-triggered branch of \<open>TcpConnection::handleWrite\<close>: it writes until everything has left or
  the kernel takes no more, and what other errors do to it.
\<close>

lemma write_loop_edge:
  assumes "registered c io" and "buf_ok (writeBuffer c)" and "contents (writeBuffer c) \<noteq> []"
    and "\<forall>n \<in> set ns. 0 < n" and "io_writes io = map Wrote ns @ Write_Failed EAGAIN # as" and "length ns < fuel"
  shows "\<exists>c' io'. write_loop fuel (readableBytes (writeBuffer c)) c io = Inr (c', io') \<and>
    registered c' io' \<and> buf_ok (writeBuffer c') \<and> outgoing c' io' = outgoing c io \<and>
    contents (writeBuffer c') = drop (sum_list ns) (contents (writeBuffer c)) \<and>
    (if contents (writeBuffer c') = [] then chan_events (conn_channel c') = chan_events (conn_channel c) else wants_write c')"
  using assms
proof (induction ns arbitrary: c io fuel)
  case Nil
  then obtain f where f: "fuel = Suc f" by (cases fuel) auto
  let ?io = "io\<lparr>io_writes := as\<rparr>"
  obtain c' io' where on: "on_channel enableWriting c ?io = (c', io')" by fastforce
  have "write_buffer c io = Inr (Inl EAGAIN, ?io)"
    using Nil by (simp add: write_buffer_ok sys_write_def)
  then have "write_loop fuel (readableBytes (writeBuffer c)) c io = Inr (c', io')" by (simp add: f on)
  moreover note on_channel_update [of c ?io "\<lambda>m. m OR writeEvent" c' io']
  ultimately show ?case
    using Nil on by (auto simp: enable_as_update outgoing_def wants_write_def bit_writeEvent_or)
next
  case (Cons n ns)
  let ?s = "contents (writeBuffer c)"
  define k where "k = min n (length ?s)"
  have k: "0 < k" "k \<le> length ?s" using Cons.prems(3,4) by (simp_all add: k_def)
  obtain f where f: "fuel = Suc f" "length ns < f" using Cons.prems(6) by (cases fuel) auto
  let ?io = "io\<lparr>io_writes := map Wrote ns @ Write_Failed EAGAIN # as, io_sent := io_sent io @ take k ?s\<rparr>"
  let ?c = "consume (int k) c"
  have w: "write_buffer c io = Inr (Inr k, ?io)"
    using Cons.prems(2,5) by (simp add: write_buffer_ok sys_write_def k_def Let_def)
  note adv = contents_addReadIndex [OF Cons.prems(2) k(2)]
  have len: "readableBytes (writeBuffer c) = int (length ?s)" "readableBytes (writeBuffer ?c) = int (length ?s) - int k"
    using adv k readableBytes_contents [OF Cons.prems(2)] readableBytes_contents [of "writeBuffer ?c"]
    by (simp_all add: consume_def)
  have c: "registered ?c ?io" "buf_ok (writeBuffer ?c)" "contents (writeBuffer ?c) = drop k ?s"
    "outgoing ?c ?io = outgoing c io" "conn_channel ?c = conn_channel c"
    using Cons.prems(1) adv by (simp_all add: consume_def outgoing_def)
  show ?case
  proof (cases "k = length ?s")
    case True
    then have "write_loop fuel (readableBytes (writeBuffer c)) c io = Inr (?c, ?io)" by (simp add: f w len)
    moreover have "drop (sum_list (n # ns)) ?s = []" using True by (simp add: k_def)
    ultimately show ?thesis using c True by simp
  next
    case False
    then have kn: "k = n" by (simp add: k_def min_def split: if_splits)
    have "write_loop fuel (readableBytes (writeBuffer c)) c io = write_loop f (readableBytes (writeBuffer ?c)) ?c ?io"
      using False k by (simp add: f w len Let_def)
    moreover have "contents (writeBuffer ?c) \<noteq> []" using c(3) False k by simp
    moreover have "io_writes ?io = map Wrote ns @ Write_Failed EAGAIN # as" "\<forall>n \<in> set ns. 0 < n"
      using Cons.prems(4) by simp_all
    ultimately obtain c' io' where "write_loop fuel (readableBytes (writeBuffer c)) c io = Inr (c', io')" "registered c' io'"
        "buf_ok (writeBuffer c')" "outgoing c' io' = outgoing c io"
        "contents (writeBuffer c') = drop (sum_list ns) (drop k ?s)"
        "if contents (writeBuffer c') = [] then chan_events (conn_channel c') = chan_events (conn_channel c) else wants_write c'"
      using Cons.IH [OF c(1,2) _ _ _ f(2)] unfolding c(3-5) by metis
    moreover have "drop (sum_list ns) (drop k ?s) = drop (sum_list (n # ns)) ?s" by (simp add: kn add.commute)
    ultimately show ?thesis by metis
  qed
qed

text \<open>
  An event of an edge-triggered connection with unsent bytes: each call of \<open>write\<close> takes at least
  one byte, until the kernel is full. Then the bytes left in order, those not taken are still
  buffered, and if there are any, EPOLLOUT is asked for.
\<close>

lemma handleWrite_edge:
  assumes "conn_mode c \<noteq> 1" and "registered c io" and "buf_ok (writeBuffer c)" and "contents (writeBuffer c) \<noteq> []"
    and "\<forall>n \<in> set ns. 0 < n" and "io_writes io = map Wrote ns @ Write_Failed EAGAIN # as"
  shows "\<exists>c' io'. handleWrite c io = Inr (c', io') \<and> buf_ok (writeBuffer c') \<and> outgoing c' io' = outgoing c io \<and>
    contents (writeBuffer c') = drop (sum_list ns) (contents (writeBuffer c)) \<and>
    (contents (writeBuffer c') \<noteq> [] \<longrightarrow> wants_write c')"
  using write_loop_edge [OF assms(2-6), of "length (io_writes io)"] assms(1,6)
  by (auto simp: handleWrite_def split: if_splits)

text \<open>
  Any other error of \<open>write\<close> moves the read index back by one, so the byte that left last is
  sent twice.
\<close>

lemma handleWrite_edge_resends:
  fixes c defines "s \<equiv> contents (writeBuffer c)"
  assumes "conn_mode c \<noteq> 1" and "buf_ok (writeBuffer c)" and "0 < n" and "n < length s" and "length s \<le> k"
    and "io_writes io = Wrote n # Write_Failed EOTHER # Wrote k # as"
  shows "\<exists>c' io'. handleWrite c io = Inr (c', io') \<and> io_sent io' = io_sent io @ take n s @ drop (n - 1) s"
proof -
  let ?c1 = "consume (int n) c" and ?c2 = "consume (- 1) (consume (int n) c)"
  have c2: "?c2 = consume (int (n - 1)) c"
    using assms(4) by (simp add: consume_def addReadIndex_def of_nat_diff)
  have b1: "buf_ok (writeBuffer ?c1)"
    using contents_addReadIndex [OF assms(3), of n] assms(5) by (simp add: consume_def s_def)
  have b2: "buf_ok (writeBuffer ?c2)" "contents (writeBuffer ?c2) = drop (n - 1) s"
    unfolding c2 using contents_addReadIndex [OF assms(3), of "n - 1"] assms(5) by (simp_all add: consume_def s_def)
  have len: "readableBytes (writeBuffer c) = int (length s)" by (simp add: readableBytes_contents [OF assms(3)] s_def)
  let ?io1 = "io\<lparr>io_writes := Write_Failed EOTHER # Wrote k # as, io_sent := io_sent io @ take n s\<rparr>"
  let ?io2 = "?io1\<lparr>io_writes := Wrote k # as\<rparr>"
  let ?io3 = "?io2\<lparr>io_writes := as, io_sent := io_sent ?io1 @ drop (n - 1) s\<rparr>"
  have w: "write_buffer c io = Inr (Inr n, ?io1)" "write_buffer ?c1 ?io1 = Inr (Inl EOTHER, ?io2)"
    "write_buffer ?c2 ?io2 = Inr (Inr (length s - (n - 1)), ?io3)"
    using assms(5,6,7) write_buffer_ok [OF assms(3), of io] write_buffer_ok [OF b1, of ?io1] write_buffer_ok [OF b2(1), of ?io2] b2(2)
    by (simp_all add: sys_write_def Let_def s_def min_absorb2)
  have "handleWrite c io = Inr (consume (int (length s - (n - 1))) ?c2, ?io3)"
    using assms(2,4,5,7) w by (simp add: handleWrite_def len of_nat_diff Let_def)
  then show ?thesis by simp
qed

end
