(* ===== verification/ThreadLife.thy ===== *)
theory ThreadLife
  imports ThreadStart
begin

text \<open>
  The whole life of a thread of \<open>base/Thread.cc\<close>: the start of theory \<open>ThreadStart\<close>, what the new
  thread does after it, \<open>join\<close>, and the destructor, which deletes the data that the new thread
  works on. The number the kernel gives the new thread is a parameter.
\<close>

datatype run_pc = Starting | Running | Finished

record thread_life =
  tl_thread :: thread
  tl_run :: run_pc             \<comment> \<open>where \<open>ThreadData::run\<close> is, after the signal\<close>
  tl_tid :: int                \<comment> \<open>\<open>_tid\<close>\<close>
  tl_calls :: nat              \<comment> \<open>how often the function has been called\<close>
  tl_deleted :: bool           \<comment> \<open>the object and its \<open>ThreadData\<close> are gone\<close>

definition new_life :: "bool \<Rightarrow> thread_life" where
  "new_life detach = \<lparr>tl_thread = new_thread detach, tl_run = Starting, tl_tid = 0, tl_calls = 0, tl_deleted = False\<rparr>"

text \<open>\<open>gettid\<close>, with what the kernel answers and the value of \<open>thread_ID\<close> before and after.\<close>

definition gettid :: "int \<Rightarrow> int \<Rightarrow> int \<times> int" where
  "gettid kid cached = (let id = (if cached = 0 then kid else cached) in (id, id))"

text \<open>The steps of \<open>start\<close> in the creating thread.\<close>

inductive start_move :: "thread \<Rightarrow> thread \<Rightarrow> bool" where
  create: "parent t = Before \<Longrightarrow> start_begin t = Inr t' \<Longrightarrow> start_move t t'"
| test: "parent t = Test \<Longrightarrow> start_move t (start_test t)"
| sleep: "parent t = Decided \<Longrightarrow> start_move t (t\<lparr>parent := Waiting\<rparr>)"

text \<open>The new thread: it counts, signals, notes its number, and its function returns.\<close>

inductive run_step :: "int \<Rightarrow> thread_life \<Rightarrow> thread_life \<Rightarrow> bool" for kid where
  count: "child (tl_thread s) = Created \<Longrightarrow> run_step kid s (s\<lparr>tl_thread := run_count (tl_thread s)\<rparr>)"
| signal: "child (tl_thread s) = Counted \<Longrightarrow> run_step kid s (s\<lparr>tl_thread := run_signal (tl_thread s)\<rparr>)"
| call: "child (tl_thread s) = Signalled \<Longrightarrow> tl_run s = Starting \<Longrightarrow>
    run_step kid s (s\<lparr>tl_tid := fst (gettid kid 0), tl_run := Running, tl_calls := tl_calls s + 1\<rparr>)"
| exit: "tl_run s = Running \<Longrightarrow> run_step kid s (s\<lparr>tl_run := Finished\<rparr>)"

text \<open>\<open>join\<close>; \<open>None\<close> while \<open>pthread_join\<close> waits.\<close>

definition life_join :: "thread_life \<Rightarrow> thread_life result option" where
  "life_join s =
     (case thread_join (tl_thread s) of
        Inl e \<Rightarrow> Some (Inl e)
      | Inr t \<Rightarrow> if tl_run s = Finished then Some (Inr (s\<lparr>tl_thread := t\<rparr>)) else None)"

definition delete_thread :: "thread_life \<Rightarrow> thread_life" where
  "delete_thread s = s\<lparr>tl_deleted := True\<rparr>"

text \<open>
  The owner may delete the object whenever it is not inside \<open>start\<close>. The new thread goes on as
  long as what it works on is there.
\<close>

inductive life_step :: "int \<Rightarrow> thread_life \<Rightarrow> thread_life \<Rightarrow> bool" for kid where
  start: "\<not> tl_deleted s \<Longrightarrow> start_move (tl_thread s) t \<Longrightarrow> life_step kid s (s\<lparr>tl_thread := t\<rparr>)"
| run: "\<not> tl_deleted s \<Longrightarrow> run_step kid s s' \<Longrightarrow> life_step kid s s'"
| join: "\<not> tl_deleted s \<Longrightarrow> parent (tl_thread s) = Returned \<Longrightarrow> life_join s = Some (Inr s') \<Longrightarrow> life_step kid s s'"
| delete: "\<not> tl_deleted s \<Longrightarrow> parent (tl_thread s) = Before \<or> parent (tl_thread s) = Returned \<Longrightarrow>
    life_step kid s (delete_thread s)"

text \<open>The new thread is not through, and its data is deleted.\<close>

definition dangling :: "thread_life \<Rightarrow> bool" where
  "dangling s \<longleftrightarrow> tl_deleted s \<and> child (tl_thread s) \<noteq> Absent \<and> tl_run s \<noteq> Finished"

definition life_inv :: "int \<Rightarrow> thread_life \<Rightarrow> bool" where
  "life_inv kid s \<longleftrightarrow> thread_inv (tl_thread s) \<and>
     (tl_run s \<noteq> Starting \<longrightarrow> child (tl_thread s) = Signalled \<and> tl_tid s = kid) \<and>
     tl_calls s = (if tl_run s = Starting then 0 else 1) \<and>
     (th_joined (tl_thread s) \<longrightarrow> tl_run s = Finished)"

lemma start_move_step: "start_move t t' \<Longrightarrow> thread_step t t'"
  by (auto elim!: start_move.cases intro: thread_step.intros)

lemma start_move_frame:
  "start_move t t' \<Longrightarrow> thread_inv t \<Longrightarrow> th_joined t' = th_joined t \<and> (child t = Signalled \<longrightarrow> child t' = Signalled)"
  by (auto simp: thread_ops thread_inv_def elim!: start_move.cases split: if_splits)

lemma life_inv_start:
  "life_inv kid s \<Longrightarrow> start_move (tl_thread s) t \<Longrightarrow> life_inv kid (s\<lparr>tl_thread := t\<rparr>)"
  using thread_inv_step [OF start_move_step] start_move_frame by (fastforce simp: life_inv_def)

lemma life_inv_run: "run_step kid s s' \<Longrightarrow> life_inv kid s \<Longrightarrow> life_inv kid s'"
proof (induction rule: run_step.induct)
  case (count s)
  then have "thread_inv (run_count (tl_thread s))"
    using thread_inv_step thread_step.count by (auto simp: life_inv_def)
  with count show ?case by (auto simp: life_inv_def run_count_def)
next
  case (signal s)
  then have "thread_inv (run_signal (tl_thread s))"
    using thread_inv_step thread_step.signal by (auto simp: life_inv_def)
  with signal show ?case by (auto simp: life_inv_def run_signal_def)
qed (auto simp: life_inv_def gettid_def)

lemma life_inv_join: "life_join s = Some (Inr s') \<Longrightarrow> life_inv kid s \<Longrightarrow>
    life_inv kid s' \<and> th_joined (tl_thread s') \<and> tl_run s' = Finished"
  by (auto simp: life_join_def thread_join_def life_inv_def thread_inv_def split: sum.splits if_splits)

lemma life_inv_delete [simp]: "life_inv kid (delete_thread s) = life_inv kid s"
  by (simp add: life_inv_def delete_thread_def)

lemma life_inv_step: "life_step kid s s' \<Longrightarrow> life_inv kid s \<Longrightarrow> life_inv kid s'"
  by (induction rule: life_step.induct) (auto intro: life_inv_start life_inv_run dest: life_inv_join)

interpretation thread_lives: step_invariant "life_step kid" "life_inv kid" for kid
  by unfold_locales (rule life_inv_step)

lemma life_inv_new: "life_inv kid (new_life detach)"
  by (simp add: life_inv_def new_life_def thread_inv_def new_thread_def)

text \<open>
  C35: what \<open>start\<close> and \<open>join\<close> promise. However the two threads run, when \<open>start\<close> has returned the
  new thread has counted itself, exactly once; its function is called at most once. When
  \<open>join\<close> has returned, it has been called and has returned, the object knows the number of the
  thread, a second \<open>start\<close> or \<open>join\<close> fails its assertion, and the object can be deleted: nothing
  of it is needed any more.
\<close>
theorem thread_joined:
  assumes "(life_step kid)\<^sup>*\<^sup>* (new_life detach) s"
  shows "(parent (tl_thread s) = Returned \<longrightarrow> cond_num (tl_thread s) = 1 \<and> start_begin (tl_thread s) = Inl Assert_Failed) \<and>
    tl_calls s \<le> 1 \<and>
    (th_joined (tl_thread s) \<longrightarrow> tl_run s = Finished \<and> tl_calls s = 1 \<and> tl_tid s = kid \<and>
      life_join s = Some (Inl Assert_Failed) \<and> \<not> dangling s)"
proof -
  have inv: "life_inv kid s" by (rule thread_lives.run [OF assms life_inv_new])
  then show ?thesis
    by (auto simp: life_inv_def thread_inv_def start_begin_def life_join_def thread_join_def dangling_def)
qed

lemma life_run_good:
  "\<exists>s. (life_step 7)\<^sup>*\<^sup>* (new_life False) s \<and> th_joined (tl_thread s) \<and> tl_deleted s"
proof -
  let ?s0 = "new_life False"
  let ?s1 = "?s0\<lparr>tl_thread := (new_thread False)\<lparr>th_started := True, parent := Test, child := Created\<rparr>\<rparr>"
  let ?s2 = "?s1\<lparr>tl_thread := run_count (tl_thread ?s1)\<rparr>"
  let ?s3 = "?s2\<lparr>tl_thread := start_test (tl_thread ?s2)\<rparr>"
  let ?s4 = "?s3\<lparr>tl_thread := run_signal (tl_thread ?s3)\<rparr>"
  let ?s5 = "?s4\<lparr>tl_tid := fst (gettid 7 0), tl_run := Running, tl_calls := tl_calls ?s4 + 1\<rparr>"
  let ?s6 = "?s5\<lparr>tl_run := Finished\<rparr>"
  let ?s7 = "?s6\<lparr>tl_thread := (tl_thread ?s6)\<lparr>th_joined := True\<rparr>\<rparr>"
  have "life_step 7 ?s0 ?s1"
    by (rule life_step.start) (auto simp: new_life_def new_thread_def thread_ops intro!: start_move.create)
  moreover have "life_step 7 ?s1 ?s2" by (intro life_step.run run_step.count) (simp_all add: new_life_def)
  moreover have "life_step 7 ?s2 ?s3"
    by (intro life_step.start start_move.test) (simp_all add: new_life_def thread_ops)
  moreover have "life_step 7 ?s3 ?s4"
    by (intro life_step.run run_step.signal) (simp_all add: new_life_def thread_ops)
  moreover have "life_step 7 ?s4 ?s5"
    by (intro life_step.run run_step.call) (simp_all add: new_life_def thread_ops)
  moreover have "life_step 7 ?s5 ?s6" by (intro life_step.run run_step.exit) (simp_all add: new_life_def)
  moreover have "life_step 7 ?s6 ?s7"
    by (rule life_step.join) (simp_all add: new_life_def thread_ops new_thread_def life_join_def thread_join_def)
  moreover have "life_step 7 ?s7 (delete_thread ?s7)"
    by (rule life_step.delete) (simp_all add: new_life_def thread_ops new_thread_def)
  ultimately have "(life_step 7)\<^sup>*\<^sup>* ?s0 (delete_thread ?s7)"
    by (meson rtranclp.rtrancl_into_rtrancl rtranclp.rtrancl_refl)
  then show ?thesis by (intro exI [of _ "delete_thread ?s7"]) (simp add: delete_thread_def)
qed

theorem thread_joined_witness:
  "\<exists>s. (life_step 7)\<^sup>*\<^sup>* (new_life False) s \<and> tl_deleted s \<and> tl_calls s = 1 \<and> tl_tid s = 7 \<and> \<not> dangling s"
proof -
  obtain s where s: "(life_step 7)\<^sup>*\<^sup>* (new_life False) s" "th_joined (tl_thread s)" "tl_deleted s"
    using life_run_good by blast
  with thread_joined [OF s(1)] show ?thesis by blast
qed

text \<open>
  Without \<open>join\<close>, for example because the thread is detached, the object can be deleted while the
  new thread has not yet read its function.
\<close>

lemma thread_deleted_early:
  "\<exists>s. (life_step kid)\<^sup>*\<^sup>* (new_life detach) s \<and> dangling s \<and> tl_calls s = 0"
proof -
  let ?s0 = "new_life detach"
  let ?s1 = "?s0\<lparr>tl_thread := (new_thread detach)\<lparr>th_started := True, parent := Test, child := Created\<rparr>\<rparr>"
  let ?s2 = "?s1\<lparr>tl_thread := run_count (tl_thread ?s1)\<rparr>"
  let ?s3 = "?s2\<lparr>tl_thread := start_test (tl_thread ?s2)\<rparr>"
  have "life_step kid ?s0 ?s1"
    by (rule life_step.start) (auto simp: new_life_def new_thread_def thread_ops intro!: start_move.create)
  moreover have "life_step kid ?s1 ?s2" by (intro life_step.run run_step.count) (simp_all add: new_life_def)
  moreover have "life_step kid ?s2 ?s3"
    by (intro life_step.start start_move.test) (simp_all add: new_life_def thread_ops)
  moreover have "life_step kid ?s3 (delete_thread ?s3)"
    by (rule life_step.delete) (simp_all add: new_life_def thread_ops new_thread_def)
  ultimately have "(life_step kid)\<^sup>*\<^sup>* ?s0 (delete_thread ?s3)"
    by (meson rtranclp.rtrancl_into_rtrancl rtranclp.rtrancl_refl)
  then show ?thesis
    by (intro exI [of _ "delete_thread ?s3"])
      (simp add: dangling_def delete_thread_def new_life_def thread_ops new_thread_def)
qed

end
