(* ===== verification/LogTest.thy ===== *)
theory LogTest
  imports Logging ThreadLife
begin

text \<open>
  \<open>base/test/test_for_asylog.cc\<close>: threads that log the same line over and over through an
  asynchronous log file, which is then ended. The program puts threads, logger, queue and log file
  together; its main thread, the printing threads and the writer of the log interleave.

  \<open>n\<close> is the number of threads and \<open>m\<close> the number of lines of each; the program has 10 and 100.
  \<open>ids\<close> are the numbers the kernel gives the threads.
\<close>

definition test_threads :: nat where "test_threads = 10"
definition test_lines :: nat where "test_lines = 100"

text \<open>The constructor call of \<open>main\<close>; the working directory is not used.\<close>

definition test_log_file :: "log_env \<Rightarrow> int \<Rightarrow> log_file result" where
  "test_log_file env now = new_log_file env [] ''/home/luyuda/WebServer/base/test'' True 1000000000 1000000 now"

definition test_globals :: log_globals where
  "test_globals = setOuputFunc File_Output init_globals"

datatype test_pc = Starting_Thread nat | Joining nat | Setting_Over | Pushing_Over | Joining_Writer | Test_Done

record log_test =
  lt_main :: test_pc
  lt_threads :: "thread_life list"
  lt_left :: "nat list"          \<comment> \<open>the turns each \<open>print\<close> has left\<close>
  lt_log :: log_world

definition new_log_test :: "nat \<Rightarrow> nat \<Rightarrow> log_file \<Rightarrow> log_test" where
  "new_log_test n m lf = \<lparr>lt_main = (if n = 0 then Setting_Over else Starting_Thread 0),
     lt_threads = replicate n (new_life False), lt_left = replicate n m, lt_log = new_log_world 50000 lf\<rparr>"

text \<open>The statement of \<open>print\<close>, in the thread with this number, with what the clock says. \<open>src\<close> is the
  path that the compiler puts for \<open>__FILE__\<close>.\<close>

definition print_stm :: "string \<Rightarrow> int \<Rightarrow> tm \<Rightarrow> int \<Rightarrow> log_stm" where
  "print_stm src tid t usec = \<lparr>st_tm = t, st_usec = usec, st_tid = tid, st_file = src, st_line = 12,
     st_level = INFO, st_msg = ''My name is luyuda,I'm 23 years old!'', st_now = 0, st_now2 = 0\<rparr>"

definition set_thread :: "nat \<Rightarrow> thread_life \<Rightarrow> log_test \<Rightarrow> log_test" where
  "set_thread i t s = s\<lparr>lt_threads := (lt_threads s)[i := t]\<rparr>"

text \<open>
  A thread that prints goes through the logger, which gives the line to \<open>append_file\<close>; with the
  queue full it waits. The writer takes steps of theory \<open>LogFile\<close>. A thread's function
  returns when no turn is left.
\<close>

inductive test_step :: "log_env \<Rightarrow> nat \<Rightarrow> (nat \<Rightarrow> int) \<Rightarrow> log_test \<Rightarrow> log_test \<Rightarrow> bool" for env n ids where
  start: "lt_main s = Starting_Thread i \<Longrightarrow> start_move (tl_thread (lt_threads s ! i)) t \<Longrightarrow>
    test_step env n ids s (set_thread i ((lt_threads s ! i)\<lparr>tl_thread := t\<rparr>) s)"
| started: "lt_main s = Starting_Thread i \<Longrightarrow> parent (tl_thread (lt_threads s ! i)) = Returned \<Longrightarrow>
    test_step env n ids s (s\<lparr>lt_main := (if i + 1 < n then Starting_Thread (i + 1) else Joining 0)\<rparr>)"
| join: "lt_main s = Joining i \<Longrightarrow> life_join (lt_threads s ! i) = Some (Inr t) \<Longrightarrow>
    test_step env n ids s
      ((set_thread i (delete_thread t) s)\<lparr>lt_main := (if i + 1 < n then Joining (i + 1) else Setting_Over)\<rparr>)"
| run: "i < n \<Longrightarrow> \<not> tl_deleted (lt_threads s ! i) \<Longrightarrow> run_step (ids i) (lt_threads s ! i) t \<Longrightarrow>
    tl_run t = Finished \<longrightarrow> lt_left s ! i = 0 \<Longrightarrow> test_step env n ids s (set_thread i t s)"
| print: "i < n \<Longrightarrow> tl_run (lt_threads s ! i) = Running \<Longrightarrow> lt_left s ! i = Suc k \<Longrightarrow>
    st = print_stm src (tl_tid (lt_threads s ! i)) t usec \<Longrightarrow> st_fits st \<Longrightarrow>
    log_call env st \<lparr>ls_globals = test_globals, ls_file = lw_file (lt_log s), ls_queue = lw_q (lt_log s), ls_stdout = []\<rparr> =
      Some (Inr w) \<Longrightarrow>
    test_step env n ids s (s\<lparr>lt_left := (lt_left s)[i := k],
      lt_log := (lt_log s)\<lparr>lw_q := ls_queue w, lw_in := lw_in (lt_log s) @ [st_text st]\<rparr>\<rparr>)"
| set_over: "lt_main s = Setting_Over \<Longrightarrow>
    test_step env n ids s (s\<lparr>lt_main := Pushing_Over, lt_log := (lt_log s)\<lparr>lw_over := True\<rparr>\<rparr>)"
| push_over: "lt_main s = Pushing_Over \<Longrightarrow> bq_push [] (lw_q (lt_log s)) = Some q \<Longrightarrow>
    test_step env n ids s (s\<lparr>lt_main := Joining_Writer,
      lt_log := (lt_log s)\<lparr>lw_q := q, lw_in := lw_in (lt_log s) @ [[]]\<rparr>\<rparr>)"
| writer: "log_step env (lt_log s) w \<Longrightarrow> lw_in w = lw_in (lt_log s) \<Longrightarrow> lw_over w = lw_over (lt_log s) \<Longrightarrow>
    test_step env n ids s (s\<lparr>lt_log := w\<rparr>)"
| join_writer: "lt_main s = Joining_Writer \<Longrightarrow> lw_pc (lt_log s) = Writer_Done \<Longrightarrow>
    test_step env n ids s (s\<lparr>lt_main := Test_Done\<rparr>)"

subsection \<open>Invariant\<close>

definition test_line :: "string \<Rightarrow> bool" where
  "test_line l \<longleftrightarrow> (\<exists>src tid t usec. l = st_text (print_stm src tid t usec))"

fun joined_upto :: "nat \<Rightarrow> test_pc \<Rightarrow> nat" where
  "joined_upto n (Starting_Thread i) = 0"
| "joined_upto n (Joining i) = i"
| "joined_upto n pc = n"

definition lines_in :: "nat \<Rightarrow> nat \<Rightarrow> log_test \<Rightarrow> bool" where
  "lines_in n m s \<longleftrightarrow> (\<exists>ls. lw_in (lt_log s) =
       ls @ (if lt_main s = Joining_Writer \<or> lt_main s = Test_Done then [[]] else []) \<and>
     length ls + sum_list (lt_left s) = n * m \<and> (\<forall>l \<in> set ls. test_line l))"

definition pc_ok :: "nat \<Rightarrow> test_pc \<Rightarrow> bool" where
  "pc_ok n pc \<longleftrightarrow> (\<forall>i. pc = Starting_Thread i \<or> pc = Joining i \<longrightarrow> i < n)"

definition thread_ok :: "nat \<Rightarrow> (nat \<Rightarrow> int) \<Rightarrow> log_test \<Rightarrow> nat \<Rightarrow> bool" where
  "thread_ok n ids s i \<longleftrightarrow> life_inv (ids i) (lt_threads s ! i) \<and>
     (tl_run (lt_threads s ! i) = Finished \<longrightarrow> lt_left s ! i = 0) \<and>
     (i < joined_upto n (lt_main s) \<longrightarrow> th_joined (tl_thread (lt_threads s ! i)) \<and> tl_deleted (lt_threads s ! i)) \<and>
     (tl_deleted (lt_threads s ! i) \<longrightarrow> tl_run (lt_threads s ! i) = Finished)"

definition test_inv :: "nat \<Rightarrow> nat \<Rightarrow> (nat \<Rightarrow> int) \<Rightarrow> log_test \<Rightarrow> bool" where
  "test_inv n m ids s \<longleftrightarrow> length (lt_threads s) = n \<and> length (lt_left s) = n \<and> pc_ok n (lt_main s) \<and>
     (\<forall>i<n. thread_ok n ids s i) \<and> lines_in n m s \<and> log_inv (lt_log s) \<and> asylog (lw_file (lt_log s))"

lemma asylog_write: "write_line env b now now2 l lf = Inr lf' \<Longrightarrow> asylog lf' = asylog lf"
  by (auto simp: write_line_def rollFile_def close_file_def Let_def split: if_splits option.splits)

lemma asylog_step: "log_step env w w' \<Longrightarrow> asylog (lw_file w') = asylog (lw_file w)"
  by (induction rule: log_step.induct) (auto dest: asylog_write)

lemma sum_list_less_one: "i < length xs \<Longrightarrow> xs ! i = Suc k \<Longrightarrow> sum_list xs = Suc (sum_list (xs[i := k]))"
  by (induction xs arbitrary: i) (auto simp: nth_Cons split: nat.splits)

text \<open>Steps that change one thread only.\<close>

lemma test_inv_set_thread:
  assumes "test_inv n m ids s" and "i < n" and "life_inv (ids i) t" and "tl_deleted t = tl_deleted (lt_threads s ! i)"
    and "th_joined (tl_thread (lt_threads s ! i)) \<longrightarrow> th_joined (tl_thread t)"
    and "tl_run t = Finished \<longrightarrow> lt_left s ! i = 0" and "tl_deleted (lt_threads s ! i) \<longrightarrow> tl_run t = Finished"
  shows "test_inv n m ids (set_thread i t s)"
  using assms by (auto simp: test_inv_def set_thread_def thread_ok_def lines_in_def nth_list_update)

text \<open>Steps that change the log only.\<close>

lemma test_inv_log:
  assumes "test_inv n m ids s" and "log_inv w" and "asylog (lw_file w)" and "lw_in w = lw_in (lt_log s)"
  shows "test_inv n m ids (s\<lparr>lt_log := w\<rparr>)"
  using assms by (simp add: test_inv_def thread_ok_def lines_in_def)

lemma run_step_frame:
  "run_step k t t' \<Longrightarrow> tl_deleted t' = tl_deleted t \<and> th_joined (tl_thread t') = th_joined (tl_thread t)"
  by (induction rule: run_step.induct) (simp_all add: run_count_def run_signal_def)

text \<open>What a printed line does to the log.\<close>

lemma log_print:
  assumes "log_call env (print_stm src tid t usec) \<lparr>ls_globals = test_globals, ls_file = lw_file lw, ls_queue = lw_q lw,
      ls_stdout = []\<rparr> = Some (Inr w)"
    and "st_fits (print_stm src tid t usec)" and "asylog (lw_file lw)"
  shows "bq_push (st_text (print_stm src tid t usec)) (lw_q lw) = Some (ls_queue w)"
proof -
  have "st_enabled test_globals (print_stm src tid t usec)" "g_output test_globals = File_Output"
    by (simp_all add: st_enabled_def test_globals_def setOuputFunc_def init_globals_def initLogLevel_def print_stm_def)
  with assms show ?thesis by (auto simp: log_call_eq append_file_def)
qed

lemma test_inv_step:
  assumes "test_step env n ids s s'" and "test_inv n m ids s"
  shows "test_inv n m ids s'"
  using assms
proof (induction rule: test_step.induct)
  case (start s i t)
  let ?t = "lt_threads s ! i"
  have i: "i < n" "thread_ok n ids s i" using start by (auto simp: test_inv_def pc_ok_def)
  then have "life_inv (ids i) ?t" by (simp add: thread_ok_def)
  with start i show ?case
    using life_inv_start [of "ids i" ?t t] start_move_frame [of "tl_thread ?t" t]
    by (intro test_inv_set_thread) (auto simp: thread_ok_def life_inv_def)
next
  case (started s i)
  then show ?case by (auto simp: test_inv_def pc_ok_def thread_ok_def lines_in_def)
next
  case (join s i t)
  let ?t = "lt_threads s ! i"
  have i: "i < n" "thread_ok n ids s i" using join by (auto simp: test_inv_def pc_ok_def)
  then have inv: "life_inv (ids i) ?t" by (simp add: thread_ok_def)
  note t = life_inv_join [OF join(2) inv]
  have "tl_run ?t = Finished" using join(2) by (auto simp: life_join_def split: sum.splits if_splits)
  then have "lt_left s ! i = 0" using i by (simp add: thread_ok_def)
  with join i t show ?case
    by (auto simp: test_inv_def set_thread_def thread_ok_def lines_in_def pc_ok_def nth_list_update delete_thread_def
      life_inv_def less_Suc_eq)
next
  case (run i s t)
  have "life_inv (ids i) (lt_threads s ! i)" using run by (simp add: test_inv_def thread_ok_def)
  with run show ?case
    using life_inv_run [OF run(3)] run_step_frame [OF run(3)] by (intro test_inv_set_thread) auto
next
  case (print i s k st src t usec w)
  let ?tid = "tl_tid (lt_threads s ! i)"
  have asy: "asylog (lw_file (lt_log s))" and log: "log_inv (lt_log s)" and lines: "lines_in n m s"
    and len: "length (lt_left s) = n"
    using print by (simp_all add: test_inv_def)
  have push: "bq_push (st_text st) (lw_q (lt_log s)) = Some (ls_queue w)"
    using log_print [of env src ?tid t usec "lt_log s" w] print(4-6) asy by simp
  let ?w = "(lt_log s)\<lparr>lw_q := ls_queue w, lw_in := lw_in (lt_log s) @ [st_text st]\<rparr>"
  have "log_inv ?w" by (rule log_inv_step [OF log_step.append [OF push] log])
  moreover have "joined_upto n (lt_main s) \<le> i"
    using print by (auto simp: test_inv_def thread_ok_def life_inv_def)
  then have "lt_main s \<noteq> Joining_Writer" "lt_main s \<noteq> Test_Done" using print(1) by auto
  moreover from this obtain ls where "lw_in (lt_log s) = ls" "length ls + sum_list (lt_left s) = n * m" "\<forall>l \<in> set ls. test_line l"
    using lines by (auto simp: lines_in_def)
  moreover have "test_line (st_text st)" using print(4) by (auto simp: test_line_def)
  moreover have "sum_list (lt_left s) = Suc (sum_list ((lt_left s)[i := k]))"
    by (rule sum_list_less_one) (use print len in simp_all)
  ultimately show ?case
    using print by (auto simp: test_inv_def thread_ok_def lines_in_def nth_list_update)
next
  case (set_over s)
  have "log_inv ((lt_log s)\<lparr>lw_over := True\<rparr>)"
    using set_over by (intro log_inv_step [OF log_step.set_over]) (simp add: test_inv_def)
  with set_over show ?case by (auto simp: test_inv_def pc_ok_def thread_ok_def lines_in_def)
next
  case (push_over s q)
  have "log_inv ((lt_log s)\<lparr>lw_q := q, lw_in := lw_in (lt_log s) @ [[]]\<rparr>)"
    using push_over by (intro log_inv_step [OF log_step.append]) (simp_all add: test_inv_def)
  with push_over show ?case by (auto simp: test_inv_def pc_ok_def thread_ok_def lines_in_def)
next
  case (writer s w)
  then show ?case
    using log_inv_step [of env "lt_log s" w] asylog_step [of env "lt_log s" w]
    by (intro test_inv_log) (auto simp: test_inv_def)
next
  case (join_writer s)
  then show ?case by (auto simp: test_inv_def pc_ok_def thread_ok_def lines_in_def)
qed

interpretation test_runs: step_invariant "test_step env n ids" "test_inv n m ids" for env n ids m
  by unfold_locales (rule test_inv_step)

subsection \<open>How the test ends\<close>

lemma test_inv_new:
  assumes "test_log_file env now = Inr lf"
  shows "test_inv n m ids (new_log_test n m lf)"
proof -
  have "log_inv (new_log_world 50000 lf)"
    using assms unfolding test_log_file_def by (rule log_inv_new) simp_all
  moreover have "asylog lf"
    using assms by (auto simp: test_log_file_def new_log_file_def rollFile_def close_file_def Let_def split: if_splits)
  ultimately show ?thesis
    by (auto simp: test_inv_def new_log_test_def pc_ok_def thread_ok_def lines_in_def life_inv_new new_log_world_def
      sum_list_replicate) (simp_all add: new_life_def new_thread_def)
qed

text \<open>
  C36: when the test of the log has come to its end, every thread has run its function once, is joined and
  deleted, with nothing left that needs it; all lines of all threads, \<open>n * m\<close> of them, have been
  queued, and the empty string that ends the log behind them. But in the files are only the lines
  that the writer had taken before it saw the end: an initial part of them, in the order they
  were queued, each whole and once.
\<close>
theorem log_test_ends:
  assumes "test_log_file env now = Inr lf" and "(test_step env n ids)\<^sup>*\<^sup>* (new_log_test n m lf) s"
    and "lt_main s = Test_Done"
  shows "\<exists>ls. lw_in (lt_log s) = ls @ [[]] \<and> length ls = n * m \<and> (\<forall>l \<in> set ls. test_line l) \<and>
    concat (map snd (lf_closed (lw_file (lt_log s)))) @ lf_text (lw_file (lt_log s)) =
      concat (take (length (lw_out (lt_log s))) (ls @ [[]])) \<and>
    (\<forall>i < n. tl_calls (lt_threads s ! i) = 1 \<and> tl_tid (lt_threads s ! i) = ids i \<and>
      th_joined (tl_thread (lt_threads s ! i)) \<and> tl_deleted (lt_threads s ! i) \<and> \<not> dangling (lt_threads s ! i))"
proof -
  have inv: "test_inv n m ids s" by (rule test_runs.run [OF assms(2) test_inv_new [OF assms(1)]])
  then have threads: "thread_ok n ids s i" if "i < n" for i using that by (simp add: test_inv_def)
  then have ends: "tl_run (lt_threads s ! i) = Finished" "lt_left s ! i = 0" if "i < n" for i
    using that assms(3) by (auto simp: thread_ok_def life_inv_def)
  then have "\<forall>x \<in> set (lt_left s). x = 0" using inv by (auto simp: test_inv_def in_set_conv_nth)
  then have zero: "sum_list (lt_left s) = 0" by simp
  have "lines_in n m s" using inv by (simp add: test_inv_def)
  then obtain ls where "lw_in (lt_log s) = ls @ [[]]" "length ls + sum_list (lt_left s) = n * m" "\<forall>l \<in> set ls. test_line l"
    using assms(3) by (auto simp: lines_in_def)
  then have ls: "lw_in (lt_log s) = ls @ [[]]" "length ls = n * m" "\<forall>l \<in> set ls. test_line l"
    unfolding zero by simp_all
  have "log_inv (lt_log s)" using inv by (simp add: test_inv_def)
  then have "ls @ [[]] = lw_out (lt_log s) @ bq_queue (lw_q (lt_log s))"
      "all_text (lw_file (lt_log s)) = concat (lw_out (lt_log s))"
    using ls(1) by (simp_all add: log_inv_def)
  then have "concat (map snd (lf_closed (lw_file (lt_log s)))) @ lf_text (lw_file (lt_log s)) =
      concat (take (length (lw_out (lt_log s))) (ls @ [[]]))"
    by (simp add: all_text_def)
  with ls show ?thesis
    using threads ends assms(3) by (auto simp: thread_ok_def life_inv_def dangling_def)
qed

text \<open>A run with one thread and one line, in which the writer sees the end first and the line is lost.\<close>

definition one_test :: "test_pc \<Rightarrow> thread_life \<Rightarrow> nat \<Rightarrow> log_world \<Rightarrow> log_test" where
  "one_test pc t l w = \<lparr>lt_main = pc, lt_threads = [t], lt_left = [l], lt_log = w\<rparr>"

lemma one_start:
  "start_move (tl_thread t) t' \<Longrightarrow>
    test_step env 1 ids (one_test (Starting_Thread 0) t l w) (one_test (Starting_Thread 0) (t\<lparr>tl_thread := t'\<rparr>) l w)"
  using test_step.start [of "one_test (Starting_Thread 0) t l w" 0 t'] by (simp add: one_test_def set_thread_def)

lemma one_run:
  "\<not> tl_deleted t \<Longrightarrow> run_step (ids 0) t t' \<Longrightarrow> tl_run t' = Finished \<longrightarrow> l = 0 \<Longrightarrow>
    test_step env 1 ids (one_test pc t l w) (one_test pc t' l w)"
  using test_step.run [of 0 1 "one_test pc t l w" ids t'] by (simp add: one_test_def set_thread_def)

lemma one_tail:
  assumes "parent (tl_thread t) = Returned" and "lw_q w = \<lparr>bq_queue = q, used = 1, capacity = 50000\<rparr>" and "lw_pc w = At_Loop"
    and "life_join t = Some (Inr t')"
  shows "(test_step env 1 ids)\<^sup>*\<^sup>* (one_test (Joining 0) t 0 w) (one_test Test_Done (delete_thread t') 0
    (w\<lparr>lw_over := True, lw_q := \<lparr>bq_queue = q @ [[]], used = 2, capacity = 50000\<rparr>, lw_in := lw_in w @ [[]],
      lw_pc := Writer_Done\<rparr>))"
proof -
  let ?w1 = "w\<lparr>lw_over := True\<rparr>" and ?q = "\<lparr>bq_queue = q @ [[]], used = 2, capacity = 50000\<rparr>"
  let ?w2 = "?w1\<lparr>lw_q := ?q, lw_in := lw_in ?w1 @ [[]]\<rparr>"
  let ?w3 = "?w2\<lparr>lw_pc := Writer_Done\<rparr>" and ?d = "delete_thread t'"
  have "test_step env 1 ids (one_test (Joining 0) t 0 w) (one_test Setting_Over ?d 0 w)"
    using test_step.join [of "one_test (Joining 0) t 0 w" 0 t' env 1 ids] assms(4) by (simp add: one_test_def set_thread_def)
  moreover have "test_step env 1 ids (one_test Setting_Over ?d 0 w) (one_test Pushing_Over ?d 0 ?w1)"
    using test_step.set_over [of "one_test Setting_Over ?d 0 w" env 1 ids] by (simp add: one_test_def)
  moreover have "test_step env 1 ids (one_test Pushing_Over ?d 0 ?w1) (one_test Joining_Writer ?d 0 ?w2)"
    using test_step.push_over [of "one_test Pushing_Over ?d 0 ?w1" ?q env 1 ids] assms(2)
    by (simp add: one_test_def bq_push_def)
  moreover have "log_step env ?w2 ?w3" using log_step.test [of ?w2 env] assms(3) by simp
  then have "test_step env 1 ids (one_test Joining_Writer ?d 0 ?w2) (one_test Joining_Writer ?d 0 ?w3)"
    using test_step.writer [of env "one_test Joining_Writer ?d 0 ?w2" ?w3 1 ids] by (simp add: one_test_def)
  moreover have "test_step env 1 ids (one_test Joining_Writer ?d 0 ?w3) (one_test Test_Done ?d 0 ?w3)"
    using test_step.join_writer [of "one_test Joining_Writer ?d 0 ?w3" env 1 ids] by (simp add: one_test_def)
  ultimately have "(test_step env 1 ids)\<^sup>*\<^sup>* (one_test (Joining 0) t 0 w) (one_test Test_Done ?d 0 ?w3)"
    by (meson rtranclp.rtrancl_into_rtrancl rtranclp.rtrancl_refl)
  then show ?thesis by simp
qed

definition started_life :: thread_life where
  "started_life = (new_life False)\<lparr>tl_thread := \<lparr>th_started = True, th_joined = False, th_detached = False,
     cond_num = 1, parent = Returned, child = Signalled\<rparr>, tl_run := Running, tl_tid := 7, tl_calls := 1\<rparr>"

lemma one_head:
  "(test_step env 1 (\<lambda>_. 7))\<^sup>*\<^sup>* (one_test (Starting_Thread 0) (new_life False) l w) (one_test (Joining 0) started_life l w)"
proof -
  let ?ids = "\<lambda>_ :: nat. 7 :: int" and ?S = "Starting_Thread 0"
  let ?t0 = "new_life False"
  let ?t1 = "?t0\<lparr>tl_thread := (new_thread False)\<lparr>th_started := True, parent := Test, child := Created\<rparr>\<rparr>"
  let ?t2 = "?t1\<lparr>tl_thread := run_count (tl_thread ?t1)\<rparr>"
  let ?t3 = "?t2\<lparr>tl_thread := start_test (tl_thread ?t2)\<rparr>"
  let ?t4 = "?t3\<lparr>tl_thread := run_signal (tl_thread ?t3)\<rparr>"
  let ?t5 = "?t4\<lparr>tl_tid := fst (gettid 7 0), tl_run := Running, tl_calls := tl_calls ?t4 + 1\<rparr>"
  have "test_step env 1 ?ids (one_test ?S ?t0 l w) (one_test ?S ?t1 l w)"
    by (rule one_start) (auto simp: new_life_def new_thread_def thread_ops intro!: start_move.create)
  moreover have "test_step env 1 ?ids (one_test ?S ?t1 l w) (one_test ?S ?t2 l w)"
    by (rule one_run [OF _ run_step.count]) (simp_all add: new_life_def)
  moreover have "test_step env 1 ?ids (one_test ?S ?t2 l w) (one_test ?S ?t3 l w)"
    by (rule one_start [OF start_move.test]) (simp add: thread_ops)
  moreover have "test_step env 1 ?ids (one_test ?S ?t3 l w) (one_test ?S ?t4 l w)"
    by (rule one_run [OF _ run_step.signal]) (simp_all add: new_life_def thread_ops)
  moreover have "test_step env 1 ?ids (one_test ?S ?t4 l w) (one_test ?S ?t5 l w)"
    by (rule one_run [OF _ run_step.call]) (simp_all add: new_life_def thread_ops)
  moreover have "?t5 = started_life" by (simp add: new_life_def new_thread_def thread_ops started_life_def gettid_def)
  moreover have "test_step env 1 ?ids (one_test ?S started_life l w) (one_test (Joining 0) started_life l w)"
    using test_step.started [of "one_test ?S started_life l w" 0 env 1 ?ids] by (simp add: one_test_def started_life_def)
  ultimately show ?thesis by (metis (no_types, lifting) rtranclp.rtrancl_into_rtrancl rtranclp.rtrancl_refl)
qed

lemma one_print:
  assumes "asylog lf"
  shows "\<exists>l w. (test_step demo_log_env 1 (\<lambda>_. 7))\<^sup>*\<^sup>* (one_test (Joining 0) started_life 1 (new_log_world 50000 lf))
      (one_test (Joining 0) (started_life\<lparr>tl_run := Finished\<rparr>) 0 w) \<and>
    w = (new_log_world 50000 lf)\<lparr>lw_q := \<lparr>bq_queue = [l], used = 1, capacity = 50000\<rparr>, lw_in := [l]\<rparr>"
proof -
  let ?w0 = "new_log_world 50000 lf"
  let ?st = "print_stm ''t.cc'' 7 (env_localtime demo_log_env 0) 6"
  let ?q = "\<lparr>bq_queue = [st_text ?st], used = 1, capacity = 50000\<rparr>"
  let ?v = "?w0\<lparr>lw_q := ?q, lw_in := [st_text ?st]\<rparr>"
  let ?g = "\<lparr>ls_globals = test_globals, ls_file = lw_file ?w0, ls_queue = lw_q ?w0, ls_stdout = []\<rparr>"
  have fits: "st_fits ?st" by code_simp
  have "st_enabled test_globals ?st" "g_output test_globals = File_Output"
    by (simp_all add: st_enabled_def test_globals_def setOuputFunc_def init_globals_def initLogLevel_def print_stm_def)
  moreover have "bq_push (st_text ?st) (lw_q ?w0) = Some ?q"
    by (simp add: bq_push_def new_log_world_def new_block_queue_def)
  ultimately have "log_call demo_log_env ?st ?g = Some (Inr (?g\<lparr>ls_queue := ?q\<rparr>))"
    using assms by (simp add: log_call_eq [OF fits] append_file_def new_log_world_def)
  then have "test_step demo_log_env 1 (\<lambda>_. 7) (one_test (Joining 0) started_life 1 ?w0) (one_test (Joining 0) started_life 0 ?v)"
    using test_step.print [where i = 0 and n = 1 and s = "one_test (Joining 0) started_life 1 ?w0" and k = 0 and st = ?st and
      src = "''t.cc''" and t = "env_localtime demo_log_env 0" and usec = 6 and env = demo_log_env and
      w = "?g\<lparr>ls_queue := ?q\<rparr>" and ids = "\<lambda>_. 7"] fits
    by (simp add: one_test_def started_life_def new_log_world_def)
  moreover have "test_step demo_log_env 1 (\<lambda>_. 7) (one_test (Joining 0) started_life 0 ?v)
      (one_test (Joining 0) (started_life\<lparr>tl_run := Finished\<rparr>) 0 ?v)"
    by (rule one_run [OF _ run_step.exit]) (simp_all add: started_life_def new_life_def)
  ultimately have "(test_step demo_log_env 1 (\<lambda>_. 7))\<^sup>*\<^sup>* (one_test (Joining 0) started_life 1 ?w0)
      (one_test (Joining 0) (started_life\<lparr>tl_run := Finished\<rparr>) 0 ?v)"
    by (meson rtranclp.rtrancl_into_rtrancl rtranclp.rtrancl_refl)
  then show ?thesis by blast
qed

theorem log_test_ends_witness:
  "\<exists>lf s l. test_log_file demo_log_env 100 = Inr lf \<and>
    (test_step demo_log_env 1 (\<lambda>_. 7))\<^sup>*\<^sup>* (new_log_test 1 1 lf) s \<and> lt_main s = Test_Done \<and>
    lw_in (lt_log s) = [l, []] \<and> test_line l \<and>
    concat (map snd (lf_closed (lw_file (lt_log s)))) @ lf_text (lw_file (lt_log s)) = []"
proof -
  obtain lf where lf: "test_log_file demo_log_env 100 = Inr lf" "asylog lf"
    by (simp add: test_log_file_def new_log_file_def rollFile_def demo_log_env_def close_file_def)
  let ?t = "started_life\<lparr>tl_run := Finished\<rparr>"
  let ?ids = "\<lambda>_ :: nat. 7 :: int"
  obtain l w where w: "(test_step demo_log_env 1 ?ids)\<^sup>*\<^sup>* (one_test (Joining 0) started_life 1 (new_log_world 50000 lf))
      (one_test (Joining 0) ?t 0 w)"
    "w = (new_log_world 50000 lf)\<lparr>lw_q := \<lparr>bq_queue = [l], used = 1, capacity = 50000\<rparr>, lw_in := [l]\<rparr>"
    using one_print [OF lf(2)] by blast
  let ?j = "?t\<lparr>tl_thread := (tl_thread ?t)\<lparr>th_joined := True\<rparr>\<rparr>"
  let ?s = "one_test Test_Done (delete_thread ?j) 0 (w\<lparr>lw_over := True, lw_q := \<lparr>bq_queue = [l] @ [[]], used = 2, capacity = 50000\<rparr>,
    lw_in := lw_in w @ [[]], lw_pc := Writer_Done\<rparr>)"
  have "(test_step demo_log_env 1 ?ids)\<^sup>*\<^sup>* (one_test (Joining 0) ?t 0 w) ?s"
    by (rule one_tail) (simp_all add: w(2) new_log_world_def started_life_def life_join_def thread_join_def)
  with one_head [of demo_log_env 1 "new_log_world 50000 lf"] w(1)
  have run: "(test_step demo_log_env 1 ?ids)\<^sup>*\<^sup>* (new_log_test 1 1 lf) ?s"
    by (simp add: new_log_test_def one_test_def)
  have s: "lt_main ?s = Test_Done" "lw_in (lt_log ?s) = [l, []]" "lw_out (lt_log ?s) = []"
    by (simp_all add: one_test_def w(2) new_log_world_def)
  from log_test_ends [OF lf(1) run s(1)] s(2,3) have "test_line l"
      "concat (map snd (lf_closed (lw_file (lt_log ?s)))) @ lf_text (lw_file (lt_log ?s)) = []"
    by auto
  with lf(1) run s(1,2) show ?thesis by blast
qed

end
