(* ===== verification/CStrings.thy ===== *)
theory CStrings
  imports CText
begin

text \<open>
  Strings of C: the searches and conversions of \<open>string.h\<close> and \<open>stdlib.h\<close> that the load generator
  uses, and arrays of characters of a fixed size that hold a string up to its first NUL. Writing
  beyond the end of an array is the fault \<open>Overrun\<close>, and reading a string from an array
  without a NUL is \<open>Bad_Range\<close>.
\<close>

subsection \<open>Searches and conversions\<close>

definition strchr :: "char \<Rightarrow> string \<Rightarrow> nat option" where
  "strchr c s = (let i = find_char c s in if i < length s then Some i else None)"

definition strrchr :: "char \<Rightarrow> string \<Rightarrow> nat option" where
  "strrchr c s = (let i = find_char c (rev s) in if i < length s then Some (length s - 1 - i) else None)"

fun strstr :: "string \<Rightarrow> string \<Rightarrow> nat option" where
  "strstr t [] = (if t = [] then Some 0 else None)"
| "strstr t (c # s) = (if take (length t) (c # s) = t then Some 0 else map_option Suc (strstr t s))"

definition tolower :: "char \<Rightarrow> char" where
  "tolower c = (let n = of_char c :: nat in if 65 \<le> n \<and> n \<le> 90 then char_of (n + 32) else c)"

text \<open>\<open>strncasecmp\<close> returns zero.\<close>

definition strncasecmp_eq :: "string \<Rightarrow> string \<Rightarrow> nat \<Rightarrow> bool" where
  "strncasecmp_eq s t n \<longleftrightarrow> map tolower (take n s) = map tolower (take n t)"

text \<open>No digits give 0; what does not fit into an \<open>int\<close> is undefined.\<close>

definition atoi :: "string \<Rightarrow> int result" where
  "atoi s =
     (case stoi s of
        Inr v \<Rightarrow> Inr v
      | Inl e \<Rightarrow> if e = Invalid_Argument then Inr 0 else Inl Int_Overflow)"

text \<open>Signed addition.\<close>

definition int_add :: "int \<Rightarrow> int \<Rightarrow> int result" where
  "int_add a b = (if int_min \<le> a + b \<and> a + b \<le> int_max then Inr (a + b) else Inl Int_Overflow)"

lemma int_add_Inr [res_simps]: "int_add a b = Inr c \<longleftrightarrow> int_min \<le> a + b \<and> a + b \<le> int_max \<and> c = a + b"
  by (auto simp: int_add_def)

lemma strchr_first: "c \<notin> set s \<Longrightarrow> strchr c (s @ c # t) = Some (length s)"
  by (simp add: strchr_def)

lemma strchr_absent: "c \<notin> set s \<Longrightarrow> strchr c s = None"
  by (simp add: strchr_def find_char_absent)

lemma strrchr_last: "c \<notin> set t \<Longrightarrow> strrchr c (s @ c # t) = Some (length s)"
  by (simp add: strrchr_def)

lemma strrchr_absent: "c \<notin> set s \<Longrightarrow> strrchr c s = None"
  by (simp add: strrchr_def find_char_absent)

lemma strstr_Some: "strstr t s = Some i \<Longrightarrow> i + length t \<le> length s \<and> slice i (i + length t) s = t"
proof (induction s arbitrary: i)
  case (Cons c s)
  show ?case
  proof (cases "take (length t) (c # s) = t")
    case True
    with Cons.prems have "i = 0" by simp
    moreover have "length t \<le> length (c # s)" using arg_cong [OF True, of length] by simp
    ultimately show ?thesis using True by (simp add: slice_def)
  next
    case False
    with Cons.prems obtain j where "strstr t s = Some j" "i = Suc j" by auto
    with Cons.IH [of j] show ?thesis by (simp add: slice_def)
  qed
qed (simp add: slice_def split: if_splits)

lemma atoi_dec_int: "int_min \<le> i \<Longrightarrow> i \<le> int_max \<Longrightarrow> atoi (dec_int i) = Inr i"
  by (simp add: atoi_def stoi_dec_int)

subsection \<open>Arrays\<close>

definition zero_array :: "nat \<Rightarrow> string" where
  "zero_array n = replicate n NUL"

definition array_str :: "string \<Rightarrow> string result" where
  "array_str a = (if NUL \<in> set a then Inr (c_str a) else Inl Bad_Range)"

definition strcpy :: "string \<Rightarrow> string \<Rightarrow> string result" where
  "strcpy s a = (if length s < length a then Inr (overwrite 0 (s @ [NUL]) a) else Inl Overrun)"

definition strcat :: "string \<Rightarrow> string \<Rightarrow> string result" where
  "strcat s a = res_bind (array_str a) (\<lambda>t.
     if length t + length s < length a then Inr (overwrite (length t) (s @ [NUL]) a) else Inl Overrun)"

text \<open>\<open>strncpy\<close> always writes \<open>n\<close> bytes, with NULs behind the end of the string.\<close>

definition strncpy :: "string \<Rightarrow> nat \<Rightarrow> string \<Rightarrow> string result" where
  "strncpy s n a =
     (if n \<le> length a then Inr (overwrite 0 (take n (s @ replicate n NUL)) a) else Inl Overrun)"

text \<open>The array has the string \<open>t\<close> in it.\<close>

definition holds_str :: "string \<Rightarrow> string \<Rightarrow> bool" where
  "holds_str a t \<longleftrightarrow> NUL \<notin> set t \<and> (\<exists>rest. a = t @ NUL # rest)"

lemma holds_str_zero: "0 < n \<Longrightarrow> holds_str (zero_array n) []"
  by (cases n) (simp_all add: holds_str_def zero_array_def)

lemma c_str_NUL [simp]: "NUL \<notin> set t \<Longrightarrow> c_str (t @ NUL # rest) = t"
  by (induction t) (auto simp: c_str_def)

lemma array_str_holds: "holds_str a t \<Longrightarrow> array_str a = Inr t"
  by (auto simp: holds_str_def array_str_def)

lemma array_str_eq: "array_str a = Inr t \<longleftrightarrow> holds_str a t"
proof
  assume a: "array_str a = Inr t"
  then have "NUL \<in> set a" and t: "t = c_str a" by (auto simp: array_str_def split: if_splits)
  then obtain u rest where "a = u @ NUL # rest" "NUL \<notin> set u" by (metis split_list_first)
  then show "holds_str a t" unfolding t by (simp add: holds_str_def)
qed (rule array_str_holds)

lemma length_strcat: "strcat s a = Inr a' \<Longrightarrow> length a' = length a"
  by (auto simp: strcat_def overwrite_def res_simps split: if_splits)

lemma strcat_holds:
  assumes "holds_str a t" and "NUL \<notin> set s" and "length t + length s < length a"
  shows "\<exists>a'. strcat s a = Inr a' \<and> holds_str a' (t @ s) \<and> length a' = length a"
proof -
  have "strcat s a = Inr (overwrite (length t) (s @ [NUL]) a)"
    using assms(3) by (simp add: strcat_def array_str_holds [OF assms(1)])
  moreover obtain rest where "a = t @ NUL # rest" using assms(1) by (auto simp: holds_str_def)
  ultimately show ?thesis
    using assms by (auto simp: holds_str_def overwrite_def)
qed

lemma strcat_overrun:
  assumes "holds_str a t" and "length a \<le> length t + length s"
  shows "strcat s a = Inl Overrun"
  using assms by (simp add: strcat_def array_str_holds)

lemma strcpy_holds:
  assumes "NUL \<notin> set s" and "length s < length a"
  shows "\<exists>a'. strcpy s a = Inr a' \<and> holds_str a' s \<and> length a' = length a"
  using assms by (auto simp: strcpy_def holds_str_def overwrite_def)

lemma strncpy_zero:
  assumes "NUL \<notin> set s" and "n \<le> length s"
  shows "strncpy s n (zero_array k) =
    (if n \<le> k then Inr (take n s @ replicate (k - n) NUL) else Inl Overrun)"
  using assms(2) by (simp add: strncpy_def zero_array_def overwrite_def)

lemma array_str_padded:
  assumes "NUL \<notin> set t"
  shows "array_str (t @ replicate k NUL) = (if k = 0 then Inl Bad_Range else Inr t)"
  using assms by (cases k) (simp_all add: array_str_def)

end
