(* ===== verification/Webbench.thy ===== *)
theory Webbench
  imports CStrings Sockets
begin

text \<open>
  \<open>test_presure/webbench-1.5\<close>: the load generator that the README's figures come from. The globals
  of \<open>webbench.c\<close> are a record; \<open>host\<close> and \<open>request\<close> are arrays of their declared size. What
  \<open>getopt_long\<close>, the resolver and the system calls answer is an argument. Leaving the process,
  by \<open>exit\<close> or by \<open>return\<close> from \<open>main\<close> before the benchmark, is the fault \<open>Exit\<close> with the code.
\<close>

subsection \<open>Globals\<close>

definition METHOD_GET :: int where "METHOD_GET = 0"
definition METHOD_HEAD :: int where "METHOD_HEAD = 1"
definition METHOD_OPTIONS :: int where "METHOD_OPTIONS = 2"
definition METHOD_TRACE :: int where "METHOD_TRACE = 3"

definition MAXHOSTNAMELEN :: nat where "MAXHOSTNAMELEN = 64"
definition REQUEST_SIZE :: nat where "REQUEST_SIZE = 2048"

definition PROGRAM_VERSION :: string where "PROGRAM_VERSION = ''1.5''"

record webbench =
  wb_speed :: int
  wb_failed :: int
  wb_bytes :: int
  wb_http10 :: int             \<comment> \<open>0 for HTTP/0.9, 1 for HTTP/1.0, 2 for HTTP/1.1\<close>
  wb_method :: int
  wb_clients :: int
  wb_force :: int
  wb_force_reload :: int
  wb_proxyport :: int
  wb_proxyhost :: "string option"
  wb_benchtime :: int
  wb_host :: string
  wb_request :: string
  wb_open :: "int list"        \<comment> \<open>the descriptors of sockets that are open\<close>

definition new_webbench :: webbench where
  "new_webbench = \<lparr>wb_speed = 0, wb_failed = 0, wb_bytes = 0, wb_http10 = 1, wb_method = METHOD_GET,
     wb_clients = 1, wb_force = 0, wb_force_reload = 0, wb_proxyport = 80, wb_proxyhost = None,
     wb_benchtime = 30, wb_host = zero_array MAXHOSTNAMELEN, wb_request = zero_array REQUEST_SIZE, wb_open = []\<rparr>"

subsection \<open>Options\<close>

text \<open>
  What one call of \<open>getopt_long\<close> has found: a long option that sets a variable, which it has then
  done and answers 0, or the letter of an option with its argument.
\<close>

datatype long_flag = Long_Force | Long_Reload | Long_Get | Long_Head | Long_Options | Long_Trace

datatype found_option = Flag long_flag | Letter char string

fun long_options :: "long_flag \<Rightarrow> webbench \<Rightarrow> webbench" where
  "long_options Long_Force w = w\<lparr>wb_force := 1\<rparr>"
| "long_options Long_Reload w = w\<lparr>wb_force_reload := 1\<rparr>"
| "long_options Long_Get w = w\<lparr>wb_method := METHOD_GET\<rparr>"
| "long_options Long_Head w = w\<lparr>wb_method := METHOD_HEAD\<rparr>"
| "long_options Long_Options w = w\<lparr>wb_method := METHOD_OPTIONS\<rparr>"
| "long_options Long_Trace w = w\<lparr>wb_method := METHOD_TRACE\<rparr>"

definition proxy_option :: "string \<Rightarrow> webbench \<Rightarrow> webbench result" where
  "proxy_option optarg w =
     (case strrchr (CHR '':'') optarg of
        None \<Rightarrow> Inr (w\<lparr>wb_proxyhost := Some optarg\<rparr>)
      | Some tmp \<Rightarrow>
          if tmp = 0 then Inl (Exit 2)
          else if tmp = length optarg - 1 then Inl (Exit 2)
          else res_map (\<lambda>port. w\<lparr>wb_proxyhost := Some (take tmp optarg), wb_proxyport := port\<rparr>)
            (atoi (drop (tmp + 1) optarg)))"

definition one_option :: "found_option \<Rightarrow> webbench \<Rightarrow> webbench result" where
  "one_option opt w =
     (case opt of
        Flag f \<Rightarrow> Inr (long_options f w)
      | Letter c optarg \<Rightarrow>
          if c = CHR ''f'' then Inr (w\<lparr>wb_force := 1\<rparr>)
          else if c = CHR ''r'' then Inr (w\<lparr>wb_force_reload := 1\<rparr>)
          else if c = CHR ''9'' then Inr (w\<lparr>wb_http10 := 0\<rparr>)
          else if c = CHR ''1'' then Inr (w\<lparr>wb_http10 := 1\<rparr>)
          else if c = CHR ''2'' then Inr (w\<lparr>wb_http10 := 2\<rparr>)
          else if c = CHR ''V'' then Inl (Exit 0)
          else if c = CHR ''t'' then res_map (\<lambda>n. w\<lparr>wb_benchtime := n\<rparr>) (atoi optarg)
          else if c = CHR ''p'' then proxy_option optarg w
          else if c \<in> set '':h?'' then Inl (Exit 2)
          else if c = CHR ''c'' then res_map (\<lambda>n. w\<lparr>wb_clients := n\<rparr>) (atoi optarg)
          else Inr w)"

fun all_options :: "found_option list \<Rightarrow> webbench \<Rightarrow> webbench result" where
  "all_options [] w = Inr w"
| "all_options (opt # opts) w = res_bind (one_option opt w) (all_options opts)"

subsection \<open>The request\<close>

definition fit_version :: "webbench \<Rightarrow> int" where
  "fit_version w =
     (let h0 = wb_http10 w;
          h1 = (if wb_force_reload w \<noteq> 0 \<and> wb_proxyhost w \<noteq> None \<and> h0 < 1 then 1 else h0);
          h2 = (if wb_method w = METHOD_HEAD \<and> h1 < 1 then 1 else h1);
          h3 = (if wb_method w = METHOD_OPTIONS \<and> h2 < 2 then 2 else h2)
      in if wb_method w = METHOD_TRACE \<and> h3 < 2 then 2 else h3)"

definition method_word :: "int \<Rightarrow> string" where
  "method_word m =
     (if m = METHOD_HEAD then ''HEAD'' else if m = METHOD_OPTIONS then ''OPTIONS''
      else if m = METHOD_TRACE then ''TRACE'' else ''GET'')"

definition add_text :: "string \<Rightarrow> webbench \<Rightarrow> webbench result" where
  "add_text s w = res_map (\<lambda>a. w\<lparr>wb_request := a\<rparr>) (strcat s (wb_request w))"

definition add_if :: "bool \<Rightarrow> string \<Rightarrow> webbench \<Rightarrow> webbench result" where
  "add_if b s w = (if b then add_text s w else Inr w)"

text \<open>Host and port from what follows the protocol of the URL.\<close>

definition take_host :: "string \<Rightarrow> webbench \<Rightarrow> webbench result" where
  "take_host rest w =
     (let colon = find_char (CHR '':'') rest; slash = find_char (CHR ''/'') rest
      in if strchr (CHR '':'') rest \<noteq> None \<and> colon < slash
         then res_bind (strncpy rest colon (wb_host w)) (\<lambda>h.
              res_bind (strncpy (drop (colon + 1) rest) (slash - colon - 1) (zero_array 10)) (\<lambda>tmp.
              res_bind (array_str tmp) (\<lambda>t.
              res_map (\<lambda>port. w\<lparr>wb_host := h, wb_proxyport := if port = 0 then 80 else port\<rparr>) (atoi t))))
         else res_map (\<lambda>h. w\<lparr>wb_host := h\<rparr>) (strncpy rest slash (wb_host w)))"

text \<open>The target and the header lines.\<close>

definition add_target :: "string \<Rightarrow> string \<Rightarrow> webbench \<Rightarrow> webbench result" where
  "add_target url rest w =
     (if wb_proxyhost w = None
      then res_bind (take_host rest w) (add_text (drop (find_char (CHR ''/'') rest) rest))
      else add_text url w)"

definition add_host :: "webbench \<Rightarrow> webbench result" where
  "add_host w =
     res_bind (add_text ''Host: '' w) (\<lambda>w.
     res_bind (array_str (wb_host w)) (\<lambda>host.
     res_bind (add_text host w) (add_text crlf)))"

definition add_headers :: "webbench \<Rightarrow> webbench result" where
  "add_headers w =
     (let h = wb_http10 w; direct = (wb_proxyhost w = None) in
      res_bind (if h = 1 then add_text '' HTTP/1.0'' w else add_if (h = 2) '' HTTP/1.1'' w) (\<lambda>w.
      res_bind (add_text crlf w) (\<lambda>w.
      res_bind (add_if (h > 0) (''User-Agent: WebBench '' @ PROGRAM_VERSION @ crlf) w) (\<lambda>w.
      res_bind (if direct \<and> h > 0 then add_host w else Inr w) (\<lambda>w.
      res_bind (add_if (wb_force_reload w \<noteq> 0 \<and> \<not> direct) (''Pragma: no-cache'' @ crlf) w) (\<lambda>w.
      res_bind (add_if (h > 1) (''Connection: close'' @ crlf) w) (\<lambda>w.
      add_if (h > 0) crlf w)))))))"

definition build_request :: "string \<Rightarrow> webbench \<Rightarrow> webbench result" where
  "build_request url w0 =
     (let w = w0\<lparr>wb_host := zero_array MAXHOSTNAMELEN, wb_request := zero_array REQUEST_SIZE, wb_http10 := fit_version w0\<rparr> in
      res_bind (strcpy (method_word (wb_method w)) (wb_request w)) (\<lambda>a.
      res_bind (add_text '' '' (w\<lparr>wb_request := a\<rparr>)) (\<lambda>w.
        case strstr ''://'' url of
          None \<Rightarrow> Inl (Exit 2)
        | Some p \<Rightarrow>
            let rest = drop (p + 3) url
            in if length url > 1500 then Inl (Exit 2)
               else if wb_proxyhost w = None \<and> \<not> strncasecmp_eq ''http://'' url 7 then Inl (Exit 2)
               else if strchr (CHR ''/'') rest = None then Inl (Exit 2)
               else res_bind (add_target url rest w) add_headers)))"

subsection \<open>What is built\<close>

text \<open>The request that is meant: what stands behind the target, and the whole.\<close>

definition header_text :: "webbench \<Rightarrow> string \<Rightarrow> string" where
  "header_text w host =
     (let h = wb_http10 w; direct = (wb_proxyhost w = None) in
      (if h = 1 then '' HTTP/1.0'' else if h = 2 then '' HTTP/1.1'' else []) @ crlf @
      (if h > 0 then ''User-Agent: WebBench '' @ PROGRAM_VERSION @ crlf else []) @
      (if direct \<and> h > 0 then ''Host: '' @ host @ crlf else []) @
      (if wb_force_reload w \<noteq> 0 \<and> \<not> direct then ''Pragma: no-cache'' @ crlf else []) @
      (if h > 1 then ''Connection: close'' @ crlf else []) @ (if h > 0 then crlf else []))"

definition request_text :: "webbench \<Rightarrow> string \<Rightarrow> string \<Rightarrow> string" where
  "request_text w target host =
     method_word (wb_method w) @ '' '' @ target @ header_text (w\<lparr>wb_http10 := fit_version w\<rparr>) host"

definition with_text :: "webbench \<Rightarrow> string \<Rightarrow> webbench \<Rightarrow> bool" where
  "with_text w t w' \<longleftrightarrow> (\<exists>a. w' = w\<lparr>wb_request := a\<rparr> \<and> holds_str a t \<and> length a = REQUEST_SIZE)"

definition texts :: "webbench \<Rightarrow> string \<Rightarrow> webbench result \<Rightarrow> bool" where
  "texts w t m \<longleftrightarrow> (\<exists>w'. m = Inr w' \<and> with_text w t w')"

lemma texts_bind: "texts w t m \<Longrightarrow> (\<And>w1. with_text w t w1 \<Longrightarrow> texts w t' (f w1)) \<Longrightarrow> texts w t' (res_bind m f)"
  by (auto simp: texts_def)

lemma texts_Inr: "with_text w t w1 \<Longrightarrow> t' = t \<Longrightarrow> texts w t' (Inr w1)"
  by (simp add: texts_def)

lemma texts_add:
  assumes "with_text w t w1" and "NUL \<notin> set s" and "length t + length s < REQUEST_SIZE" and "t' = t @ s"
  shows "texts w t' (add_text s w1)"
proof -
  obtain a where a: "w1 = w\<lparr>wb_request := a\<rparr>" "holds_str a t" "length a = REQUEST_SIZE"
    using assms(1) by (auto simp: with_text_def)
  obtain a' where "strcat s a = Inr a'" "holds_str a' (t @ s)" "length a' = length a"
    using strcat_holds [OF a(2) assms(2)] assms(3) a(3) by auto
  then show ?thesis by (auto simp: texts_def with_text_def add_text_def a assms(4))
qed

lemma texts_add_if:
  assumes "with_text w t w1" and "NUL \<notin> set s" and "length t + length s < REQUEST_SIZE"
    and "t' = t @ (if b then s else [])"
  shows "texts w t' (add_if b s w1)"
  using texts_add [OF assms(1-3) refl] texts_Inr [OF assms(1) refl] assms(4) by (simp add: add_if_def)

lemma with_text_fields:
  "with_text w t w1 \<Longrightarrow> wb_http10 w1 = wb_http10 w \<and> wb_proxyhost w1 = wb_proxyhost w \<and>
    wb_host w1 = wb_host w \<and> wb_force_reload w1 = wb_force_reload w"
  by (auto simp: with_text_def)

lemma add_host_ok:
  assumes "with_text w t w1" and "holds_str (wb_host w) host" and "length t + length host < 2000"
  shows "texts w (t @ ''Host: '' @ host @ crlf) (add_host w1)"
proof -
  have host: "array_str (wb_host w) = Inr host" "NUL \<notin> set host"
    using assms(2) array_str_holds by (auto simp: holds_str_def)
  have 1: "texts w (t @ ''Host: '') (add_text ''Host: '' w1)"
    using assms(3) by (intro texts_add [OF assms(1)]) (simp_all add: REQUEST_SIZE_def)
  have 2: "texts w (t @ ''Host: '' @ host) (add_text host w2)" if "with_text w (t @ ''Host: '') w2" for w2
    using assms(3) host(2) by (intro texts_add [OF that]) (simp_all add: REQUEST_SIZE_def)
  have 3: "texts w (t @ ''Host: '' @ host @ crlf) (add_text crlf w2)" if "with_text w (t @ ''Host: '' @ host) w2" for w2
    using assms(3) by (intro texts_add [OF that]) (simp_all add: REQUEST_SIZE_def)
  have 4: "texts w (t @ ''Host: '' @ host @ crlf)
      (res_bind (array_str (wb_host w2)) (\<lambda>host. res_bind (add_text host w2) (add_text crlf)))"
    if w2: "with_text w (t @ ''Host: '') w2" for w2
    using texts_bind [OF 2 [OF w2] 3] with_text_fields [OF w2] by (simp add: host(1))
  show ?thesis unfolding add_host_def by (rule texts_bind [OF 1 4])
qed

lemma add_headers_ok:
  assumes "with_text w t w1" and "holds_str (wb_host w) host \<or> wb_proxyhost w \<noteq> None \<or> wb_http10 w \<le> 0"
    and "length t + length host < 1700"
  shows "texts w (t @ header_text w host) (add_headers w1)"
proof -
  define h where "h = wb_http10 w"
  define direct where "direct = (wb_proxyhost w = None)"
  define l where "l = (if h = 1 then '' HTTP/1.0'' else if h = 2 then '' HTTP/1.1'' else [])"
  define u where "u = (if h > 0 then ''User-Agent: WebBench '' @ PROGRAM_VERSION @ crlf else [])"
  define o1 where "o1 = (if direct \<and> h > 0 then ''Host: '' @ host @ crlf else [])"
  define p where "p = (if wb_force_reload w \<noteq> 0 \<and> \<not> direct then ''Pragma: no-cache'' @ crlf else [])"
  define c where "c = (if h > 1 then ''Connection: close'' @ crlf else [])"
  define e where "e = (if h > 0 then crlf else [])"
  have "length l \<le> 9" "length u \<le> 26" "length o1 \<le> length host + 8" "length p \<le> 18" "length c \<le> 19" "length e \<le> 2"
    by (simp_all add: l_def u_def o1_def p_def c_def e_def PROGRAM_VERSION_def)
  note room = this assms(3) REQUEST_SIZE_def
  have f: "wb_http10 w1 = h" "(wb_proxyhost w1 = None) = direct"
    using with_text_fields [OF assms(1)] by (simp_all add: h_def direct_def)
  have 1: "texts w (t @ l) (if h = 1 then add_text '' HTTP/1.0'' w1 else add_if (h = 2) '' HTTP/1.1'' w1)"
    using room by (auto simp: l_def intro!: texts_add texts_add_if assms(1))
  have 2: "texts w (t @ l @ crlf) (add_text crlf w2)" if "with_text w (t @ l) w2" for w2
    using room by (intro texts_add [OF that]) simp_all
  have 3: "texts w (t @ l @ crlf @ u) (add_if (h > 0) (''User-Agent: WebBench '' @ PROGRAM_VERSION @ crlf) w2)"
    if "with_text w (t @ l @ crlf) w2" for w2
    using room by (intro texts_add_if [OF that]) (simp_all add: u_def PROGRAM_VERSION_def)
  have 4: "texts w (t @ l @ crlf @ u @ o1) (if direct \<and> h > 0 then add_host w2 else Inr w2)"
    if "with_text w (t @ l @ crlf @ u) w2" for w2
    using add_host_ok [OF that] texts_Inr [OF that] assms(2) room by (auto simp: o1_def direct_def h_def)
  have 5: "texts w (t @ l @ crlf @ u @ o1 @ p) (add_if (wb_force_reload w2 \<noteq> 0 \<and> \<not> direct) (''Pragma: no-cache'' @ crlf) w2)"
    if "with_text w (t @ l @ crlf @ u @ o1) w2" for w2
    using room with_text_fields [OF that] by (intro texts_add_if [OF that]) (simp_all add: p_def)
  have 6: "texts w (t @ l @ crlf @ u @ o1 @ p @ c) (add_if (h > 1) (''Connection: close'' @ crlf) w2)"
    if "with_text w (t @ l @ crlf @ u @ o1 @ p) w2" for w2
    using room by (intro texts_add_if [OF that]) (simp_all add: c_def)
  have 7: "texts w (t @ l @ crlf @ u @ o1 @ p @ c @ e) (add_if (h > 0) crlf w2)"
    if "with_text w (t @ l @ crlf @ u @ o1 @ p @ c) w2" for w2
    using room by (intro texts_add_if [OF that]) (simp_all add: e_def)
  have "texts w (t @ l @ crlf @ u @ o1 @ p @ c @ e) (add_headers w1)"
    unfolding add_headers_def Let_def f
    by (rule texts_bind [OF 1], rule texts_bind [OF 2], assumption, rule texts_bind [OF 3], assumption,
        rule texts_bind [OF 4], assumption, rule texts_bind [OF 5], assumption, rule texts_bind [OF 6], assumption,
        rule 7)
  moreover have "header_text w host = l @ crlf @ u @ o1 @ p @ c @ e"
    by (simp only: header_text_def Let_def h_def direct_def l_def u_def o1_def p_def c_def e_def)
  ultimately show ?thesis by simp
qed

subsection \<open>Which URLs are accepted, and which do harm\<close>

lemma digits_val_bound: "\<forall>c \<in> set s. isdigit c \<Longrightarrow> digits_val s < 10 ^ length s"
proof (induction s rule: rev_induct)
  case (snoc c s)
  then have "digits_val s < 10 ^ length s" "(of_char c :: nat) - 48 \<le> 9" by (auto simp: isdigit_def)
  then have "10 * digits_val s + ((of_char c :: nat) - 48) < 10 * 10 ^ length s" by linarith
  then show ?case by (simp add: digits_val_def)
qed (simp add: digits_val_def)

text \<open>A short text is never out of range.\<close>

lemma atoi_short:
  assumes "length s \<le> 9"
  shows "\<exists>v. atoi s = Inr v"
proof -
  define s1 where "s1 = dropWhile isspace s"
  define s2 where "s2 = (if s1 \<noteq> [] \<and> (hd s1 = CHR ''-'' \<or> hd s1 = CHR ''+'') then tl s1 else s1)"
  define ds where "ds = takeWhile isdigit s2"
  define v where "v = (if s1 \<noteq> [] \<and> hd s1 = CHR ''-'' then - int (digits_val ds) else int (digits_val ds))"
  have "length ds \<le> length s2" "length s2 \<le> length s1" "length s1 \<le> length s"
    by (auto simp: ds_def s2_def s1_def length_takeWhile_le length_dropWhile_le)
  then have "(10 :: nat) ^ length ds \<le> 10 ^ 9" using assms by (intro power_increasing) auto
  moreover have "digits_val ds < 10 ^ length ds"
    by (rule digits_val_bound) (auto simp: ds_def dest: set_takeWhileD)
  ultimately have "int_min \<le> v \<and> v \<le> int_max" by (simp add: v_def)
  moreover have "stoi s = (if ds = [] then Inl Invalid_Argument
      else if int_min \<le> v \<and> v \<le> int_max then Inr v else Inl Out_Of_Range)"
    by (simp only: stoi_def Let_def v_def ds_def s2_def s1_def)
  ultimately show ?thesis by (simp add: atoi_def)
qed

lemma tolower_scheme:
  "tolower c = CHR '':'' \<longleftrightarrow> c = CHR '':''" "tolower c = CHR ''/'' \<longleftrightarrow> c = CHR ''/''"
proof -
  have "\<forall>c. (tolower c = CHR '':'' \<longleftrightarrow> c = CHR '':'') \<and> (tolower c = CHR ''/'' \<longleftrightarrow> c = CHR ''/'')" by code_simp
  then show "tolower c = CHR '':'' \<longleftrightarrow> c = CHR '':''" "tolower c = CHR ''/'' \<longleftrightarrow> c = CHR ''/''" by blast+
qed

text \<open>The protocol is compared without case; then the delimiter is where it is expected.\<close>

lemma seven_chars: "length s = 7 \<Longrightarrow> \<exists>c0 c1 c2 c3 c4 c5 c6. s = [c0, c1, c2, c3, c4, c5, c6]"
  by (auto simp: numeral_eq_Suc length_Suc_conv)

lemma url_scheme:
  assumes "strncasecmp_eq ''http://'' url 7"
  shows "strstr ''://'' url = Some 4"
proof -
  have url: "map tolower (take 7 url) = ''http://''"
    using assms by (simp add: strncasecmp_eq_def tolower_def)
  then have "length (map tolower (take 7 url)) = 7" by (simp only:) simp
  then have "length (take 7 url) = 7" by (simp only: length_map)
  from seven_chars [OF this] obtain c0 c1 c2 c3 c4 c5 c6 where seven: "take 7 url = [c0, c1, c2, c3, c4, c5, c6]"
    by blast
  have t: "url = c0 # c1 # c2 # c3 # c4 # c5 # c6 # drop 7 url"
    using append_take_drop_id [of 7 url, symmetric] unfolding seven by (simp only: append_Cons append_Nil)
  have low: "tolower c0 = CHR ''h''" "tolower c1 = CHR ''t''" "tolower c2 = CHR ''t''" "tolower c3 = CHR ''p''"
      "tolower c4 = CHR '':''" "tolower c5 = CHR ''/''" "tolower c6 = CHR ''/''"
    using url unfolding seven by simp_all
  have "c0 \<noteq> CHR '':''" using low(1) tolower_scheme(1) [of c0] by simp
  moreover have "c1 \<noteq> CHR '':''" using low(2) tolower_scheme(1) [of c1] by simp
  moreover have "c2 \<noteq> CHR '':''" using low(3) tolower_scheme(1) [of c2] by simp
  moreover have "c3 \<noteq> CHR '':''" using low(4) tolower_scheme(1) [of c3] by simp
  moreover have "c4 = CHR '':''" "c5 = CHR ''/''" "c6 = CHR ''/''"
    using low(5) low(6,7) tolower_scheme(1) [of c4] tolower_scheme(2) [of c5] tolower_scheme(2) [of c6] by simp_all
  ultimately have "strstr ''://'' (c0 # c1 # c2 # c3 # c4 # c5 # c6 # drop 7 url) = Some 4" by simp
  then show ?thesis by (simp only: t [symmetric])
qed

definition url_ok :: "string \<Rightarrow> bool" where
  "url_ok url \<longleftrightarrow> length url \<le> 1500 \<and> strncasecmp_eq ''http://'' url 7 \<and> CHR ''/'' \<in> set (drop 7 url)"

text \<open>Host, port and target of what stands behind \<open>http://\<close>.\<close>

definition url_slash :: "string \<Rightarrow> nat" where
  "url_slash rest = find_char (CHR ''/'') rest"

definition has_port :: "string \<Rightarrow> bool" where
  "has_port rest \<longleftrightarrow> find_char (CHR '':'') rest < url_slash rest"

definition url_host :: "string \<Rightarrow> string" where
  "url_host rest = take (min (find_char (CHR '':'') rest) (url_slash rest)) rest"

definition url_port :: "string \<Rightarrow> string" where
  "url_port rest =
     (let colon = find_char (CHR '':'') rest in take (url_slash rest - colon - 1) (drop (colon + 1) rest))"

definition url_target :: "string \<Rightarrow> string" where
  "url_target rest = drop (url_slash rest) rest"

definition port_number :: "string \<Rightarrow> int \<Rightarrow> int" where
  "port_number rest old =
     (if has_port rest then case atoi (url_port rest) of Inr v \<Rightarrow> if v = 0 then 80 else v | Inl e \<Rightarrow> 0 else old)"

lemma take_host_cases:
  assumes "wb_host w = zero_array MAXHOSTNAMELEN" and "NUL \<notin> set rest"
  shows "take_host rest w =
    (if 64 < length (url_host rest) \<or> has_port rest \<and> 10 < length (url_port rest) then Inl Overrun
     else if has_port rest \<and> length (url_port rest) = 10 then Inl Bad_Range
     else Inr (w\<lparr>wb_host := url_host rest @ replicate (64 - length (url_host rest)) NUL,
       wb_proxyport := port_number rest (wb_proxyport w)\<rparr>))"
proof (cases "has_port rest")
  case False
  then have h: "url_host rest = take (url_slash rest) rest" by (simp add: url_host_def has_port_def min_def)
  then have len: "length (url_host rest) = url_slash rest" by (simp add: url_slash_def min_absorb2)
  have "take_host rest w = res_map (\<lambda>h. w\<lparr>wb_host := h\<rparr>) (strncpy rest (url_slash rest) (wb_host w))"
    using False by (simp add: take_host_def has_port_def url_slash_def Let_def)
  then show ?thesis
    using False assms len
    by (simp add: strncpy_zero MAXHOSTNAMELEN_def h port_number_def)
next
  case True
  define colon slash where "colon = find_char (CHR '':'') rest" and "slash = url_slash rest"
  have lt: "colon < slash" "slash \<le> length rest"
    using True by (simp_all add: colon_def slash_def has_port_def url_slash_def)
  have h: "url_host rest = take colon rest" "url_port rest = take (slash - colon - 1) (drop (colon + 1) rest)"
    using lt by (simp_all add: url_host_def url_port_def Let_def colon_def [symmetric] slash_def [symmetric])
  have len: "length (url_host rest) = colon" "length (url_port rest) = slash - colon - 1"
    using lt by (simp_all add: h)
  have nul: "NUL \<notin> set (url_port rest)" "NUL \<notin> set (drop (colon + 1) rest)"
    using assms(2) by (auto simp: h dest: in_set_takeD in_set_dropD)
  have port: "strncpy (drop (colon + 1) rest) (slash - colon - 1) (zero_array 10) =
      (if slash - colon - 1 \<le> 10 then Inr (url_port rest @ replicate (10 - (slash - colon - 1)) NUL) else Inl Overrun)"
    using strncpy_zero [OF nul(2), of "slash - colon - 1" 10] lt unfolding h(2) by simp
  have run: "take_host rest w = res_bind (strncpy rest colon (wb_host w)) (\<lambda>h.
      res_bind (strncpy (drop (colon + 1) rest) (slash - colon - 1) (zero_array 10)) (\<lambda>tmp.
      res_bind (array_str tmp) (\<lambda>t.
      res_map (\<lambda>port. w\<lparr>wb_host := h, wb_proxyport := if port = 0 then 80 else port\<rparr>) (atoi t))))"
    using lt less_le_trans [OF lt] by (simp add: take_host_def strchr_def colon_def slash_def url_slash_def Let_def)
  show ?thesis
  proof (cases "length (url_host rest) \<le> 64 \<and> length (url_port rest) < 10")
    case True
    then obtain v where "atoi (url_port rest) = Inr v" using atoi_short [of "url_port rest"] by auto
    with True \<open>has_port rest\<close> lt len nul(1) assms show ?thesis
      unfolding run port by (simp add: strncpy_zero MAXHOSTNAMELEN_def h(1) [symmetric] array_str_padded port_number_def, arith)
  next
    case False
    with \<open>has_port rest\<close> lt len nul(1) assms show ?thesis
      unfolding run port
      by (auto simp: strncpy_zero MAXHOSTNAMELEN_def h(1) [symmetric] array_str_padded [of _ 0, simplified])
  qed
qed

lemma add_headers_bad:
  assumes "with_text w t w1" and "array_str (wb_host w) = Inl Bad_Range" and "wb_proxyhost w = None"
    and "wb_http10 w > 0" and "length t < 1700"
  shows "add_headers w1 = Inl Bad_Range"
proof -
  define h where "h = wb_http10 w"
  define l where "l = (if h = 1 then '' HTTP/1.0'' else if h = 2 then '' HTTP/1.1'' else [])"
  define u where "u = ''User-Agent: WebBench '' @ PROGRAM_VERSION @ crlf"
  have room: "length l \<le> 9" "length u = 26" "NUL \<notin> set l" "NUL \<notin> set u" "h > 0"
    using assms(4) by (simp_all add: l_def u_def h_def PROGRAM_VERSION_def)
  have f: "wb_http10 w1 = h" "wb_proxyhost w1 = None"
    using with_text_fields [OF assms(1)] assms(3) by (simp_all add: h_def)
  obtain w2 where 1: "(if h = 1 then add_text '' HTTP/1.0'' w1 else add_if (h = 2) '' HTTP/1.1'' w1) = Inr w2"
      and w2: "with_text w (t @ l) w2"
  proof -
    have "texts w (t @ l) (if h = 1 then add_text '' HTTP/1.0'' w1 else add_if (h = 2) '' HTTP/1.1'' w1)"
      using assms(5) by (auto simp: l_def REQUEST_SIZE_def intro!: texts_add texts_add_if assms(1))
    then show ?thesis using that by (auto simp: texts_def)
  qed
  obtain w3 where 2: "add_text crlf w2 = Inr w3" and w3: "with_text w (t @ l @ crlf) w3"
    using texts_add [OF w2, of crlf] assms(5) room(1) by (auto simp: texts_def REQUEST_SIZE_def)
  obtain w4 where 3: "add_if (h > 0) u w3 = Inr w4" and w4: "with_text w (t @ l @ crlf @ u) w4"
    using texts_add [OF w3 room(4)] assms(5) room by (auto simp: texts_def REQUEST_SIZE_def add_if_def)
  obtain w5 where 4: "add_text ''Host: '' w4 = Inr w5" and w5: "with_text w (t @ l @ crlf @ u @ ''Host: '') w5"
    using texts_add [OF w4, of "''Host: ''"] assms(5) room by (auto simp: texts_def REQUEST_SIZE_def)
  have "add_host w4 = Inl Bad_Range"
    using 4 with_text_fields [OF w5] assms(2) by (simp add: add_host_def)
  then show ?thesis
    unfolding add_headers_def Let_def f using 1 2 3 room(5) by (simp add: u_def)
qed

text \<open>Which URLs make the generator write or read beyond one of its arrays.\<close>

definition url_harm :: "string \<Rightarrow> bool \<Rightarrow> fault option" where
  "url_harm rest host_line =
     (if 64 < length (url_host rest) \<or> has_port rest \<and> 10 < length (url_port rest) then Some Overrun
      else if has_port rest \<and> length (url_port rest) = 10 \<or> length (url_host rest) = 64 \<and> host_line then Some Bad_Range
      else None)"

text \<open>The state before the URL is looked at.\<close>

definition request_base :: "webbench \<Rightarrow> webbench" where
  "request_base w = w\<lparr>wb_host := zero_array MAXHOSTNAMELEN, wb_request := zero_array REQUEST_SIZE,
     wb_http10 := fit_version w\<rparr>"

lemma method_word_short: "NUL \<notin> set (method_word m)" "length (method_word m) \<le> 7"
  by (simp_all add: method_word_def)

lemma build_request_starts:
  obtains w1 where "with_text (request_base w) (method_word (wb_method w) @ '' '') w1"
    and "build_request url w =
      (case strstr ''://'' url of
         None \<Rightarrow> Inl (Exit 2)
       | Some p \<Rightarrow>
           let rest = drop (p + 3) url
           in if length url > 1500 then Inl (Exit 2)
              else if wb_proxyhost w1 = None \<and> \<not> strncasecmp_eq ''http://'' url 7 then Inl (Exit 2)
              else if strchr (CHR ''/'') rest = None then Inl (Exit 2)
              else res_bind (add_target url rest w1) add_headers)"
proof -
  let ?B = "request_base w" and ?m = "method_word (wb_method w)"
  have len: "length (zero_array REQUEST_SIZE) = REQUEST_SIZE" by (simp add: zero_array_def)
  obtain a where a: "strcpy ?m (zero_array REQUEST_SIZE) = Inr a" "holds_str a ?m" "length a = REQUEST_SIZE"
  proof -
    have "length ?m < length (zero_array REQUEST_SIZE)"
      using method_word_short(2) [of "wb_method w"] by (simp add: zero_array_def REQUEST_SIZE_def)
    from strcpy_holds [OF method_word_short(1) this] that show ?thesis unfolding len by blast
  qed
  then have "with_text ?B ?m (?B\<lparr>wb_request := a\<rparr>)" by (auto simp: with_text_def)
  from texts_add [OF this, of "'' ''"] obtain w1 where
    w1: "add_text '' '' (?B\<lparr>wb_request := a\<rparr>) = Inr w1" "with_text ?B (?m @ '' '') w1"
    using method_word_short [of "wb_method w"] by (auto simp: texts_def REQUEST_SIZE_def)
  show thesis
    by (rule that [OF w1(2)])
      (use a(1) w1(1) in \<open>simp add: build_request_def request_base_def Let_def cong: option.case_cong\<close>)
qed

lemma request_base_fields [simp]:
  "wb_proxyhost (request_base w) = wb_proxyhost w" "wb_http10 (request_base w) = fit_version w"
  "wb_host (request_base w) = zero_array MAXHOSTNAMELEN" "wb_proxyport (request_base w) = wb_proxyport w"
  "wb_force_reload (request_base w) = wb_force_reload w"
  by (simp_all add: request_base_def)

lemma build_request_refused:
  assumes "wb_proxyhost w = None" and "\<not> url_ok url"
  shows "build_request url w = Inl (Exit 2)"
proof -
  obtain w1 where w1: "with_text (request_base w) (method_word (wb_method w) @ '' '') w1" and
    run: "build_request url w =
      (case strstr ''://'' url of
         None \<Rightarrow> Inl (Exit 2)
       | Some p \<Rightarrow>
           let rest = drop (p + 3) url
           in if length url > 1500 then Inl (Exit 2)
              else if wb_proxyhost w1 = None \<and> \<not> strncasecmp_eq ''http://'' url 7 then Inl (Exit 2)
              else if strchr (CHR ''/'') rest = None then Inl (Exit 2)
              else res_bind (add_target url rest w1) add_headers)"
    by (rule build_request_starts)
  have direct: "wb_proxyhost w1 = None" using with_text_fields [OF w1] assms(1) by simp
  show ?thesis
  proof (cases "strncasecmp_eq ''http://'' url 7")
    case True
    then have "strstr ''://'' url = Some 4" by (rule url_scheme)
    then show ?thesis
      using assms(2) True strchr_absent [of "CHR ''/''" "drop 7 url"] by (auto simp: run url_ok_def Let_def)
  next
    case False
    then show ?thesis using direct by (auto simp: run Let_def split: option.split)
  qed
qed

lemma build_request_accepted:
  assumes "wb_proxyhost w = None" and "url_ok url"
  obtains w1 where "with_text (request_base w) (method_word (wb_method w) @ '' '') w1"
    and "build_request url w =
      res_bind (res_bind (take_host (drop 7 url) w1) (add_text (url_target (drop 7 url)))) add_headers"
proof -
  obtain w1 where w1: "with_text (request_base w) (method_word (wb_method w) @ '' '') w1" and
    run: "build_request url w =
      (case strstr ''://'' url of
         None \<Rightarrow> Inl (Exit 2)
       | Some p \<Rightarrow>
           let rest = drop (p + 3) url
           in if length url > 1500 then Inl (Exit 2)
              else if wb_proxyhost w1 = None \<and> \<not> strncasecmp_eq ''http://'' url 7 then Inl (Exit 2)
              else if strchr (CHR ''/'') rest = None then Inl (Exit 2)
              else res_bind (add_target url rest w1) add_headers)"
    by (rule build_request_starts)
  have "CHR ''/'' \<in> set (drop 7 url)" using assms(2) by (simp add: url_ok_def)
  then obtain s t where "drop 7 url = s @ CHR ''/'' # t" "CHR ''/'' \<notin> set s" by (metis split_list_first)
  then have "strchr (CHR ''/'') (drop 7 url) = Some (length s)" by (simp add: strchr_first)
  then have "build_request url w = res_bind (res_bind (take_host (drop 7 url) w1) (add_text (url_target (drop 7 url)))) add_headers"
    using with_text_fields [OF w1] assms url_scheme [of url]
    by (simp add: run url_ok_def add_target_def url_target_def url_slash_def Let_def)
  with w1 show thesis by (rule that)
qed

text \<open>What the generator does with the URL, in every case.\<close>

lemma build_request_direct:
  fixes url defines "rest \<equiv> drop 7 url"
  assumes "wb_proxyhost w = None" and "url_ok url" and "NUL \<notin> set url"
  shows "case url_harm rest (fit_version w > 0) of
      Some f \<Rightarrow> build_request url w = Inl f
    | None \<Rightarrow> \<exists>a. build_request url w =
          Inr (w\<lparr>wb_host := url_host rest @ replicate (64 - length (url_host rest)) NUL,
            wb_proxyport := port_number rest (wb_proxyport w), wb_http10 := fit_version w, wb_request := a\<rparr>) \<and>
        holds_str a (request_text w (url_target rest) (url_host rest))"
proof -
  let ?t = "method_word (wb_method w) @ '' ''"
  obtain w1 where w1: "with_text (request_base w) ?t w1" and
    run: "build_request url w = res_bind (res_bind (take_host rest w1) (add_text (url_target rest))) add_headers"
    using build_request_accepted [OF assms(2,3)] unfolding rest_def by blast
  have nul: "NUL \<notin> set rest" "NUL \<notin> set (url_target rest)" "NUL \<notin> set (url_host rest)"
    using assms(4) by (auto simp: rest_def url_target_def url_host_def dest: in_set_dropD in_set_takeD)
  have f: "wb_host w1 = zero_array MAXHOSTNAMELEN" using with_text_fields [OF w1] by simp
  note host = take_host_cases [OF f nul(1)]
  show ?thesis
  proof (cases "64 < length (url_host rest) \<or> has_port rest \<and> 9 < length (url_port rest)")
    case True
    then show ?thesis using run host by (auto simp: url_harm_def)
  next
    case False
    define B where "B = (request_base w)\<lparr>wb_host := url_host rest @ replicate (64 - length (url_host rest)) NUL,
      wb_proxyport := port_number rest (wb_proxyport w)\<rparr>"
    obtain a where a: "w1 = (request_base w)\<lparr>wb_request := a\<rparr>" "holds_str a ?t" "length a = REQUEST_SIZE"
      using w1 by (auto simp: with_text_def)
    have "w1\<lparr>wb_host := wb_host B, wb_proxyport := wb_proxyport B\<rparr> = B\<lparr>wb_request := a\<rparr>"
      by (cases w) (simp add: a(1) B_def request_base_def)
    moreover have "take_host rest w1 = Inr (w1\<lparr>wb_host := wb_host B, wb_proxyport := wb_proxyport B\<rparr>)"
      using False host a(1) by (auto simp: B_def)
    ultimately obtain w2 where w2: "take_host rest w1 = Inr w2" "with_text B ?t w2"
      using a(2,3) by (auto simp: with_text_def)
    have "length (url_target rest) \<le> 1500"
      using assms(3) by (auto simp: url_target_def rest_def url_ok_def)
    then have short: "length ?t + length (url_target rest) \<le> 1508" using method_word_short(2) [of "wb_method w"] by simp
    then obtain w3 where w3: "add_text (url_target rest) w2 = Inr w3" "with_text B (?t @ url_target rest) w3"
      using texts_add [OF w2(2) nul(2)] by (auto simp: texts_def REQUEST_SIZE_def)
    have built: "build_request url w = add_headers w3" using run w2(1) w3(1) by simp
    have B: "wb_proxyhost B = None" "wb_http10 B = fit_version w"
      "array_str (wb_host B) = (if length (url_host rest) = 64 then Inl Bad_Range else Inr (url_host rest))"
      using assms(2) False array_str_padded [OF nul(3)] by (auto simp: B_def)
    show ?thesis
    proof (cases "length (url_host rest) = 64 \<and> fit_version w > 0")
      case True
      then show ?thesis
        using False B short built add_headers_bad [OF w3(2)] by (auto simp: url_harm_def)
    next
      case False': False
      have "holds_str (wb_host B) (url_host rest) \<or> wb_proxyhost B \<noteq> None \<or> wb_http10 B \<le> 0"
        using False' B(2,3) by (auto simp: array_str_eq split: if_splits)
      from add_headers_ok [OF w3(2) this] False short obtain b where b:
        "build_request url w = Inr (B\<lparr>wb_request := b\<rparr>)"
        "holds_str b ((?t @ url_target rest) @ header_text B (url_host rest))"
        by (auto simp: built texts_def with_text_def)
      have "url_harm rest (fit_version w > 0) = None"
        using False False' by (auto simp: url_harm_def)
      moreover have "header_text B host = header_text (w\<lparr>wb_http10 := fit_version w\<rparr>) host" for host
        by (simp add: header_text_def B_def request_base_def)
      moreover have "B\<lparr>wb_request := b\<rparr> = w\<lparr>wb_host := url_host rest @ replicate (64 - length (url_host rest)) NUL,
          wb_proxyport := port_number rest (wb_proxyport w), wb_http10 := fit_version w, wb_request := b\<rparr>"
        by (cases w) (simp add: B_def request_base_def)
      ultimately show ?thesis using b by (simp add: request_text_def, intro exI [of _ b], simp)
    qed
  qed
qed

text \<open>Through a proxy, the whole URL is the target; no host name is copied.\<close>

definition proxied_url_ok :: "string \<Rightarrow> bool" where
  "proxied_url_ok url \<longleftrightarrow> length url \<le> 1500 \<and>
     (\<exists>p. strstr ''://'' url = Some p \<and> CHR ''/'' \<in> set (drop (p + 3) url))"

lemma build_request_proxied:
  assumes "wb_proxyhost w = Some proxy" and "NUL \<notin> set url"
  shows "if proxied_url_ok url
    then \<exists>a. build_request url w = Inr ((request_base w)\<lparr>wb_request := a\<rparr>) \<and> holds_str a (request_text w url [])
    else build_request url w = Inl (Exit 2)"
proof -
  let ?t = "method_word (wb_method w) @ '' ''"
  obtain w1 where w1: "with_text (request_base w) ?t w1" and
    run: "build_request url w =
      (case strstr ''://'' url of
         None \<Rightarrow> Inl (Exit 2)
       | Some p \<Rightarrow>
           let rest = drop (p + 3) url
           in if length url > 1500 then Inl (Exit 2)
              else if wb_proxyhost w1 = None \<and> \<not> strncasecmp_eq ''http://'' url 7 then Inl (Exit 2)
              else if strchr (CHR ''/'') rest = None then Inl (Exit 2)
              else res_bind (add_target url rest w1) add_headers)"
    by (rule build_request_starts)
  have proxy: "wb_proxyhost w1 = Some proxy" using with_text_fields [OF w1] assms(1) by simp
  have slash: "strchr c t = None \<longleftrightarrow> c \<notin> set t" for c t
    by (metis strchr_absent strchr_first split_list_first option.distinct(1))
  show ?thesis
  proof (cases "proxied_url_ok url")
    case False
    then show ?thesis by (auto simp: run proxied_url_ok_def proxy slash Let_def split: option.split)
  next
    case True
    then have len: "length url \<le> 1500" by (simp add: proxied_url_ok_def)
    have built: "build_request url w = res_bind (add_text url w1) add_headers"
      using True by (auto simp: run proxied_url_ok_def proxy slash add_target_def Let_def)
    obtain w2 where w2: "add_text url w1 = Inr w2" "with_text (request_base w) (?t @ url) w2"
      using texts_add [OF w1 assms(2)] len method_word_short(2) [of "wb_method w"]
      by (auto simp: texts_def REQUEST_SIZE_def)
    have "texts (request_base w) ((?t @ url) @ header_text (request_base w) []) (add_headers w2)"
      using assms(1) len method_word_short(2) [of "wb_method w"] by (intro add_headers_ok [OF w2(2)]) simp_all
    moreover have "header_text (request_base w) [] = header_text (w\<lparr>wb_http10 := fit_version w\<rparr>) []"
      by (simp add: header_text_def)
    ultimately show ?thesis using True built w2(1) by (auto simp: texts_def with_text_def request_text_def)
  qed
qed

end
