(* ===== verification/WebbenchRun.thy ===== *)
theory WebbenchRun
  imports Webbench
begin

text \<open>
  The run of the load generator: \<open>Socket\<close> of \<open>socket.c\<close>, the loop of one client, the processes and
  their pipe, and \<open>main\<close>. A process that \<open>fork\<close> makes is a run of \<open>bench\<close> of its own, with the
  answer 0. The answers of the system calls are lists; when a list ends, the process is still
  at work, or waits for ever, and the result is \<open>Diverges\<close>.
\<close>

subsection \<open>Connecting\<close>

record resolver =
  rs_inet_addr :: "string \<Rightarrow> ip_address option"       \<comment> \<open>\<open>None\<close> for \<open>INADDR_NONE\<close>\<close>
  rs_gethostbyname :: "string \<Rightarrow> ip_address option"

record socket_answer =
  sa_socket :: int
  sa_connect :: int

definition client_address :: "resolver \<Rightarrow> string \<Rightarrow> int \<Rightarrow> sockaddr_in option" where
  "client_address rs host port =
     (let ad = zero_addr\<lparr>sin_family := AF_INET\<rparr>;
          found = (case rs_inet_addr rs host of Some a \<Rightarrow> Some a | None \<Rightarrow> rs_gethostbyname rs host)
      in map_option (\<lambda>a. ad\<lparr>sin_addr := a, sin_port := htons (word_of_int port)\<rparr>) found)"

text \<open>The answer, and the descriptors that stay open although the caller does not get them.\<close>

definition Socket :: "resolver \<Rightarrow> socket_answer \<Rightarrow> string \<Rightarrow> int \<Rightarrow> int \<times> int list" where
  "Socket rs a host port =
     (case client_address rs host port of
        None \<Rightarrow> (- 1, [])
      | Some ad \<Rightarrow>
          if sa_socket a < 0 then (sa_socket a, [])
          else if sa_connect a < 0 then (- 1, [sa_socket a])
          else (sa_socket a, []))"

subsection \<open>One client\<close>

text \<open>
  One turn of the loop. Each round of reading has the value of \<open>timerexpired\<close> at its test, and
  the answer of \<open>read\<close>.
\<close>

record attempt =
  at_socket :: socket_answer
  at_write :: int
  at_shutdown :: int
  at_reads :: "(bool \<times> int) list"
  at_close :: int

definition count_failed :: "webbench \<Rightarrow> webbench result" where
  "count_failed w = res_map (\<lambda>n. w\<lparr>wb_failed := n\<rparr>) (int_add (wb_failed w) 1)"

definition count_page :: "webbench \<Rightarrow> webbench result" where
  "count_page w = res_map (\<lambda>n. w\<lparr>wb_speed := n\<rparr>) (int_add (wb_speed w) 1)"

definition close_socket :: "int \<Rightarrow> webbench \<Rightarrow> webbench" where
  "close_socket s w = w\<lparr>wb_open := remove1 s (wb_open w)\<rparr>"

fun read_reply :: "(bool \<times> int) list \<Rightarrow> webbench \<Rightarrow> (bool \<times> webbench) result" where
  "read_reply [] w = Inl Diverges"
| "read_reply ((expired, i) # rs) w =
     (if expired then Inr (True, w)
      else if i < 0 then Inr (False, w)
      else if i = 0 then Inr (True, w)
      else res_bind (int_add (wb_bytes w) i) (\<lambda>b. read_reply rs (w\<lparr>wb_bytes := b\<rparr>)))"

definition one_attempt :: "resolver \<Rightarrow> string \<Rightarrow> int \<Rightarrow> string \<Rightarrow> attempt \<Rightarrow> webbench \<Rightarrow> webbench result" where
  "one_attempt rs host port req a w =
     (let (s, leaked) = Socket rs (at_socket a) host port
      in if s < 0 then count_failed (w\<lparr>wb_open := leaked @ wb_open w\<rparr>)
         else let w1 = w\<lparr>wb_open := s # wb_open w\<rparr>
         in if int (length req) \<noteq> at_write a then res_map (close_socket s) (count_failed w1)
         else if wb_http10 w = 0 \<and> at_shutdown a \<noteq> 0 then res_map (close_socket s) (count_failed w1)
         else res_bind (if wb_force w = 0 then read_reply (at_reads a) w1 else Inr (True, w1)) (\<lambda>(ok, w2).
           if \<not> ok then res_map (close_socket s) (count_failed w2)
           else if at_close a \<noteq> 0 then count_failed (close_socket s w2)
           else count_page (close_socket s w2)))"

text \<open>The loop, with the value of \<open>timerexpired\<close> at the head of each turn.\<close>

fun attempts :: "resolver \<Rightarrow> string \<Rightarrow> int \<Rightarrow> string \<Rightarrow> (bool \<times> attempt) list \<Rightarrow> webbench \<Rightarrow> webbench result" where
  "attempts rs host port req [] w = Inl Diverges"
| "attempts rs host port req ((expired, a) # as) w =
     (if expired then Inr (if wb_failed w > 0 then w\<lparr>wb_failed := wb_failed w - 1\<rparr> else w)
      else res_bind (one_attempt rs host port req a w) (attempts rs host port req as))"

definition benchcore :: "resolver \<Rightarrow> int \<Rightarrow> (bool \<times> attempt) list \<Rightarrow> string \<Rightarrow> int \<Rightarrow> string \<Rightarrow> webbench \<Rightarrow>
    webbench result" where
  "benchcore rs sigaction as host port req w =
     (if sigaction \<noteq> 0 then Inl (Exit 3) else attempts rs host port req as w)"

subsection \<open>The pipe\<close>

text \<open>What a child writes with \<open>fprintf\<close>.\<close>

definition report :: "webbench \<Rightarrow> string" where
  "report w = dec_int (wb_speed w) @ '' '' @ dec_int (wb_failed w) @ '' '' @ dec_int (wb_bytes w) @ [LF]"

text \<open>
  \<open>fscanf\<close> with \<open>n\<close> conversions of an \<open>int\<close>: the values that were converted, and the rest of the text.
  The parent has the writing end of the pipe open itself, so at the end of the text it waits.
\<close>

fun scan_ints :: "nat \<Rightarrow> string \<Rightarrow> (int list \<times> string) result" where
  "scan_ints 0 s = Inr ([], s)"
| "scan_ints (Suc n) s =
     (let s1 = dropWhile isspace s;
          signed = (s1 \<noteq> [] \<and> (hd s1 = CHR ''-'' \<or> hd s1 = CHR ''+''));
          s2 = (if signed then tl s1 else s1);
          ds = takeWhile isdigit s2;
          rest = dropWhile isdigit s2;
          v = (if s1 \<noteq> [] \<and> hd s1 = CHR ''-'' then - int (digits_val ds) else int (digits_val ds))
      in if rest = [] then Inl Diverges
         else if ds = [] then Inr ([], rest)
         else if int_min \<le> v \<and> v \<le> int_max
         then res_map (\<lambda>(vs, s'). (v # vs, s')) (scan_ints n rest)
         else Inl Int_Overflow)"

lemma scan_ints_shorter: "scan_ints n s = Inr (vs, s') \<Longrightarrow> length s' + length vs \<le> length s"
proof (induction n arbitrary: s vs)
  case (Suc n)
  define s1 where "s1 = dropWhile isspace s"
  define s2 where "s2 = (if s1 \<noteq> [] \<and> (hd s1 = CHR ''-'' \<or> hd s1 = CHR ''+'') then tl s1 else s1)"
  have le: "length s2 \<le> length s" "length (takeWhile isdigit s2) + length (dropWhile isdigit s2) = length s2"
    using length_dropWhile_le [of isspace s] length_append [of "takeWhile isdigit s2" "dropWhile isdigit s2"]
    by (auto simp: s2_def s1_def [symmetric])
  consider (none) "vs = []" "s' = dropWhile isdigit s2"
    | (more) v us where "vs = v # us" "takeWhile isdigit s2 \<noteq> []" "scan_ints n (dropWhile isdigit s2) = Inr (us, s')"
    using Suc.prems unfolding scan_ints.simps Let_def s1_def [symmetric] s2_def [symmetric]
    by (auto simp: res_simps split: if_splits)
  then show ?case
  proof cases
    case more
    then have "0 < length (takeWhile isdigit s2)" by simp
    with Suc.IH [OF more(3)] le have "Suc (length s' + length us) \<le> length s" by linarith
    with more(1) show ?thesis by simp
  qed (use le in simp)
qed simp

text \<open>
  The parent's loop over the reports. \<open>i\<close> and \<open>k\<close> are the variables of \<open>bench\<close>; \<open>k\<close> is not
  initialised.
\<close>

function collect :: "string \<Rightarrow> int \<Rightarrow> int option \<Rightarrow> webbench \<Rightarrow> (int \<times> webbench) result" where
  "collect s i k w =
     (case scan_ints 3 s of
        Inl e \<Rightarrow> Inl e
      | Inr (vs, s') \<Rightarrow>
          if length vs < 2 then Inr (if vs = [] then i else hd vs, w)
          else let k' = (if length vs = 3 then Some (vs ! 2) else k)
          in case k' of
               None \<Rightarrow> Inl Uninitialised
             | Some b \<Rightarrow>
                 res_bind (int_add (wb_speed w) (vs ! 0)) (\<lambda>speed.
                 res_bind (int_add (wb_failed w) (vs ! 1)) (\<lambda>failed.
                 res_bind (int_add (wb_bytes w) b) (\<lambda>bytes.
                 res_bind (int_add (wb_clients w) (- 1)) (\<lambda>clients.
                   let w1 = w\<lparr>wb_speed := speed, wb_failed := failed, wb_bytes := bytes, wb_clients := clients\<rparr>
                   in if clients = 0 then Inr (vs ! 0, w1) else collect s' (vs ! 0) k' w1)))))"
  by pat_completeness auto
termination
  by (relation "measure (\<lambda>(s, i, k, w). length s)") (auto dest: scan_ints_shorter)

declare collect.simps [simp del]

subsection \<open>The processes\<close>

record bench_answers =
  ba_first :: socket_answer
  ba_pipe :: int
  ba_forks :: "int list"
  ba_sigaction :: int
  ba_attempts :: "(bool \<times> attempt) list"
  ba_fdopen :: bool
  ba_text :: string                \<comment> \<open>what the pipe delivers to the parent\<close>

text \<open>The loop of \<open>fork\<close>: the values of \<open>i\<close> and \<open>pid\<close> at its end.\<close>

fun fork_workers :: "int list \<Rightarrow> int \<Rightarrow> int \<Rightarrow> int \<Rightarrow> (int \<times> int) result" where
  "fork_workers [] i n pid = (if i < n then Inl Diverges else Inr (i, pid))"
| "fork_workers (p # ps) i n pid =
     (if i < n then if p \<le> 0 then Inr (i, p) else fork_workers ps (i + 1) n p else Inr (i, pid))"

text \<open>Where the client connects to: the host of the URL, or the proxy.\<close>

definition bench_host :: "webbench \<Rightarrow> string result" where
  "bench_host w = (case wb_proxyhost w of None \<Rightarrow> array_str (wb_host w) | Some p \<Rightarrow> Inr p)"

text \<open>The exit code, what goes into the pipe, and the state at the end.\<close>

definition bench :: "resolver \<Rightarrow> bench_answers \<Rightarrow> webbench \<Rightarrow> (int \<times> string \<times> webbench) result" where
  "bench rs a w =
     res_bind (bench_host w) (\<lambda>host.
       let (s, leaked) = Socket rs (ba_first a) host (wb_proxyport w)
       in if s < 0 then Inr (1, [], w\<lparr>wb_open := leaked @ wb_open w\<rparr>)
          else if ba_pipe a \<noteq> 0 then Inr (3, [], w)
          else res_bind (fork_workers (ba_forks a) 0 (wb_clients w) 0) (\<lambda>(i, pid).
            if pid < 0 then Inr (3, [], w)
            else if pid = 0
            then res_bind (array_str (wb_request w)) (\<lambda>req.
                 res_map (\<lambda>w1. if ba_fdopen a then (0, report w1, w1) else (3, [], w1))
                   (benchcore rs (ba_sigaction a) (ba_attempts a) host (wb_proxyport w) req w))
            else if \<not> ba_fdopen a then Inr (3, [], w)
            else res_map (\<lambda>(i', w1). (i', [], w1))
              (collect (ba_text a) i None (w\<lparr>wb_speed := 0, wb_failed := 0, wb_bytes := 0\<rparr>))))"

subsection \<open>\<open>main\<close>\<close>

definition bench_info :: "string \<Rightarrow> webbench \<Rightarrow> string" where
  "bench_info url w =
     [LF] @ ''Benchmarking: '' @ method_word (wb_method w) @ '' '' @ url @
     (if wb_http10 w = 0 then '' (using HTTP/0.9)'' else if wb_http10 w = 2 then '' (using HTTP/1.1)'' else []) @ [LF] @
     (if wb_clients w = 1 then ''1 client'' else dec_int (wb_clients w) @ '' clients'') @
     '', running '' @ dec_int (wb_benchtime w) @ '' sec'' @
     (if wb_force w \<noteq> 0 then '', early socket close'' else []) @
     (case wb_proxyhost w of
        None \<Rightarrow> []
      | Some p \<Rightarrow> '', via proxy server '' @ p @ '':'' @ dec_int (wb_proxyport w)) @
     (if wb_force_reload w \<noteq> 0 then '', forcing reload'' else []) @ ''.'' @ [LF]"

text \<open>
  The command line is \<open>None\<close> when there are no arguments; else it is what \<open>getopt_long\<close> finds, and
  the first argument that is no option. The result is what \<open>main\<close> prints before the benchmark, and
  what the process then is: its exit code, its output to the pipe and its state.
\<close>

definition webbench_setup :: "(found_option list \<times> string option) option \<Rightarrow> (string \<times> webbench) result" where
  "webbench_setup args =
     (case args of
        None \<Rightarrow> Inl (Exit 2)
      | Some (opts, url) \<Rightarrow>
          res_bind (all_options opts new_webbench) (\<lambda>w.
            case url of
              None \<Rightarrow> Inl (Exit 2)
            | Some u \<Rightarrow>
                let w1 = (if wb_clients w = 0 then w\<lparr>wb_clients := 1\<rparr> else w);
                    w2 = (if wb_benchtime w1 = 0 then w1\<lparr>wb_benchtime := 60\<rparr> else w1)
                in res_map (\<lambda>w3. (bench_info u w3, w3)) (build_request u w2)))"

definition webbench_main :: "resolver \<Rightarrow> bench_answers \<Rightarrow> (found_option list \<times> string option) option \<Rightarrow>
    (int \<times> string \<times> webbench) result" where
  "webbench_main rs a args = res_bind (webbench_setup args) (\<lambda>(info, w). bench rs a w)"

subsection \<open>What a client counts\<close>

text \<open>The reads of a reply come to an end, and what they bring.\<close>

fun reply_ends :: "(bool \<times> int) list \<Rightarrow> bool" where
  "reply_ends [] \<longleftrightarrow> False"
| "reply_ends ((expired, i) # rs) \<longleftrightarrow> expired \<or> i \<le> 0 \<or> reply_ends rs"

fun reply_ok :: "(bool \<times> int) list \<Rightarrow> bool" where
  "reply_ok [] \<longleftrightarrow> False"
| "reply_ok ((expired, i) # rs) \<longleftrightarrow> expired \<or> i = 0 \<or> 0 < i \<and> reply_ok rs"

fun reply_bytes :: "(bool \<times> int) list \<Rightarrow> int" where
  "reply_bytes [] = 0"
| "reply_bytes ((expired, i) # rs) = (if expired \<or> i \<le> 0 then 0 else i + reply_bytes rs)"

lemma reply_bytes_nonneg [simp]: "0 \<le> reply_bytes rs"
  by (induction rs rule: reply_bytes.induct) auto

lemma read_reply_eq:
  assumes "reply_ends rs" and "0 \<le> wb_bytes w" and "wb_bytes w + reply_bytes rs \<le> int_max"
  shows "read_reply rs w = Inr (reply_ok rs, w\<lparr>wb_bytes := wb_bytes w + reply_bytes rs\<rparr>)"
  using assms
proof (induction rs w rule: read_reply.induct)
  case (2 expired i rs w)
  show ?case
  proof (cases "expired \<or> i \<le> 0")
    case False
    then have "wb_bytes w + i \<le> int_max" "int_min \<le> wb_bytes w + i"
      using 2(3,4) reply_bytes_nonneg [of rs] by (simp_all del: reply_bytes_nonneg)
    then have "int_add (wb_bytes w) i = Inr (wb_bytes w + i)" by (simp add: int_add_def)
    with 2 False show ?thesis by simp
  qed (use 2 in auto)
qed simp

text \<open>The turn gets a connection and sends its request; it counts as a page.\<close>

definition request_sent :: "resolver \<Rightarrow> string \<Rightarrow> int \<Rightarrow> string \<Rightarrow> webbench \<Rightarrow> attempt \<Rightarrow> bool" where
  "request_sent rs host port req w a \<longleftrightarrow> 0 \<le> fst (Socket rs (at_socket a) host port) \<and>
     at_write a = int (length req) \<and> (wb_http10 w = 0 \<longrightarrow> at_shutdown a = 0)"

definition page_ok :: "resolver \<Rightarrow> string \<Rightarrow> int \<Rightarrow> string \<Rightarrow> webbench \<Rightarrow> attempt \<Rightarrow> bool" where
  "page_ok rs host port req w a \<longleftrightarrow> request_sent rs host port req w a \<and>
     (wb_force w = 0 \<longrightarrow> reply_ok (at_reads a)) \<and> at_close a = 0"

definition page_bytes :: "resolver \<Rightarrow> string \<Rightarrow> int \<Rightarrow> string \<Rightarrow> webbench \<Rightarrow> attempt \<Rightarrow> int" where
  "page_bytes rs host port req w a =
     (if request_sent rs host port req w a \<and> wb_force w = 0 then reply_bytes (at_reads a) else 0)"

lemma page_bytes_nonneg [simp]: "0 \<le> page_bytes rs host port req w a"
  by (simp add: page_bytes_def)

definition leaks :: "resolver \<Rightarrow> string \<Rightarrow> int \<Rightarrow> attempt \<Rightarrow> int list" where
  "leaks rs host port a = snd (Socket rs (at_socket a) host port)"

lemma Socket_leak: "Socket rs a host port = (s, ls) \<Longrightarrow> 0 \<le> s \<Longrightarrow> ls = []"
  by (auto simp: Socket_def split: option.splits if_splits)

lemma one_attempt_eq:
  assumes "wb_force w = 0 \<longrightarrow> reply_ends (at_reads a)" and "0 \<le> wb_speed w" and "wb_speed w < int_max"
    and "0 \<le> wb_failed w" and "wb_failed w < int_max" and "0 \<le> wb_bytes w"
    and "wb_bytes w + page_bytes rs host port req w a \<le> int_max"
  shows "one_attempt rs host port req a w = Inr (w\<lparr>wb_open := leaks rs host port a @ wb_open w,
    wb_speed := wb_speed w + (if page_ok rs host port req w a then 1 else 0),
    wb_failed := wb_failed w + (if page_ok rs host port req w a then 0 else 1),
    wb_bytes := wb_bytes w + page_bytes rs host port req w a\<rparr>)"
proof -
  obtain s ls where so: "Socket rs (at_socket a) host port = (s, ls)" by fastforce
  have add: "int_add (wb_speed w) 1 = Inr (wb_speed w + 1)" "int_add (wb_failed w) 1 = Inr (wb_failed w + 1)"
    using assms(2-5) by (simp_all add: int_add_def)
  show ?thesis
  proof (cases "request_sent rs host port req w a \<and> wb_force w = 0")
    case True
    then have "reply_ends (at_reads a)" "wb_bytes w + reply_bytes (at_reads a) \<le> int_max" "0 \<le> s" "ls = []"
      using assms(1,7) Socket_leak [OF so] by (auto simp: page_bytes_def request_sent_def so)
    then show ?thesis
      using True read_reply_eq [of "at_reads a" "w\<lparr>wb_open := s # wb_open w\<rparr>"] assms(6) add
      by (cases w) (auto simp: one_attempt_def so request_sent_def page_ok_def page_bytes_def leaks_def count_failed_def
        count_page_def close_socket_def Let_def)
  next
    case False
    then show ?thesis
      using Socket_leak [OF so] add
      by (cases w) (auto simp: one_attempt_def so request_sent_def page_ok_def page_bytes_def leaks_def count_failed_def
        count_page_def close_socket_def Let_def)
  qed
qed

lemma page_simps [simp]:
  "page_ok rs host port req (w\<lparr>wb_open := os, wb_speed := m, wb_failed := n, wb_bytes := b\<rparr>) a =
    page_ok rs host port req w a"
  "page_bytes rs host port req (w\<lparr>wb_open := os, wb_speed := m, wb_failed := n, wb_bytes := b\<rparr>) a =
    page_bytes rs host port req w a"
  by (simp_all add: page_ok_def page_bytes_def request_sent_def)

text \<open>What a client's variables are after the turns \<open>as\<close>.\<close>

definition tallied :: "resolver \<Rightarrow> string \<Rightarrow> int \<Rightarrow> string \<Rightarrow> attempt list \<Rightarrow> webbench \<Rightarrow> webbench" where
  "tallied rs host port req as w = w\<lparr>
     wb_open := concat (rev (map (leaks rs host port) as)) @ wb_open w,
     wb_speed := wb_speed w + int (length (filter (page_ok rs host port req w) as)),
     wb_failed := wb_failed w + int (length (filter (\<lambda>a. \<not> page_ok rs host port req w a) as)),
     wb_bytes := wb_bytes w + sum_list (map (page_bytes rs host port req w) as)\<rparr>"

lemma attempts_eq:
  assumes "\<forall>a \<in> set as. wb_force w = 0 \<longrightarrow> reply_ends (at_reads a)"
    and "0 \<le> wb_speed w" and "wb_speed w + int (length as) \<le> int_max"
    and "0 \<le> wb_failed w" and "wb_failed w + int (length as) \<le> int_max"
    and "0 \<le> wb_bytes w" and "wb_bytes w + sum_list (map (page_bytes rs host port req w) as) \<le> int_max"
  shows "attempts rs host port req (map (Pair False) as @ (True, x) # ys) w =
    (let w' = tallied rs host port req as w
     in Inr (if wb_failed w' > 0 then w'\<lparr>wb_failed := wb_failed w' - 1\<rparr> else w'))"
  using assms
proof (induction as arbitrary: w)
  case Nil
  then show ?case by (cases w) (simp add: tallied_def)
next
  case (Cons a as)
  let ?ok = "page_ok rs host port req w a"
  define w1 where "w1 = w\<lparr>wb_open := leaks rs host port a @ wb_open w,
    wb_speed := wb_speed w + (if ?ok then 1 else 0), wb_failed := wb_failed w + (if ?ok then 0 else 1),
    wb_bytes := wb_bytes w + page_bytes rs host port req w a\<rparr>"
  have rest: "0 \<le> sum_list (map (page_bytes rs host port req w) as)"
    by (intro sum_list_nonneg) auto
  have "one_attempt rs host port req a w = Inr w1"
    unfolding w1_def using Cons.prems rest by (intro one_attempt_eq) auto
  moreover have "attempts rs host port req (map (Pair False) as @ (True, x) # ys) w1 =
    (let w' = tallied rs host port req as w1
     in Inr (if wb_failed w' > 0 then w'\<lparr>wb_failed := wb_failed w' - 1\<rparr> else w'))"
    using Cons.prems page_bytes_nonneg [of rs host port req w a] by (intro Cons.IH) (auto simp: w1_def)
  moreover have "tallied rs host port req as w1 = tallied rs host port req (a # as) w"
  proof -
    have same: "page_ok rs host port req w1 = page_ok rs host port req w"
        "page_bytes rs host port req w1 = page_bytes rs host port req w"
      by (simp_all add: w1_def fun_eq_iff)
    show ?thesis unfolding tallied_def same by (simp add: w1_def)
  qed
  ultimately show ?case by simp
qed

subsection \<open>What the parent adds up\<close>

lemma isspace_hd_dec_int [simp]: "dropWhile isspace (dec_int i @ t) = dec_int i @ t"
proof -
  have "\<not> isspace (hd (dec_int i))" "dec_int i \<noteq> []"
    using isdigit_not_space [OF hd_dec_nat] by (auto simp: dec_int_def isspace_def)
  then show ?thesis by (cases "dec_int i") auto
qed

lemma scan_dec_int:
  assumes "int_min \<le> i" and "i \<le> int_max" and "c = CHR '' '' \<or> c = LF"
  shows "scan_ints (Suc n) (dec_int i @ c # t) = res_map (\<lambda>(vs, s). (i # vs, s)) (scan_ints n (c # t))"
proof -
  have c: "\<not> isdigit c" using assms(3) by (auto simp: isdigit_def)
  then have ds: "takeWhile isdigit (dec_nat m @ c # t) = dec_nat m" "dropWhile isdigit (dec_nat m @ c # t) = c # t" for m
    using set_dec_nat [of _ m] by (auto simp: takeWhile_append2 dropWhile_append2)
  show ?thesis
  proof (cases "i < 0")
    case True
    then have "dec_int i = CHR ''-'' # dec_nat (nat (- i))" by (simp add: dec_int_def)
    with True assms(1,2) ds show ?thesis
      using c isspace_hd_dec_int [of i "c # t"] by (simp add: Let_def digits_val_dec_nat)
  next
    case False
    then have i: "dec_int i = dec_nat (nat i)" by (simp add: dec_int_def)
    obtain d r where d: "dec_nat (nat i) = d # r" by (cases "dec_nat (nat i)") auto
    then have "d \<noteq> CHR ''-''" "d \<noteq> CHR ''+''" using hd_dec_nat [of "nat i"] isdigit_not_space by auto
    with False assms(1,2) ds [of "nat i"] show ?thesis
      using c isspace_hd_dec_int [of i "c # t"] digits_val_dec_nat [of "nat i"] unfolding i d
      by (simp add: Let_def)
  qed
qed

lemma scan_space: "scan_ints (Suc n) (c # t) = scan_ints (Suc n) t" if "c = CHR '' '' \<or> c = LF"
  using that by (auto simp: isspace_def)

text \<open>The parent reads back what a child has written.\<close>

lemma scan_report:
  assumes "\<forall>v \<in> {wb_speed w, wb_failed w, wb_bytes w}. int_min \<le> v \<and> v \<le> int_max"
  shows "scan_ints 3 (report w @ t) = Inr ([wb_speed w, wb_failed w, wb_bytes w], LF # t)"
    and "scan_ints 3 (LF # report w @ t) = Inr ([wb_speed w, wb_failed w, wb_bytes w], LF # t)"
proof -
  show "scan_ints 3 (report w @ t) = Inr ([wb_speed w, wb_failed w, wb_bytes w], LF # t)"
    using assms unfolding report_def numeral_3_eq_3
    by (simp add: scan_dec_int scan_space del: scan_ints.simps(2))
  then show "scan_ints 3 (LF # report w @ t) = Inr ([wb_speed w, wb_failed w, wb_bytes w], LF # t)"
    unfolding numeral_3_eq_3 by (simp add: scan_space del: scan_ints.simps(2))
qed

lemma collect_eq:
  assumes "ws \<noteq> []" and "\<forall>v \<in> set ws. 0 \<le> wb_speed v \<and> 0 \<le> wb_failed v \<and> 0 \<le> wb_bytes v"
    and "wb_clients w = int (length ws)" and "int (length ws) \<le> int_max"
    and "0 \<le> wb_speed w" and "wb_speed w + sum_list (map wb_speed ws) \<le> int_max"
    and "0 \<le> wb_failed w" and "wb_failed w + sum_list (map wb_failed ws) \<le> int_max"
    and "0 \<le> wb_bytes w" and "wb_bytes w + sum_list (map wb_bytes ws) \<le> int_max"
    and "pre = [] \<or> pre = [LF]"
  shows "collect (pre @ concat (map report ws) @ t) i k w =
    Inr (wb_speed (last ws), w\<lparr>wb_speed := wb_speed w + sum_list (map wb_speed ws),
      wb_failed := wb_failed w + sum_list (map wb_failed ws),
      wb_bytes := wb_bytes w + sum_list (map wb_bytes ws), wb_clients := 0\<rparr>)"
  using assms
proof (induction ws arbitrary: w pre i k)
  case (Cons v ws)
  have nn: "0 \<le> wb_speed v" "0 \<le> wb_failed v" "0 \<le> wb_bytes v" using Cons.prems(2) by simp_all
  have rest: "0 \<le> sum_list (map wb_speed ws)" "0 \<le> sum_list (map wb_failed ws)" "0 \<le> sum_list (map wb_bytes ws)"
    using Cons.prems(2) by (auto intro!: sum_list_nonneg)
  have le: "wb_speed w + wb_speed v \<le> int_max" "wb_failed w + wb_failed v \<le> int_max" "wb_bytes w + wb_bytes v \<le> int_max"
    using Cons.prems(6,8,10) rest by simp_all
  define w1 where "w1 = w\<lparr>wb_speed := wb_speed w + wb_speed v, wb_failed := wb_failed w + wb_failed v,
    wb_bytes := wb_bytes w + wb_bytes v, wb_clients := int (length ws)\<rparr>"
  have scan: "scan_ints 3 (pre @ concat (map report (v # ws)) @ t) =
      Inr ([wb_speed v, wb_failed v, wb_bytes v], LF # concat (map report ws) @ t)"
    using Cons.prems(5,7,9,11) nn le scan_report [of v "concat (map report ws) @ t"] by auto
  have "collect (pre @ concat (map report (v # ws)) @ t) i k w =
      (if ws = [] then Inr (wb_speed v, w1)
       else collect (LF # concat (map report ws) @ t) (wb_speed v) (Some (wb_bytes v)) w1)"
    using Cons.prems(3-5,7,9) nn le by (subst collect.simps, subst scan) (simp add: int_add_def w1_def)
  moreover have "collect ([LF] @ concat (map report ws) @ t) (wb_speed v) (Some (wb_bytes v)) w1 =
      Inr (wb_speed (last ws), w1\<lparr>wb_speed := wb_speed w1 + sum_list (map wb_speed ws),
        wb_failed := wb_failed w1 + sum_list (map wb_failed ws),
        wb_bytes := wb_bytes w1 + sum_list (map wb_bytes ws), wb_clients := 0\<rparr>)" if "ws \<noteq> []"
    using Cons.prems nn le that by (intro Cons.IH) (auto simp: w1_def)
  ultimately show ?case by (cases "ws = []") (simp_all add: w1_def)
qed simp

text \<open>The counters stay in range.\<close>

definition counters_ok :: "webbench \<Rightarrow> bool" where
  "counters_ok w \<longleftrightarrow> 0 \<le> wb_speed w \<and> 0 \<le> wb_failed w \<and> 0 \<le> wb_bytes w"

lemma read_reply_counters: "read_reply rs w = Inr (ok, w') \<Longrightarrow> counters_ok w \<Longrightarrow> counters_ok w'"
  by (induction rs w rule: read_reply.induct) (auto simp: counters_ok_def res_simps split: if_splits)

lemma counters_ok_simps [simp]:
  "counters_ok (w\<lparr>wb_open := os\<rparr>) = counters_ok w" "counters_ok (close_socket s w) = counters_ok w"
  by (simp_all add: counters_ok_def close_socket_def)

lemma count_counters:
  "count_failed w = Inr w' \<Longrightarrow> counters_ok w \<Longrightarrow> counters_ok w'"
  "count_page w = Inr w' \<Longrightarrow> counters_ok w \<Longrightarrow> counters_ok w'"
  by (auto simp: count_failed_def count_page_def counters_ok_def res_simps)

lemma one_attempt_counters:
  assumes run: "one_attempt rs host port req a w = Inr w'" and ok: "counters_ok w"
  shows "counters_ok w'"
proof -
  obtain s ls where s: "Socket rs (at_socket a) host port = (s, ls)" by fastforce
  define w1 where "w1 = w\<lparr>wb_open := s # wb_open w\<rparr>"
  have ok1: "counters_ok w1" using ok by (simp add: w1_def)
  show ?thesis
  proof (cases "s < 0 \<or> int (length req) \<noteq> at_write a \<or> wb_http10 w = 0 \<and> at_shutdown a \<noteq> 0")
    case True
    with run s count_counters(1) [of "w\<lparr>wb_open := ls @ wb_open w\<rparr>"] count_counters(1) [of w1] ok ok1
    show ?thesis by (auto simp: one_attempt_def res_simps w1_def Let_def split: if_splits)
  next
    case False
    then have "\<not> (wb_http10 w = 0 \<and> at_shutdown a \<noteq> 0)" by simp
    note skip = if_not_P [OF this]
    from False have "res_bind (if wb_force w = 0 then read_reply (at_reads a) w1 else Inr (True, w1)) (\<lambda>(ok, w2).
        if \<not> ok then res_map (close_socket s) (count_failed w2)
        else if at_close a \<noteq> 0 then count_failed (close_socket s w2) else count_page (close_socket s w2)) = Inr w'"
      using run s unfolding one_attempt_def w1_def by (simp add: Let_def skip split del: if_split)
    then obtain b v where v: "(if wb_force w = 0 then read_reply (at_reads a) w1 else Inr (True, w1)) = Inr (b, v)"
      and fin: "(if \<not> b then res_map (close_socket s) (count_failed v)
        else if at_close a \<noteq> 0 then count_failed (close_socket s v) else count_page (close_socket s v)) = Inr w'"
      unfolding res_bind_eq_Inr by auto
    from v ok1 have "counters_ok v" by (auto split: if_splits dest: read_reply_counters)
    with fin count_counters(1) [of v] count_counters [of "close_socket s v"] show ?thesis
      by (auto simp: res_simps split: if_splits)
  qed
qed

lemma attempts_counters: "attempts rs host port req as w = Inr w' \<Longrightarrow> counters_ok w \<Longrightarrow> counters_ok w'"
proof (induction as arbitrary: w)
  case (Cons a as)
  then show ?case
    by (cases a) (auto simp: res_simps counters_ok_def split: if_splits dest!: one_attempt_counters)
qed simp

subsection \<open>The processes together\<close>

lemma fork_child:
  "\<forall>p \<in> set ps. 0 < p \<Longrightarrow> i + int (length ps) < n \<Longrightarrow>
    fork_workers (ps @ 0 # qs) i n pid = Inr (i + int (length ps), 0)"
  by (induction ps arbitrary: i pid) auto

lemma fork_parent:
  "\<forall>p \<in> set ps. 0 < p \<Longrightarrow> ps \<noteq> [] \<Longrightarrow> i + int (length ps) = n \<Longrightarrow>
    fork_workers ps i n pid = Inr (n, last ps)"
proof (induction ps arbitrary: i pid)
  case (Cons p ps)
  then show ?case by (cases "ps = []") auto
qed simp

text \<open>With a negative number of clients no process is made, and \<open>pid\<close> still has its first value, a child's.\<close>

lemma fork_none: "n \<le> 0 \<Longrightarrow> fork_workers ps 0 n 0 = Inr (0, 0)"
  by (cases ps) auto

lemma one_option_counters: "one_option opt w = Inr w' \<Longrightarrow> counters_ok w \<Longrightarrow> counters_ok w'"
proof (cases opt)
  case (Flag f)
  assume "one_option opt w = Inr w'" "counters_ok w"
  then show ?thesis unfolding Flag by (cases f) (auto simp: one_option_def counters_ok_def)
next
  case (Letter c optarg)
  assume "one_option opt w = Inr w'" "counters_ok w"
  then show ?thesis unfolding Letter
    by (auto simp: one_option_def proxy_option_def counters_ok_def res_simps split: if_splits option.splits)
qed

lemma all_options_counters: "all_options opts w = Inr w' \<Longrightarrow> counters_ok w \<Longrightarrow> counters_ok w'"
  by (induction opts arbitrary: w) (auto simp: res_simps dest!: one_option_counters)

lemma build_request_counters: "build_request url w = Inr w' \<Longrightarrow> counters_ok w \<Longrightarrow> counters_ok w'"
proof -
  assume run: "build_request url w = Inr w'" and ok: "counters_ok w"
  have add: "counters_ok v'" if "add_text s v = Inr v'" "counters_ok v" for s v v'
    using that by (auto simp: add_text_def counters_ok_def res_simps)
  have adds: "counters_ok v'" if "add_if b s v = Inr v'" "counters_ok v" for b s v v'
    using that add by (auto simp: add_if_def split: if_splits)
  have host: "counters_ok v'" if "add_host v = Inr v'" "counters_ok v" for v v'
    using that add unfolding add_host_def res_simps by blast
  have headers: "counters_ok v'" if "add_headers v = Inr v'" "counters_ok v" for v v'
    using that add adds host unfolding add_headers_def Let_def res_simps by (metis sum.inject(2))
  have "counters_ok v'" if "take_host rest v = Inr v'" "counters_ok v" for rest v v'
    using that by (auto simp: take_host_def Let_def counters_ok_def res_simps split: if_splits)
  then have target: "counters_ok v'" if "add_target url rest v = Inr v'" "counters_ok v" for rest v v'
    using that add unfolding add_target_def res_simps by (metis res_bind_eq_Inr)
  obtain v where v: "with_text (request_base w) (method_word (wb_method w) @ '' '') v" and
    eq: "build_request url w =
      (case strstr ''://'' url of
         None \<Rightarrow> Inl (Exit 2)
       | Some p \<Rightarrow>
           let rest = drop (p + 3) url
           in if length url > 1500 then Inl (Exit 2)
              else if wb_proxyhost v = None \<and> \<not> strncasecmp_eq ''http://'' url 7 then Inl (Exit 2)
              else if strchr (CHR ''/'') rest = None then Inl (Exit 2)
              else res_bind (add_target url rest v) add_headers)"
    by (rule build_request_starts)
  obtain p where p: "strstr ''://'' url = Some p" using run eq by (auto split: option.splits)
  then obtain u where "add_target url (drop (p + 3) url) v = Inr u" "add_headers u = Inr w'"
    using run unfolding eq p option.case Let_def by (auto simp: res_simps split: if_splits)
  moreover have "counters_ok v" using v ok by (auto simp: with_text_def request_base_def counters_ok_def)
  ultimately show ?thesis using target headers by blast
qed

lemma setup_counters: "webbench_setup args = Inr (info, w) \<Longrightarrow> counters_ok w"
proof -
  assume "webbench_setup args = Inr (info, w)"
  then obtain opts url v v' where "all_options opts new_webbench = Inr v" "build_request url v' = Inr w"
      "counters_ok v' = counters_ok v"
    by (auto simp: webbench_setup_def Let_def res_simps counters_ok_def split: option.splits if_splits)
  moreover have "counters_ok new_webbench" by (simp add: counters_ok_def new_webbench_def)
  ultimately show ?thesis using all_options_counters build_request_counters by blast
qed

text \<open>
  A parent without a report waits for ever: the pipe has no end, since it holds the writing end
  itself. A report of two numbers is taken, with a third that was never read.
\<close>

lemma collect_waits: "collect [] i k w = Inl Diverges"
  by (subst collect.simps) (simp add: numeral_3_eq_3)

lemma collect_unread: "collect (''1 2 x'') i None w = Inl Uninitialised"
  by (subst collect.simps) (simp add: numeral_3_eq_3 isspace_def isdigit_def digits_val_def)

text \<open>What came out of a process that has written something.\<close>

lemma child_writes:
  assumes "bench rs b w = Inr (e, t, v)" and "t \<noteq> []" and "counters_ok w"
  shows "t = report v \<and> counters_ok v"
proof -
  obtain host where host: "bench_host w = Inr host"
    using assms(1) by (auto simp: bench_def res_simps)
  obtain s ls where s: "Socket rs (ba_first b) host (wb_proxyport w) = (s, ls)" by fastforce
  have live: "\<not> s < 0" "ba_pipe b = 0" using assms(1,2) by (auto simp: bench_def host s split: if_splits)
  obtain i pid where fork: "fork_workers (ba_forks b) 0 (wb_clients w) 0 = Inr (i, pid)"
    using assms(1) live by (auto simp: bench_def host s res_simps)
  have "pid = 0" using assms(1,2) live by (auto simp: bench_def host s fork res_simps split: if_splits)
  then obtain req where req: "array_str (wb_request w) = Inr req"
    using assms(1) live by (auto simp: bench_def host s fork res_simps)
  obtain u where u: "benchcore rs (ba_sigaction b) (ba_attempts b) host (wb_proxyport w) req w = Inr u"
    using assms(1) live \<open>pid = 0\<close> by (auto simp: bench_def host s fork req res_simps)
  then have "t = report v \<and> v = u"
    using assms(1,2) live \<open>pid = 0\<close> by (auto simp: bench_def host s fork req split: if_splits)
  moreover have "attempts rs host (wb_proxyport w) req (ba_attempts b) w = Inr u"
    using u by (simp add: benchcore_def split: if_splits)
  ultimately show ?thesis using assms(3) attempts_counters by blast
qed

subsection \<open>Results\<close>

text \<open>
  C39: for a direct connection the request is built exactly as it is meant, for every URL: one that is not
  \<open>http://\<close>, is longer than 1500 characters or has no slash behind the host ends the program with
  code 2; a host of more than 64 characters or a port of more than 10 is written beyond its array,
  a port of exactly 10, or a host of exactly 64 that the \<open>Host\<close> line needs, is read beyond it;
  and in all other cases \<open>request\<close>, \<open>host\<close> and \<open>proxyport\<close> have the text of the request, the host
  and the port of the URL, and no byte of \<open>request\<close> is out of range.
\<close>
theorem webbench_request:
  assumes "wb_proxyhost w = None" and "NUL \<notin> set url"
  shows "if \<not> url_ok url then build_request url w = Inl (Exit 2)
    else case url_harm (drop 7 url) (fit_version w > 0) of
      Some f \<Rightarrow> build_request url w = Inl f
    | None \<Rightarrow> \<exists>a. build_request url w =
          Inr (w\<lparr>wb_host := url_host (drop 7 url) @ replicate (64 - length (url_host (drop 7 url))) NUL,
            wb_proxyport := port_number (drop 7 url) (wb_proxyport w), wb_http10 := fit_version w, wb_request := a\<rparr>) \<and>
        holds_str a (request_text w (url_target (drop 7 url)) (url_host (drop 7 url)))"
  using build_request_refused build_request_direct assms by simp

theorem webbench_request_witness:
  "build_request (''HTTP://'' @ replicate 65 (CHR ''a'') @ ''/index.html'') new_webbench = Inl Overrun \<and>
   build_request ''http://a.b:0123456789/'' new_webbench = Inl Bad_Range \<and>
   (\<exists>w. build_request ''http://a.b:8080/c'' new_webbench = Inr w \<and> wb_proxyport w = 8080 \<and>
     holds_str (wb_request w) (''GET /c HTTP/1.0'' @ crlf @ ''User-Agent: WebBench 1.5'' @ crlf @ ''Host: a.b'' @ crlf @ crlf))"
proof -
  let ?long = "''HTTP://'' @ replicate 65 (CHR ''a'') @ ''/index.html''"
  have a: "wb_proxyhost new_webbench = None" by code_simp
  have "NUL \<notin> set ?long" "url_ok ?long" "url_harm (drop 7 ?long) (fit_version new_webbench > 0) = Some Overrun"
    by code_simp+
  then have 1: "build_request ?long new_webbench = Inl Overrun" using webbench_request [OF a, of ?long] by simp
  let ?port = "''http://a.b:0123456789/''"
  have "NUL \<notin> set ?port" "url_ok ?port" "url_harm (drop 7 ?port) (fit_version new_webbench > 0) = Some Bad_Range"
    by code_simp+
  then have 2: "build_request ?port new_webbench = Inl Bad_Range" using webbench_request [OF a, of ?port] by simp
  let ?good = "''http://a.b:8080/c''"
  have g: "NUL \<notin> set ?good" "url_ok ?good" "url_harm (drop 7 ?good) (fit_version new_webbench > 0) = None"
    "port_number (drop 7 ?good) (wb_proxyport new_webbench) = 8080"
    "request_text new_webbench (url_target (drop 7 ?good)) (url_host (drop 7 ?good)) =
      ''GET /c HTTP/1.0'' @ crlf @ ''User-Agent: WebBench 1.5'' @ crlf @ ''Host: a.b'' @ crlf @ crlf"
    by code_simp+
  with webbench_request [OF a g(1)] have "\<exists>w. build_request ?good new_webbench = Inr w \<and> wb_proxyport w = 8080 \<and>
     holds_str (wb_request w) (''GET /c HTTP/1.0'' @ crlf @ ''User-Agent: WebBench 1.5'' @ crlf @ ''Host: a.b'' @ crlf @ crlf)"
    by auto
  with 1 2 show ?thesis by blast
qed

text \<open>
  C38: what one client reports. A child that has turned the loop for the attempts \<open>as\<close> until its alarm
  writes to the pipe the number of attempts that were connected, sent, read to their end, or to
  the moment of the alarm, and closed without an error; one less than the number of the others, if there were others; and the
  sum of the bytes read, those of pages that failed later included. The descriptors that are open
  at the end are those of the attempts whose \<open>connect\<close> failed.
\<close>
theorem webbench_counts:
  fixes w rs host req defines "good \<equiv> page_ok rs host (wb_proxyport w) req w"
  assumes "bench_host w = Inr host" and "holds_str (wb_request w) req"
    and "wb_speed w = 0" and "wb_failed w = 0" and "wb_bytes w = 0" and "wb_open w = []"
    and "0 \<le> fst (Socket rs (ba_first a) host (wb_proxyport w))"
    and "ba_pipe a = 0" and "ba_sigaction a = 0" and "ba_fdopen a"
    and "ba_forks a = ps @ 0 # qs" and "\<forall>p \<in> set ps. 0 < p" and "int (length ps) < wb_clients w"
    and "ba_attempts a = map (Pair False) as @ (True, x) # ys"
    and "\<forall>t \<in> set as. wb_force w = 0 \<longrightarrow> reply_ends (at_reads t)"
    and "int (length as) \<le> int_max"
    and "sum_list (map (page_bytes rs host (wb_proxyport w) req w) as) \<le> int_max"
    and "w' = w\<lparr>wb_speed := int (length (filter good as)),
      wb_failed := int (length (filter (\<lambda>t. \<not> good t) as) - 1),
      wb_bytes := sum_list (map (page_bytes rs host (wb_proxyport w) req w) as),
      wb_open := concat (rev (map (leaks rs host (wb_proxyport w)) as))\<rparr>"
  shows "bench rs a w = Inr (0, report w', w')"
proof -
  obtain s ls where s: "Socket rs (ba_first a) host (wb_proxyport w) = (s, ls)" by fastforce
  let ?v = "tallied rs host (wb_proxyport w) req as w"
  have "attempts rs host (wb_proxyport w) req (map (Pair False) as @ (True, x) # ys) w =
      (let w' = ?v in Inr (if wb_failed w' > 0 then w'\<lparr>wb_failed := wb_failed w' - 1\<rparr> else w'))"
    using assms by (intro attempts_eq) simp_all
  moreover have "(if wb_failed ?v > 0 then ?v\<lparr>wb_failed := wb_failed ?v - 1\<rparr> else ?v) = w'"
    using assms(4-7) unfolding assms(19) good_def tallied_def
    by (cases "filter (\<lambda>t. \<not> page_ok rs host (wb_proxyport w) req w t) as"; cases w) auto
  ultimately have "attempts rs host (wb_proxyport w) req (ba_attempts a) w = Inr w'"
    by (simp add: Let_def assms(15))
  moreover have "fork_workers (ba_forks a) 0 (wb_clients w) 0 = Inr (int (length ps), 0)"
    using fork_child [of ps 0 "wb_clients w" qs 0] assms(12-14) by simp
  ultimately show ?thesis
    using assms(8-11) by (simp add: bench_def assms(2) s array_str_holds [OF assms(3)] benchcore_def)
qed

definition sample_resolver :: resolver where
  "sample_resolver = \<lparr>rs_inet_addr = (\<lambda>host. None),
     rs_gethostbyname = (\<lambda>host. if host = ''a.b'' then Some (127, 0, 0, 1) else None)\<rparr>"

definition sample_request :: string where
  "sample_request = ''GET /c HTTP/1.0'' @ crlf @ ''User-Agent: WebBench 1.5'' @ crlf @ ''Host: a.b'' @ crlf @ crlf"

definition sample_webbench :: webbench where
  "sample_webbench = new_webbench\<lparr>wb_clients := 2, wb_host := ''a.b'' @ replicate 61 NUL,
     wb_request := sample_request @ replicate (2048 - length sample_request) NUL\<rparr>"

definition sample_attempts :: "attempt list" where
  "sample_attempts =
     (let sent = \<lparr>at_socket = \<lparr>sa_socket = 5, sa_connect = 0\<rparr>, at_write = int (length sample_request), at_shutdown = 0,
            at_reads = [(False, 600), (False, 400), (False, 0)], at_close = 0\<rparr>
      in [sent, sent\<lparr>at_socket := \<lparr>sa_socket = 5, sa_connect = - 1\<rparr>\<rparr>, sent\<lparr>at_write := 3\<rparr>,
          sent\<lparr>at_reads := [(False, 70), (False, - 1)]\<rparr>])"

definition sample_child :: bench_answers where
  "sample_child = \<lparr>ba_first = \<lparr>sa_socket = 5, sa_connect = 0\<rparr>, ba_pipe = 0, ba_forks = [700, 0], ba_sigaction = 0,
     ba_attempts = map (Pair False) sample_attempts @ (True, hd sample_attempts) # [], ba_fdopen = True, ba_text = []\<rparr>"

theorem webbench_counts_witness:
  "\<exists>w'. bench sample_resolver sample_child sample_webbench = Inr (0, ''1 2 1070'' @ [LF], w') \<and> wb_open w' = [5]"
proof -
  let ?w = "sample_webbench\<lparr>wb_speed := 1, wb_failed := 2, wb_bytes := 1070, wb_open := [5]\<rparr>"
  let ?good = "page_ok sample_resolver ''a.b'' (wb_proxyport sample_webbench) sample_request sample_webbench"
  let ?bytes = "page_bytes sample_resolver ''a.b'' (wb_proxyport sample_webbench) sample_request sample_webbench"
  have req: "holds_str (wb_request sample_webbench) sample_request"
    unfolding array_str_eq [symmetric] by code_simp
  have host: "bench_host sample_webbench = Inr ''a.b''" by code_simp
  have zero: "wb_speed sample_webbench = 0" "wb_failed sample_webbench = 0" "wb_bytes sample_webbench = 0"
    "wb_open sample_webbench = []" "int (length [700 :: int]) < wb_clients sample_webbench"
    by (simp_all add: sample_webbench_def new_webbench_def)
  have child: "ba_pipe sample_child = 0" "ba_sigaction sample_child = 0" "ba_fdopen sample_child"
    "ba_forks sample_child = [700] @ 0 # []"
    "ba_attempts sample_child = map (Pair False) sample_attempts @ (True, hd sample_attempts) # []"
    by (simp_all add: sample_child_def)
  have first: "0 \<le> fst (Socket sample_resolver (ba_first sample_child) ''a.b'' (wb_proxyport sample_webbench))" by code_simp
  have ends: "\<forall>t \<in> set sample_attempts. wb_force sample_webbench = 0 \<longrightarrow> reply_ends (at_reads t)" by code_simp
  have sums: "sum_list (map ?bytes sample_attempts) = 1070" "length (filter ?good sample_attempts) = 1"
    "length (filter (\<lambda>t. \<not> ?good t) sample_attempts) = 3"
    "concat (rev (map (leaks sample_resolver ''a.b'' (wb_proxyport sample_webbench)) sample_attempts)) = [5]"
    "int (length sample_attempts) \<le> int_max"
    by code_simp+
  have "bench sample_resolver sample_child sample_webbench = Inr (0, report ?w, ?w)"
    by (rule webbench_counts [OF host req zero(1-4) first child(1-4) _ zero(5) child(5) ends sums(5)])
      (simp_all only: sums, simp_all)
  moreover have "report ?w = ''1 2 1070'' @ [LF]" by code_simp
  ultimately show ?thesis by simp
qed

text \<open>
  C37: what the parent adds up. If the reports of the children arrive one after the other, in whatever
  order, and their sums fit into an \<open>int\<close>, the parent ends with the sums of the pages, the
  failures and the bytes its children have counted, and all are accounted for. The code it leaves
  with is the number of pages of the child that reported last.
\<close>
theorem webbench_totals:
  fixes cs :: "(bench_answers \<times> string \<times> webbench) list"
  defines "vs \<equiv> map (\<lambda>(b, t, v). v) cs"
  assumes "webbench_setup args = Inr (info, w)" and "bench_host w = Inr host"
    and "\<forall>(b, t, v) \<in> set cs. webbench_main rs b args = Inr (0, t, v) \<and> t \<noteq> []"
    and "cs \<noteq> []" and "int (length cs) = wb_clients w" and "int (length cs) \<le> int_max"
    and "0 \<le> fst (Socket rs (ba_first a) host (wb_proxyport w))" and "ba_pipe a = 0" and "ba_fdopen a"
    and "int (length (ba_forks a)) = wb_clients w" and "\<forall>p \<in> set (ba_forks a). 0 < p"
    and "ba_text a = concat (map (\<lambda>(b, t, v). t) cs)"
    and "sum_list (map wb_speed vs) \<le> int_max" and "sum_list (map wb_failed vs) \<le> int_max"
    and "sum_list (map wb_bytes vs) \<le> int_max"
  shows "webbench_main rs a args = Inr (wb_speed (last vs), [], w\<lparr>wb_speed := sum_list (map wb_speed vs),
    wb_failed := sum_list (map wb_failed vs), wb_bytes := sum_list (map wb_bytes vs), wb_clients := 0\<rparr>)"
proof -
  have "t = report v \<and> counters_ok v" if "(b, t, v) \<in> set cs" for b t v
    using that assms(4) child_writes [of rs b w 0 t v] setup_counters [OF assms(2)]
    by (auto simp: webbench_main_def assms(2))
  then have "map (\<lambda>(b, t, v). t) cs = map report vs" and ok: "\<forall>v \<in> set vs. counters_ok v"
    by (auto simp: vs_def)
  then have told: "ba_text a = [] @ concat (map report vs) @ []" using assms(13) by simp
  let ?w = "w\<lparr>wb_speed := 0, wb_failed := 0, wb_bytes := 0\<rparr>"
  have "collect (ba_text a) i k ?w = Inr (wb_speed (last vs), ?w\<lparr>wb_speed := wb_speed ?w + sum_list (map wb_speed vs),
      wb_failed := wb_failed ?w + sum_list (map wb_failed vs), wb_bytes := wb_bytes ?w + sum_list (map wb_bytes vs),
      wb_clients := 0\<rparr>)" for i k
    unfolding told using assms(5-7,14-16) ok by (intro collect_eq) (auto simp: vs_def counters_ok_def)
  moreover have "fork_workers (ba_forks a) 0 (wb_clients w) 0 = Inr (wb_clients w, last (ba_forks a))"
    using assms(5,6,11,12) by (intro fork_parent) auto
  moreover have "0 < last (ba_forks a)" using assms(5,6,11,12) last_in_set [of "ba_forks a"] by fastforce
  moreover obtain s ls where s: "Socket rs (ba_first a) host (wb_proxyport w) = (s, ls)" by fastforce
  ultimately have "bench rs a w = Inr (wb_speed (last vs), [], ?w\<lparr>wb_speed := wb_speed ?w + sum_list (map wb_speed vs),
      wb_failed := wb_failed ?w + sum_list (map wb_failed vs), wb_bytes := wb_bytes ?w + sum_list (map wb_bytes vs),
      wb_clients := 0\<rparr>)"
    using assms(8-10) by (simp add: bench_def assms(3) s del: webbench.simps)
  then show ?thesis by (cases w) (simp add: webbench_main_def assms(2))
qed

definition sample_args :: "(found_option list \<times> string option) option" where
  "sample_args = Some ([Letter (CHR ''c'') ''2''], Some ''http://a.b/c'')"

definition sample_state :: "string \<Rightarrow> webbench" where
  "sample_state a = new_webbench\<lparr>wb_clients := 2, wb_host := ''a.b'' @ replicate 61 NUL, wb_request := a\<rparr>"

definition second_child :: bench_answers where
  "second_child = sample_child\<lparr>ba_forks := [0], ba_attempts := [(False, hd sample_attempts), (False, hd sample_attempts),
     (True, hd sample_attempts)]\<rparr>"

definition sample_parent :: bench_answers where
  "sample_parent = sample_child\<lparr>ba_forks := [700, 701], ba_attempts := [],
     ba_text := ''1 2 1070'' @ [LF] @ ''2 0 2000'' @ [LF]\<rparr>"

definition sample_children :: "string \<Rightarrow> (bench_answers \<times> string \<times> webbench) list" where
  "sample_children a =
     [(sample_child, ''1 2 1070'' @ [LF], (sample_state a)\<lparr>wb_speed := 1, wb_failed := 2, wb_bytes := 1070, wb_open := [5]\<rparr>),
      (second_child, ''2 0 2000'' @ [LF], (sample_state a)\<lparr>wb_speed := 2, wb_bytes := 2000\<rparr>)]"

lemma sample_setup:
  "\<exists>info a. webbench_setup sample_args = Inr (info, sample_state a) \<and> array_str a = Inr sample_request"
proof -
  let ?u = "''http://a.b/c''" and ?w = "new_webbench\<lparr>wb_clients := 2\<rparr>"
  have u: "wb_proxyhost ?w = None" "url_ok ?u" "NUL \<notin> set ?u" "url_harm (drop 7 ?u) (1 > (0 :: int)) = None"
    "request_text ?w (url_target (drop 7 ?u)) ''a.b'' = sample_request"
    "url_host (drop 7 ?u) = ''a.b''" "port_number (drop 7 ?u) (wb_proxyport ?w) = 80" "fit_version ?w = 1"
    by code_simp+
  obtain a where a: "build_request ?u ?w = Inr (?w\<lparr>wb_host := ''a.b'' @ replicate 61 NUL, wb_proxyport := 80,
      wb_http10 := 1, wb_request := a\<rparr>)" "array_str a = Inr sample_request"
    using build_request_direct [OF u(1-3)] unfolding u(4-8) option.case array_str_eq by auto
  moreover have "?w\<lparr>wb_host := ''a.b'' @ replicate 61 NUL, wb_proxyport := 80, wb_http10 := 1, wb_request := a\<rparr> = sample_state a"
    by (simp add: sample_state_def new_webbench_def)
  moreover have "all_options [Letter (CHR ''c'') ''2''] new_webbench = Inr ?w" by code_simp
  ultimately show ?thesis
    by (auto simp: webbench_setup_def sample_args_def new_webbench_def)
qed

lemma sample_child_runs:
  assumes "array_str a = Inr sample_request"
  shows "\<forall>(b, t, v) \<in> set (sample_children a). bench sample_resolver b (sample_state a) = Inr (0, t, v) \<and> t \<noteq> []"
proof -
  let ?w = "sample_state a"
  have w: "bench_host ?w = Inr ''a.b''" "array_str (wb_request ?w) = Inr sample_request" "wb_proxyport ?w = 80" "wb_clients ?w = 2"
    using assms by (simp_all add: sample_state_def bench_host_def new_webbench_def array_str_def c_str_def)
  have s: "Socket sample_resolver (ba_first b) ''a.b'' 80 = (5, []) \<and> ba_pipe b = 0 \<and> ba_fdopen b \<and> ba_sigaction b = 0"
    if "b = sample_child \<or> b = second_child" for b
    using that by (auto simp: second_child_def sample_child_def Socket_def client_address_def sample_resolver_def Let_def)
  have f: "fork_workers (ba_forks sample_child) 0 2 0 = Inr (1, 0)" "fork_workers (ba_forks second_child) 0 2 0 = Inr (0, 0)"
    by code_simp+
  have r: "attempts sample_resolver ''a.b'' 80 sample_request (ba_attempts sample_child) ?w =
      Inr (?w\<lparr>wb_speed := 1, wb_failed := 2, wb_bytes := 1070, wb_open := [5]\<rparr>)"
    "attempts sample_resolver ''a.b'' 80 sample_request (ba_attempts second_child) ?w =
      Inr (?w\<lparr>wb_speed := 2, wb_bytes := 2000\<rparr>)"
    by code_simp+
  have t: "report (?w\<lparr>wb_speed := 1, wb_failed := 2, wb_bytes := 1070, wb_open := [5]\<rparr>) = ''1 2 1070'' @ [LF]"
    "report (?w\<lparr>wb_speed := 2, wb_bytes := 2000\<rparr>) = ''2 0 2000'' @ [LF]"
    by code_simp+
  show ?thesis
    using s by (simp add: sample_children_def bench_def w f r t benchcore_def)
qed

theorem webbench_totals_witness:
  "\<exists>w. webbench_main sample_resolver sample_parent sample_args = Inr (2, [], w) \<and>
     wb_speed w = 3 \<and> wb_failed w = 2 \<and> wb_bytes w = 3070 \<and> wb_clients w = 0"
proof -
  obtain info a where start: "webbench_setup sample_args = Inr (info, sample_state a)" and a: "array_str a = Inr sample_request"
    using sample_setup by blast
  have host: "bench_host (sample_state a) = Inr ''a.b''"
    by (simp add: sample_state_def bench_host_def new_webbench_def array_str_def c_str_def)
  have child: "\<forall>(b, t, v) \<in> set (sample_children a). webbench_main sample_resolver b sample_args = Inr (0, t, v) \<and> t \<noteq> []"
    using sample_child_runs [OF a] by (simp add: webbench_main_def start)
  have n: "sample_children a \<noteq> []" "int (length (sample_children a)) = wb_clients (sample_state a)"
    "int (length (sample_children a)) \<le> int_max"
    by (simp_all add: sample_children_def sample_state_def)
  have first: "0 \<le> fst (Socket sample_resolver (ba_first sample_parent) ''a.b'' (wb_proxyport (sample_state a)))"
    by (simp add: sample_parent_def sample_child_def Socket_def client_address_def sample_resolver_def)
  have parent: "ba_pipe sample_parent = 0" "ba_fdopen sample_parent"
    "int (length (ba_forks sample_parent)) = wb_clients (sample_state a)" "\<forall>p \<in> set (ba_forks sample_parent). 0 < p"
    "ba_text sample_parent = concat (map (\<lambda>(b, t, v). t) (sample_children a))"
    by (simp_all add: sample_parent_def sample_child_def sample_state_def sample_children_def)
  show ?thesis
    using webbench_totals [OF start host child n first parent]
    by (simp add: sample_children_def sample_state_def new_webbench_def)
qed

end
