(* ===== verification/WebbenchServer.thy ===== *)
theory WebbenchServer
  imports WebbenchRun HttpServer
begin

text \<open>
  The load generator against the server of this repository: the request that \<open>webbench\<close> builds is
  the bytes that one read of the server delivers, and the bytes the server sends are what the
  generator's reads deliver.
\<close>

subsection \<open>The request, as the server reads it\<close>

definition url_path :: "string \<Rightarrow> string" where
  "url_path target = takeWhile (\<lambda>c. c \<noteq> CHR ''?'') target"

definition url_query :: "string \<Rightarrow> string" where
  "url_query target = dropWhile (\<lambda>c. c \<noteq> CHR ''?'') target"

definition request_headers :: "bool \<Rightarrow> string \<Rightarrow> (string \<times> string) list" where
  "request_headers v11 host =
     [(''User-Agent'', ''WebBench '' @ PROGRAM_VERSION), (''Host'', host)] @
     (if v11 then [(''Connection'', ''close'')] else [])"

lemma request_text_rendered:
  assumes "wb_proxyhost w = None" and "fit_version w = 1 \<or> fit_version w = 2"
  shows "request_text w target host = render_request (method_word (wb_method w)) (url_path target) (url_query target)
    (fit_version w = 2) (request_headers (fit_version w = 2) host)"
  using assms by (auto simp: request_text_def header_text_def render_request_def render_header_def request_headers_def
    url_path_def url_query_def Let_def)

lemma url_line_ok:
  assumes "\<forall>c \<in> set target. \<not> isspace c"
  shows "line_ok (method_word m) (url_path target) (url_query target)"
proof -
  have "isspace (CHR '' '')" "isspace CR" by code_simp+
  moreover have "set (url_path target) \<subseteq> set target" "CHR ''?'' \<notin> set (url_path target)" "set (url_query target) \<subseteq> set target"
    by (auto simp: url_path_def url_query_def dest: set_takeWhileD set_dropWhileD)
  moreover have "url_query target = [] \<or> hd (url_query target) = CHR ''?''"
    using hd_dropWhile [of "\<lambda>c. c \<noteq> CHR ''?''" target] by (auto simp: url_query_def)
  moreover have "{CHR '' '', CR} \<inter> set (method_word m) = {}" by (simp add: method_word_def)
  ultimately show ?thesis using assms unfolding line_ok_def by blast
qed

lemma request_headers_ok:
  assumes "\<forall>c \<in> set host. \<not> isspace c"
  shows "\<forall>h \<in> set (request_headers v11 host). header_ok h"
proof -
  have "isspace CR" "header_ok (''User-Agent'', ''WebBench '' @ PROGRAM_VERSION)" "header_ok (''Connection'', ''close'')"
    by code_simp+
  moreover have "no_space_ends host"
    using assms hd_in_set [of host] last_in_set [of host] by (auto simp: no_space_ends_def)
  ultimately show ?thesis using assms by (auto simp: request_headers_def header_ok_def)
qed

lemma request_closes: "wants_close (sent_request m path query v11 (request_headers v11 host) [])"
  by (cases v11) (simp_all add: wants_close_def getHeader_sent request_headers_def, simp add: sent_request_def)

lemma method_word_not_post: "method_of (method_word m) \<noteq> POST"
  by (simp add: method_word_def method_of_def)

subsection \<open>What the generator counts\<close>

text \<open>The reads of a reply that comes in pieces.\<close>

definition piece_reads :: "string list \<Rightarrow> (bool \<times> int) list" where
  "piece_reads ps = map (\<lambda>p. (False, int (length p))) ps @ [(False, 0)]"

lemma piece_reads_ok:
  assumes "\<forall>p \<in> set ps. p \<noteq> []"
  shows "reply_ends (piece_reads ps)" "reply_ok (piece_reads ps)" "reply_bytes (piece_reads ps) = int (length (concat ps))"
  using assms by (induction ps) (auto simp: piece_reads_def)

text \<open>One turn that sends its request and reads a reply in pieces to the end.\<close>

definition whole_turn :: "resolver \<Rightarrow> string \<Rightarrow> int \<Rightarrow> string \<Rightarrow> string list \<Rightarrow> attempt \<Rightarrow> bool" where
  "whole_turn rs host port req ps t \<longleftrightarrow> 0 \<le> fst (Socket rs (at_socket t) host port) \<and>
     at_write t = int (length req) \<and> at_shutdown t = 0 \<and> at_reads t = piece_reads ps \<and> at_close t = 0"

lemma whole_turn_counts:
  assumes "whole_turn rs host port req ps t" and "\<forall>p \<in> set ps. p \<noteq> []" and "wb_force v = 0"
    and "counters_ok v" and "wb_speed v < int_max" and "wb_failed v < int_max"
    and "wb_bytes v + int (length (concat ps)) \<le> int_max"
  shows "one_attempt rs host port req t v =
    Inr (v\<lparr>wb_speed := wb_speed v + 1, wb_bytes := wb_bytes v + int (length (concat ps))\<rparr>)"
proof -
  have reads: "at_reads t = piece_reads ps" and so: "0 \<le> fst (Socket rs (at_socket t) host port)"
    using assms(1) by (simp_all add: whole_turn_def)
  have "request_sent rs host port req v t" "page_ok rs host port req v t"
    using assms(1) piece_reads_ok [OF assms(2)] by (simp_all add: request_sent_def page_ok_def whole_turn_def)
  moreover from this have bytes: "page_bytes rs host port req v t = int (length (concat ps))"
    using assms(3) piece_reads_ok [OF assms(2)] by (simp add: page_bytes_def reads)
  moreover have "leaks rs host port t = []"
    using so Socket_leak [of rs "at_socket t" host port] by (cases "Socket rs (at_socket t) host port") (simp add: leaks_def)
  moreover have "one_attempt rs host port req t v = Inr (v\<lparr>wb_open := leaks rs host port t @ wb_open v,
    wb_speed := wb_speed v + (if page_ok rs host port req v t then 1 else 0),
    wb_failed := wb_failed v + (if page_ok rs host port req v t then 0 else 1),
    wb_bytes := wb_bytes v + page_bytes rs host port req v t\<rparr>)"
    using assms(4-7) piece_reads_ok(1) [OF assms(2)] bytes
    by (intro one_attempt_eq) (simp_all add: counters_ok_def reads)
  ultimately show ?thesis by (cases v) simp
qed

subsection \<open>The generator and the server together\<close>


definition sample_turn :: "string \<Rightarrow> string list \<Rightarrow> attempt" where
  "sample_turn req ps = \<lparr>at_socket = \<lparr>sa_socket = 5, sa_connect = 0\<rparr>, at_write = int (length req), at_shutdown = 0,
     at_reads = piece_reads ps, at_close = 0\<rparr>"

lemma sample_turn_whole: "whole_turn sample_resolver ''a.b'' 80 req ps (sample_turn req ps)"
  by (simp add: whole_turn_def sample_turn_def Socket_def client_address_def sample_resolver_def)

definition sample_env :: http_env where
  "sample_env = \<lparr>env_cwd = ''/srv'', env_open = (\<lambda>f. if f = ''/srv/root/log.html'' then Some [Data ''hi'', Data []] else None),
     env_query = (\<lambda>_ _. True)\<rparr>"

lemma sample_counters: "wb_force new_webbench = 0" "counters_ok new_webbench" "wb_speed new_webbench = 0"
  "wb_failed new_webbench = 0" "wb_bytes new_webbench = 0"
  by (simp_all add: new_webbench_def counters_ok_def)


subsection \<open>HTTP/0.9\<close>

lemma old_request_refused:
  assumes "\<forall>c \<in> set target. \<not> isspace c"
  shows "\<not> fst (processRequestLine (''GET '' @ target) new_context)"
proof -
  have "isspace (CHR '' '')" by code_simp
  then have "CHR '' '' \<notin> set target" using assms by auto
  then show ?thesis
    using find_char_append_absent [of "CHR '' ''" "''GET''" "CHR '' '' # target"]
    by (simp add: processRequestLine_def setMethod_eq find_char_absent Let_def)
qed

text \<open>
  C40: with the option for HTTP/0.9 the generator measures error answers. Its request is the method
  and the target alone; the server answers every such request with status 400 and no page, and a
  turn of the generator that reads this answer counts it as a page without a failure.
\<close>
theorem webbench_http09:
  fixes url io env defines "target \<equiv> url_target (drop 7 url)"
  assumes "wb_proxyhost w = None" and "build_request url w = Inr w'" and "\<forall>c \<in> set url. \<not> isspace c \<and> c \<noteq> NUL"
    and "url_ok url" and "wb_http10 w = 0" and "wb_method w = METHOD_GET" and "array_str (wb_request w') = Inr req"
    and "conn_mode c = 1" and "buf_ok (readBuffer c)" and "contents (readBuffer c) = []"
    and "conn_context c = Some new_context" and "int (length req) < writableBytes (readBuffer c)"
    and "out_ok c io" and "contents (writeBuffer c) = []"
    and "readIndex (writeBuffer c) = 0" and "0 < buf_size (writeBuffer c)" and "io_writes io = a # as"
  shows "\<exists>c' io'. handleRead (onMessage env) now [Data req] c io = Inr (c', io') \<and>
    io_sent io' @ contents (writeBuffer c') = io_sent io @ bad_request \<and> io_fin io' \<and>
    (\<forall>rs host port t v ps. whole_turn rs host port req ps t \<and> concat ps = bad_request \<and> (\<forall>p \<in> set ps. p \<noteq> []) \<and>
        wb_force v = 0 \<and> counters_ok v \<and> wb_speed v < int_max \<and> wb_failed v < int_max \<and> wb_bytes v + 28 \<le> int_max \<longrightarrow>
      one_attempt rs host port req t v = Inr (v\<lparr>wb_speed := wb_speed v + 1, wb_bytes := wb_bytes v + 28\<rparr>))"
proof -
  have fit: "fit_version w = 0"
    using assms(2,6,7) by (simp add: fit_version_def METHOD_GET_def METHOD_HEAD_def METHOD_OPTIONS_def METHOD_TRACE_def)
  have "NUL \<notin> set url" using assms(4) by auto
  from build_request_direct [OF assms(2,5) this] have "holds_str (wb_request w') (request_text w target (url_host (drop 7 url)))"
    using assms(3) by (auto simp: target_def split: option.splits)
  then have req: "req = (''GET '' @ target) @ crlf @ []"
    using assms(2,7,8) by (simp add: array_str_holds request_text_def header_text_def fit method_word_def
      METHOD_GET_def METHOD_HEAD_def METHOD_OPTIONS_def METHOD_TRACE_def)
  have target: "\<forall>c \<in> set target. \<not> isspace c"
    using assms(4) by (auto simp: target_def url_target_def dest!: in_set_dropD)
  moreover have "isspace CR" by code_simp
  ultimately have cr: "CR \<notin> set (''GET '' @ target)" by auto
  have fits: "int (length ((''GET '' @ target) @ crlf @ [])) < writableBytes (readBuffer c)"
    using assms(13) unfolding req .
  have "\<exists>c' io'. handleRead (onMessage env) now [Data req] c io = Inr (c', io') \<and>
      io_sent io' @ contents (writeBuffer c') = io_sent io @ bad_request \<and> io_fin io'"
    using http_bad_request [OF assms(9-12) cr old_request_refused [OF target] fits assms(14-18)]
    unfolding req by blast
  moreover have "one_attempt rs host port req t v =
      Inr (v\<lparr>wb_speed := wb_speed v + 1, wb_bytes := wb_bytes v + 28\<rparr>)"
    if "whole_turn rs host port req ps t \<and> concat ps = bad_request \<and> (\<forall>p \<in> set ps. p \<noteq> []) \<and> wb_force v = 0 \<and>
      counters_ok v \<and> wb_speed v < int_max \<and> wb_failed v < int_max \<and> wb_bytes v + 28 \<le> int_max"
    for rs host port t v ps
  proof -
    have "int (length (concat ps)) = 28" using that by (simp add: bad_request_def)
    with that whole_turn_counts [of rs host port req ps t v] show ?thesis by simp
  qed
  ultimately show ?thesis by blast
qed

theorem webbench_http09_witness:
  "\<exists>w' req c io c' io'. build_request ''http://a.b/1'' (new_webbench\<lparr>wb_http10 := 0\<rparr>) = Inr w' \<and>
     array_str (wb_request w') = Inr req \<and> req = ''GET /1'' @ crlf \<and>
     connectEstablished (onConnection (new_connection 0 7 1 ''peer'' 0 None None)) (fresh_server [Wrote 9] []) = (c, io) \<and>
     handleRead (onMessage sample_env) (Timestamp 5) [Data req] c io = Inr (c', io') \<and>
     io_sent io' @ contents (writeBuffer c') = bad_request \<and>
     one_attempt sample_resolver ''a.b'' 80 req (sample_turn req [bad_request]) (new_webbench\<lparr>wb_http10 := 0\<rparr>) =
       Inr (new_webbench\<lparr>wb_http10 := 0, wb_speed := 1, wb_bytes := 28\<rparr>)"
proof -
  let ?u = "''http://a.b/1''" and ?w = "new_webbench\<lparr>wb_http10 := 0\<rparr>"
  have u: "wb_proxyhost ?w = None" "url_ok ?u" "NUL \<notin> set ?u" "url_harm (drop 7 ?u) (fit_version ?w > 0) = None"
    "\<forall>c \<in> set ?u. \<not> isspace c \<and> c \<noteq> NUL" "wb_http10 ?w = 0" "wb_method ?w = METHOD_GET"
    "request_text ?w (url_target (drop 7 ?u)) (url_host (drop 7 ?u)) = ''GET /1'' @ crlf"
    by code_simp+
  obtain w' req where w': "build_request ?u ?w = Inr w'" "array_str (wb_request w') = Inr req" "req = ''GET /1'' @ crlf"
    using build_request_direct [OF u(1-3)] unfolding u(4) option.case array_str_eq [symmetric] using u(8) by auto
  obtain c io where c: "connectEstablished (onConnection (new_connection 0 7 1 ''peer'' 0 None None))
        (fresh_server [Wrote 9] []) = (c, io)" "out_ok c io" "conn_mode c = 1" "io_sent io = []"
      "io_writes io = [Wrote 9]" "writeBuffer c = buf_new 1024" "readBuffer c = buf_new 1024"
      "conn_context c = Some new_context" "\<not> io_fin io"
    by (rule fresh_http_connection)
  have buf: "buf_ok (readBuffer c)" "contents (readBuffer c) = []" "int (length req) < writableBytes (readBuffer c)"
    "contents (writeBuffer c) = []" "readIndex (writeBuffer c) = 0" "0 < buf_size (writeBuffer c)"
    by (simp_all add: c(6,7) writableBytes_new w'(3), simp_all add: buf_new_def buf_size_def)
  from webbench_http09 [OF u(1) w'(1) u(5) u(2) u(6,7) w'(2) c(3) buf(1,2) c(8) buf(3) c(2) buf(4-6) c(5),
      where now = "Timestamp 5" and env = sample_env]
  obtain c' io' where r: "handleRead (onMessage sample_env) (Timestamp 5) [Data req] c io = Inr (c', io')"
      "io_sent io' @ contents (writeBuffer c') = bad_request"
    and n: "\<And>rs host port t v ps. whole_turn rs host port req ps t \<and> concat ps = bad_request \<and> (\<forall>p \<in> set ps. p \<noteq> []) \<and>
        wb_force v = 0 \<and> counters_ok v \<and> wb_speed v < int_max \<and> wb_failed v < int_max \<and> wb_bytes v + 28 \<le> int_max \<Longrightarrow>
      one_attempt rs host port req t v = Inr (v\<lparr>wb_speed := wb_speed v + 1, wb_bytes := wb_bytes v + 28\<rparr>)"
    unfolding c(4) append_Nil by blast
  have "counters_ok ?w" by (simp add: counters_ok_def new_webbench_def)
  with n [of sample_resolver "''a.b''" 80 "[bad_request]" "sample_turn req [bad_request]" ?w] sample_turn_whole sample_counters
  have "one_attempt sample_resolver ''a.b'' 80 req (sample_turn req [bad_request]) ?w =
      Inr (?w\<lparr>wb_speed := 1, wb_bytes := 28\<rparr>)"
    by (simp add: bad_request_def)
  with w' c(1) r show ?thesis by auto
qed

end
